(* ===== verification/Prelude.thy ===== *)
theory Prelude
  imports Main "HOL-Library.Word"
begin

text \<open>
  What the components of the three programs share: the machine types of the C code, the ways
  in which a C operation can go wrong as a sum type with its bind, bounds-checked access to C
  arrays (an array is a list of fixed length), and the byte order conversions of
  \<^verbatim>\<open>arpa/inet.h\<close> on the little-endian hosts the Makefiles build for.
  Facts about results are in \<open>result_simps\<close>, facts that move between machine words and
  natural numbers are in \<open>word_facts\<close>.
\<close>

unbundle bit_operations_syntax

named_theorems result_simps \<open>evaluation of results and checked array accesses\<close>
named_theorems word_facts \<open>machine words read as natural numbers\<close>

section \<open>Machine types\<close>

type_synonym byte = "8 word"
type_synonym u16 = "16 word"
type_synonym u32 = "32 word"
type_synonym u64 = "64 word"

text \<open>The bytes of a string literal, without its terminator.\<close>

abbreviation ascii :: "string \<Rightarrow> byte list" where
  "ascii s \<equiv> map of_char s"

lemma unat_byte_less [word_facts]: "unat (b :: byte) < 256"
  using unsigned_less [of b] by simp

section \<open>Results\<close>

text \<open>
  How an execution of C code can leave the defined behaviour of the language, or stop: an access
  outside an array, a dereferenced null pointer, a read of freed memory, a failed
  \<^verbatim>\<open>assert\<close>.
\<close>

datatype c_error = OutOfBounds | NullDeref | UseAfterFree | AssertFailed

type_synonym 'a result = "c_error + 'a"

definition bindR :: "'e + 'a \<Rightarrow> ('a \<Rightarrow> 'e + 'b) \<Rightarrow> 'e + 'b" where
  "bindR m f = (case m of Inl e \<Rightarrow> Inl e | Inr x \<Rightarrow> f x)"

definition mapR :: "('a \<Rightarrow> 'b) \<Rightarrow> 'e + 'a \<Rightarrow> 'e + 'b" where
  "mapR f m = (case m of Inl e \<Rightarrow> Inl e | Inr x \<Rightarrow> Inr (f x))"

lemma bindR_Inl [simp, result_simps]: "bindR (Inl e) f = Inl e"
  by (simp add: bindR_def)

lemma bindR_Inr [simp, result_simps]: "bindR (Inr x) f = f x"
  by (simp add: bindR_def)

lemma mapR_Inl [simp, result_simps]: "mapR f (Inl e) = Inl e"
  by (simp add: mapR_def)

lemma mapR_Inr [simp, result_simps]: "mapR f (Inr x) = Inr (f x)"
  by (simp add: mapR_def)

lemma bindR_eq_Inr [result_simps]: "bindR m f = Inr y \<longleftrightarrow> (\<exists>x. m = Inr x \<and> f x = Inr y)"
  by (cases m) auto

lemma mapR_eq_Inr [result_simps]: "mapR f m = Inr y \<longleftrightarrow> (\<exists>x. m = Inr x \<and> y = f x)"
  by (cases m) auto

lemma bindR_assoc: "bindR (bindR m f) g = bindR m (\<lambda>x. bindR (f x) g)"
  by (cases m) simp_all

lemma bindR_cong [fundef_cong]:
  "m = m' \<Longrightarrow> (\<And>x. m' = Inr x \<Longrightarrow> f x = g x) \<Longrightarrow> bindR m f = bindR m' g"
  by (cases m') auto

section \<open>Arrays\<close>

text \<open>
  An access with an index that is negative or past the end of the array is undefined in C; here
  it is the error \<open>OutOfBounds\<close>. Indices are \<open>int\<close>, as the code computes them.
\<close>

definition arr_get :: "'a list \<Rightarrow> int \<Rightarrow> 'a result" where
  "arr_get xs i = (if 0 \<le> i \<and> nat i < length xs then Inr (xs ! nat i) else Inl OutOfBounds)"

definition arr_set :: "'a list \<Rightarrow> int \<Rightarrow> 'a \<Rightarrow> 'a list result" where
  "arr_set xs i x =
     (if 0 \<le> i \<and> nat i < length xs then Inr (xs[nat i := x]) else Inl OutOfBounds)"

lemma arr_get_in [simp, result_simps]:
  "0 \<le> i \<Longrightarrow> nat i < length xs \<Longrightarrow> arr_get xs i = Inr (xs ! nat i)"
  by (simp add: arr_get_def)

lemma arr_set_in [simp, result_simps]:
  "0 \<le> i \<Longrightarrow> nat i < length xs \<Longrightarrow> arr_set xs i x = Inr (xs[nat i := x])"
  by (simp add: arr_set_def)

lemma arr_get_neg [simp]: "i < 0 \<Longrightarrow> arr_get xs i = Inl OutOfBounds"
  by (simp add: arr_get_def)

lemma arr_set_neg [simp]: "i < 0 \<Longrightarrow> arr_set xs i x = Inl OutOfBounds"
  by (simp add: arr_set_def)

lemma arr_get_eq_Inr: "arr_get xs i = Inr x \<longleftrightarrow> 0 \<le> i \<and> nat i < length xs \<and> x = xs ! nat i"
  by (auto simp: arr_get_def)

lemma arr_set_eq_Inr:
  "arr_set xs i x = Inr ys \<longleftrightarrow> 0 \<le> i \<and> nat i < length xs \<and> ys = xs[nat i := x]"
  by (auto simp: arr_set_def)

section \<open>Byte order\<close>

text \<open>
  \<open>htonl\<close> and \<open>ntohl\<close> reverse the four bytes of a 32-bit integer on a little-endian host.
  A \<^verbatim>\<open>uint32_t\<close> stored to memory there puts its least significant byte first.
\<close>

definition htonl :: "u32 \<Rightarrow> u32" where
  "htonl x = push_bit 24 (x AND 0xFF) OR push_bit 8 (x AND 0xFF00)
     OR drop_bit 8 (x AND 0xFF0000) OR drop_bit 24 (x AND 0xFF000000)"

definition ntohl :: "u32 \<Rightarrow> u32" where
  "ntohl x = htonl x"

definition store_u32 :: "u32 \<Rightarrow> byte list" where
  "store_u32 x = [ucast x, ucast (drop_bit 8 x), ucast (drop_bit 16 x), ucast (drop_bit 24 x)]"

definition load_u32 :: "byte list \<Rightarrow> u32" where
  "load_u32 bs = ucast (bs ! 0) OR push_bit 8 (ucast (bs ! 1))
     OR push_bit 16 (ucast (bs ! 2)) OR push_bit 24 (ucast (bs ! 3))"

lemma length_store_u32 [simp]: "length (store_u32 x) = 4"
  by (simp add: store_u32_def)

lemma load_store_u32 [simp]: "load_u32 (store_u32 x @ r) = x"
proof (rule bit_word_eqI)
  fix n assume "n < LENGTH(32)"
  then have "n < 8 \<or> (8 \<le> n \<and> n < 16) \<or> (16 \<le> n \<and> n < 24) \<or> (24 \<le> n \<and> n < 32)"
    by auto
  then show "bit (load_u32 (store_u32 x @ r)) n = bit x n"
    unfolding load_u32_def store_u32_def
    by (elim disjE) (auto simp: bit_simps)
qed

lemma bit_byte_masks:
  "bit (0xFF::u32) n \<longleftrightarrow> n < 8"
  "bit (0xFF00::u32) n \<longleftrightarrow> 8 \<le> n \<and> n < 16"
  "bit (0xFF0000::u32) n \<longleftrightarrow> 16 \<le> n \<and> n < 24"
  "bit (0xFF000000::u32) n \<longleftrightarrow> 24 \<le> n \<and> n < 32"
proof -
  have 1: "(0xFF::u32) = mask 8" by (simp add: mask_eq_exp_minus_1)
  have 2: "(0xFF00::u32) = push_bit 8 (mask 8)"
    by (simp add: mask_eq_exp_minus_1 push_bit_eq_mult)
  have 3: "(0xFF0000::u32) = push_bit 16 (mask 8)"
    by (simp add: mask_eq_exp_minus_1 push_bit_eq_mult)
  have 4: "(0xFF000000::u32) = push_bit 24 (mask 8)"
    by (simp add: mask_eq_exp_minus_1 push_bit_eq_mult)
  show "bit (0xFF::u32) n \<longleftrightarrow> n < 8" unfolding 1 by (auto simp: bit_simps)
  show "bit (0xFF00::u32) n \<longleftrightarrow> 8 \<le> n \<and> n < 16" unfolding 2 by (auto simp: bit_simps)
  show "bit (0xFF0000::u32) n \<longleftrightarrow> 16 \<le> n \<and> n < 24" unfolding 3 by (auto simp: bit_simps)
  show "bit (0xFF000000::u32) n \<longleftrightarrow> 24 \<le> n \<and> n < 32" unfolding 4 by (auto simp: bit_simps)
qed

lemma bit_htonl:
  assumes "n < 32"
  shows "bit (htonl x) n \<longleftrightarrow>
    bit x (if n < 8 then n + 24 else if n < 16 then n + 8 else if n < 24 then n - 8 else n - 24)"
proof -
  have "n < 8 \<or> (8 \<le> n \<and> n < 16) \<or> (16 \<le> n \<and> n < 24) \<or> (24 \<le> n \<and> n < 32)"
    using assms by auto
  then show ?thesis
    unfolding htonl_def bit_or_iff bit_push_bit_iff bit_drop_bit_eq bit_and_iff comp_def
      bit_byte_masks
    by (elim disjE) (auto simp: add.commute bit_simps)
qed

lemma ntohl_htonl [simp]: "ntohl (htonl x) = x"
proof (rule bit_word_eqI)
  fix n assume "n < LENGTH(32)"
  then have n: "n < 32" by simp
  then have "n < 8 \<or> (8 \<le> n \<and> n < 16) \<or> (16 \<le> n \<and> n < 24) \<or> (24 \<le> n \<and> n < 32)"
    by auto
  with n show "bit (ntohl (htonl x)) n = bit x n"
    by (auto simp: ntohl_def bit_htonl)
qed

lemma htonl_inject [simp]: "htonl x = htonl y \<longleftrightarrow> x = y"
  by (metis ntohl_htonl)

section \<open>Circular buffers\<close>

text \<open>
  The \<open>n\<close> entries of a circular buffer that start at index \<open>s\<close>, oldest first: the queue of
  \<^verbatim>\<open>blockqueue.c\<close> and both windows of \<^verbatim>\<open>gbn_socket.h\<close> are such buffers.
\<close>

definition ring_list :: "'a list \<Rightarrow> nat \<Rightarrow> nat \<Rightarrow> 'a list" where
  "ring_list xs s n = map (\<lambda>i. xs ! ((s + i) mod length xs)) [0..<n]"

lemma length_ring_list [simp]: "length (ring_list xs s n) = n"
  by (simp add: ring_list_def)

lemma ring_list_0 [simp]: "ring_list xs s 0 = []"
  by (simp add: ring_list_def)

lemma nth_ring_list [simp]: "i < n \<Longrightarrow> ring_list xs s n ! i = xs ! ((s + i) mod length xs)"
  by (simp add: ring_list_def)

lemma ring_slots_differ:
  assumes "i < n" "n < L"
  shows "(s + i) mod L \<noteq> (s + n) mod (L::nat)"
proof
  assume "(s + i) mod L = (s + n) mod L"
  then have "L dvd (s + n) - (s + i)"
    using assms by (intro iffD1 [OF mod_eq_dvd_iff_nat]) auto
  then have "L dvd n - i" by simp
  with assms show False by (auto dest: dvd_imp_le)
qed

lemma ring_list_snoc:
  assumes "n < length xs"
  shows "ring_list (xs[(s + n) mod length xs := x]) s (Suc n) = ring_list xs s n @ [x]"
proof (rule nth_equalityI)
  fix i assume "i < length (ring_list (xs[(s + n) mod length xs := x]) s (Suc n))"
  then consider "i < n" | "i = n" by fastforce
  then show "ring_list (xs[(s + n) mod length xs := x]) s (Suc n) ! i
      = (ring_list xs s n @ [x]) ! i"
  proof cases
    case 1
    with assms ring_slots_differ [of i n "length xs" s] show ?thesis
      by (simp add: nth_append)
  next
    case 2
    have "(s + n) mod length xs < length xs" using assms by (intro mod_less_divisor) auto
    with 2 show ?thesis by (simp add: nth_append)
  qed
qed simp

lemma ring_list_drop:
  assumes "k \<le> n"
  shows "ring_list xs ((s + k) mod length xs) (n - k) = drop k (ring_list xs s n)"
  using assms by (intro nth_equalityI) (simp_all add: mod_add_left_eq add.assoc)

end
