(* ===== verification/BlockQueue.thy ===== *)
theory BlockQueue
  imports Prelude
begin

text \<open>
  The blocking queue of \<^verbatim>\<open>PA2/GBNframework/blockqueue.c\<close>, which passes blocks between the
  application thread and the two socket threads.  First the queue as one thread sees it inside
  the mutex (a circular buffer of 128 pointers), its invariant and the list it stands for; then
  the interface \<open>block_fifo\<close> that the socket code relies on; then the queue under several
  threads as a step relation, with the condition variables.
\<close>

section \<open>The queue inside its mutex\<close>

record 'a block_queue =
  bq_head :: u32
  bq_tail :: u32
  bq_size :: u32
  bq_data :: "'a list"

definition QUEUE_CAPACITY :: nat where
  "QUEUE_CAPACITY = 128"

definition block_queue_is_empty :: "'a block_queue \<Rightarrow> bool" where
  "block_queue_is_empty q \<longleftrightarrow> bq_size q = 0"

text \<open>The array is not written by the initialisation.\<close>

definition block_queue_init :: "'a block_queue \<Rightarrow> 'a block_queue" where
  "block_queue_init q = q\<lparr>bq_head := 0, bq_tail := 0, bq_size := 0\<rparr>"

text \<open>
  The stores of \<^verbatim>\<open>block_queue_push_chunk\<close> once the caller holds the mutex and no longer
  waits.
\<close>

definition bq_store :: "'a block_queue \<Rightarrow> 'a \<Rightarrow> 'a block_queue" where
  "bq_store q d =
     q\<lparr>bq_data := (bq_data q)[unat (bq_head q) := d],
       bq_head := (bq_head q + 1) mod of_nat QUEUE_CAPACITY,
       bq_size := bq_size q + 1\<rparr>"

text \<open>\<open>None\<close>: the caller blocks on \<^verbatim>\<open>_m_write_cond\<close> (push) or \<^verbatim>\<open>_m_read_cond\<close> (peek).\<close>

definition block_queue_push_chunk :: "'a block_queue \<Rightarrow> 'a \<Rightarrow> 'a block_queue option" where
  "block_queue_push_chunk q d =
     (if bq_size q = of_nat QUEUE_CAPACITY then None else Some (bq_store q d))"

definition block_queue_pop_chunk :: "'a block_queue \<Rightarrow> int \<times> 'a block_queue" where
  "block_queue_pop_chunk q =
     (if bq_size q = 0 then (-1, q)
      else (0, q\<lparr>bq_tail := (bq_tail q + 1) mod of_nat QUEUE_CAPACITY,
                 bq_size := bq_size q - 1\<rparr>))"

definition bq_front :: "'a block_queue \<Rightarrow> 'a" where
  "bq_front q = bq_data q ! unat (bq_tail q)"

definition block_queue_peek_chunk :: "'a block_queue \<Rightarrow> 'a option" where
  "block_queue_peek_chunk q = (if bq_size q = 0 then None else Some (bq_front q))"

text \<open>The list of blocks a queue holds, oldest first, and what every operation keeps true.\<close>

definition bq_list :: "'a block_queue \<Rightarrow> 'a list" where
  "bq_list q = ring_list (bq_data q) (unat (bq_tail q)) (unat (bq_size q))"

definition bq_inv :: "'a block_queue \<Rightarrow> bool" where
  "bq_inv q \<longleftrightarrow> length (bq_data q) = QUEUE_CAPACITY \<and> unat (bq_tail q) < QUEUE_CAPACITY \<and>
     unat (bq_size q) \<le> QUEUE_CAPACITY \<and>
     unat (bq_head q) = (unat (bq_tail q) + unat (bq_size q)) mod QUEUE_CAPACITY"

lemma unat_inc_mod_capacity [word_facts]:
  "unat (w :: u32) < QUEUE_CAPACITY \<Longrightarrow>
     unat ((w + 1) mod of_nat QUEUE_CAPACITY) = (unat w + 1) mod QUEUE_CAPACITY"
  by (simp add: QUEUE_CAPACITY_def unat_mod_distrib unat_word_ariths)

lemma bq_inv_init: "length (bq_data q) = QUEUE_CAPACITY \<Longrightarrow> bq_inv (block_queue_init q)"
  by (simp add: bq_inv_def block_queue_init_def QUEUE_CAPACITY_def)

lemma bq_list_init [simp]: "bq_list (block_queue_init q) = []"
  by (simp add: bq_list_def block_queue_init_def)

lemma bq_store_refines:
  assumes "bq_inv q" and "unat (bq_size q) < QUEUE_CAPACITY"
  shows "bq_inv (bq_store q d) \<and> bq_list (bq_store q d) = bq_list q @ [d]"
proof -
  have sz: "unat (bq_size q + 1) = Suc (unat (bq_size q))"
    using assms by (simp add: unat_word_ariths QUEUE_CAPACITY_def)
  have h: "unat (bq_head q) < QUEUE_CAPACITY"
    using assms by (simp add: bq_inv_def QUEUE_CAPACITY_def)
  show ?thesis
    using assms ring_list_snoc [of "unat (bq_size q)" "bq_data q" "unat (bq_tail q)" d]
    by (simp add: bq_inv_def bq_list_def bq_store_def sz unat_inc_mod_capacity [OF h] mod_Suc_eq)
qed

lemma bq_pop_refines:
  assumes "bq_inv q" and "bq_size q \<noteq> 0"
  shows "bq_inv (snd (block_queue_pop_chunk q)) \<and>
    bq_list (snd (block_queue_pop_chunk q)) = tl (bq_list q)"
proof -
  obtain k where k: "unat (bq_size q) = Suc k"
    using assms(2) by (metis not0_implies_Suc unat_eq_zero)
  then have sz: "unat (bq_size q - 1) = k"
    using assms(2) by (simp add: unat_minus_one)
  have t: "unat (bq_tail q) < QUEUE_CAPACITY"
    using assms by (simp add: bq_inv_def)
  show ?thesis
    using assms k sz ring_list_drop [of 1 "Suc k" "bq_data q" "unat (bq_tail q)"]
    by (simp add: bq_inv_def bq_list_def block_queue_pop_chunk_def unat_inc_mod_capacity [OF t]
        mod_add_left_eq drop_Suc)
qed

lemma bq_list_empty_iff [simp]: "bq_list q = [] \<longleftrightarrow> bq_size q = 0"
  by (simp add: bq_list_def unat_eq_zero flip: length_0_conv)

lemma length_bq_list [simp]: "length (bq_list q) = unat (bq_size q)"
  by (simp add: bq_list_def)

lemma bq_front_hd: "bq_inv q \<Longrightarrow> bq_size q \<noteq> 0 \<Longrightarrow> bq_front q = hd (bq_list q)"
  by (simp add: bq_front_def bq_list_def bq_inv_def hd_conv_nth unat_gt_0
      flip: length_greater_0_conv)

lemma bq_size_full_iff: "bq_size q = of_nat QUEUE_CAPACITY \<longleftrightarrow> unat (bq_size q) = QUEUE_CAPACITY"
  by (simp add: QUEUE_CAPACITY_def word_unat_eq_iff)

section \<open>The interface the socket code relies on\<close>

text \<open>
  A bounded first-in first-out queue.  \<open>push\<close> and \<open>peek\<close> return \<open>None\<close> where the C
  function would block.
\<close>

locale block_fifo =
  fixes push :: "'q \<Rightarrow> 'a \<Rightarrow> 'q option"
    and pop :: "'q \<Rightarrow> int \<times> 'q"
    and peek :: "'q \<Rightarrow> 'a option"
    and contents :: "'q \<Rightarrow> 'a list"
    and inv :: "'q \<Rightarrow> bool"
    and cap :: nat
  assumes bounded: "inv q \<Longrightarrow> length (contents q) \<le> cap"
    and push_room: "inv q \<Longrightarrow> length (contents q) < cap \<Longrightarrow>
      \<exists>q'. push q d = Some q' \<and> inv q' \<and> contents q' = contents q @ [d]"
    and push_full: "inv q \<Longrightarrow> length (contents q) = cap \<Longrightarrow> push q d = None"
    and peek_empty: "inv q \<Longrightarrow> contents q = [] \<Longrightarrow> peek q = None"
    and peek_front: "inv q \<Longrightarrow> contents q \<noteq> [] \<Longrightarrow> peek q = Some (hd (contents q))"
    and pop_empty: "inv q \<Longrightarrow> contents q = [] \<Longrightarrow> pop q = (-1, q)"
    and pop_front: "inv q \<Longrightarrow> contents q \<noteq> [] \<Longrightarrow>
      \<exists>q'. pop q = (0, q') \<and> inv q' \<and> contents q' = tl (contents q)"
begin

lemma push_SomeD:
  assumes "inv q" and "push q d = Some q'"
  shows "inv q' \<and> contents q' = contents q @ [d] \<and> length (contents q) < cap"
proof -
  have "length (contents q) < cap"
    using assms bounded [of q] push_full [of q d] by (cases "length (contents q) = cap") auto
  then show ?thesis
    using assms push_room [of q d] by auto
qed

lemma peek_SomeD: "inv q \<Longrightarrow> peek q = Some d \<Longrightarrow> \<exists>ds. contents q = d # ds"
  using peek_empty [of q] peek_front [of q] by (cases "contents q") auto

lemma pop_Cons:
  "inv q \<Longrightarrow> contents q = d # ds \<Longrightarrow> \<exists>q'. pop q = (0, q') \<and> inv q' \<and> contents q' = ds"
  using pop_front [of q] by auto

lemma inv_pop: "inv q \<Longrightarrow> inv (snd (pop q))"
  using pop_front [of q] pop_empty [of q] by (cases "contents q") auto

lemma contents_pop: "inv q \<Longrightarrow> contents (snd (pop q)) = tl (contents q)"
  using pop_front [of q] pop_empty [of q] by (cases "contents q") auto

end

interpretation bq: block_fifo block_queue_push_chunk block_queue_pop_chunk block_queue_peek_chunk
  bq_list bq_inv QUEUE_CAPACITY
proof unfold_locales
  fix q :: "'a block_queue" and d
  assume inv: "bq_inv q"
  show "length (bq_list q) \<le> QUEUE_CAPACITY"
    using inv by (simp add: bq_inv_def)
  show "length (bq_list q) = QUEUE_CAPACITY \<Longrightarrow> block_queue_push_chunk q d = None"
    by (simp add: block_queue_push_chunk_def bq_size_full_iff)
  show "bq_list q = [] \<Longrightarrow> block_queue_peek_chunk q = None"
    by (simp add: block_queue_peek_chunk_def)
  show "bq_list q \<noteq> [] \<Longrightarrow> block_queue_peek_chunk q = Some (hd (bq_list q))"
    using inv by (simp add: block_queue_peek_chunk_def bq_front_hd)
  show "bq_list q = [] \<Longrightarrow> block_queue_pop_chunk q = (-1, q)"
    by (simp add: block_queue_pop_chunk_def)
  show "\<exists>q'. block_queue_push_chunk q d = Some q' \<and> bq_inv q' \<and> bq_list q' = bq_list q @ [d]"
    if "length (bq_list q) < QUEUE_CAPACITY"
    using that inv bq_store_refines [of q d]
    by (auto simp: block_queue_push_chunk_def bq_size_full_iff)
  show "\<exists>q'. block_queue_pop_chunk q = (0, q') \<and> bq_inv q' \<and> bq_list q' = tl (bq_list q)"
    if "bq_list q \<noteq> []"
    using that bq_pop_refines [OF inv] by (simp add: block_queue_pop_chunk_def)
qed

end
