(* ===== verification/Runs.thy ===== *)
theory Runs
  imports Prelude
begin

text \<open>
  Runs of a system whose steps are labelled with events, and the two ways in which the components
  reason about them: an invariant of the state and the events so far (\<open>run_invariant\<close>), and the
  simulation of one system by another that makes the same events (\<open>forward_simulation\<close>).
\<close>

inductive runs :: "('s \<Rightarrow> 'e \<Rightarrow> 's \<Rightarrow> bool) \<Rightarrow> 's \<Rightarrow> 'e list \<Rightarrow> 's \<Rightarrow> bool"
  for step :: "'s \<Rightarrow> 'e \<Rightarrow> 's \<Rightarrow> bool" and s0 :: 's
where
  run_start: "runs step s0 [] s0"
| run_step: "runs step s0 es s \<Longrightarrow> step s e s' \<Longrightarrow> runs step s0 (es @ [e]) s'"

locale run_invariant =
  fixes step :: "'s \<Rightarrow> 'e \<Rightarrow> 's \<Rightarrow> bool" and I :: "'e list \<Rightarrow> 's \<Rightarrow> bool"
  assumes inv_step: "step s e s' \<Longrightarrow> I es s \<Longrightarrow> I (es @ [e]) s'"
begin

lemma inv_runs: "runs step s0 es s \<Longrightarrow> I [] s0 \<Longrightarrow> I es s"
  by (induction rule: runs.induct) (auto intro: inv_step)

end

text \<open>\<open>ok\<close>: the events the simulation is about.\<close>

locale forward_simulation =
  fixes cstep :: "'s \<Rightarrow> 'e \<Rightarrow> 's \<Rightarrow> bool" and astep :: "'t \<Rightarrow> 'e \<Rightarrow> 't \<Rightarrow> bool"
    and R :: "'s \<Rightarrow> 't \<Rightarrow> bool" and ok :: "'e \<Rightarrow> bool"
  assumes sim_step: "cstep s e s' \<Longrightarrow> ok e \<Longrightarrow> R s t \<Longrightarrow> \<exists>t'. astep t e t' \<and> R s' t'"
begin

lemma sim_runs: "runs cstep s0 es s \<Longrightarrow> R s0 t0 \<Longrightarrow> list_all ok es \<Longrightarrow> \<exists>t. runs astep t0 es t \<and> R s t"
proof (induction rule: runs.induct)
  case run_start
  then show ?case by (blast intro: runs.run_start)
next
  case (run_step es s e s')
  then obtain t where t: "runs astep t0 es t" "R s t" by auto
  moreover from sim_step [OF run_step.hyps(2) _ t(2)] run_step.prems(2) obtain t' where "astep t e t'" "R s' t'" by auto
  ultimately show ?case by (blast intro: runs.run_step)
qed

text \<open>So an invariant of the abstract system holds of the states it simulates.\<close>

lemma sim_invariant:
  assumes "run_invariant astep I" "runs cstep s0 es s" "R s0 t0" "list_all ok es" "I [] t0"
  shows "\<exists>t. R s t \<and> I es t"
  using sim_runs [OF assms(2-4)] run_invariant.inv_runs [OF assms(1) _ assms(5)] by blast

end

end
