(* ===== verification/QueueThreads.thy ===== *)
theory QueueThreads
  imports BlockQueue Runs
begin

text \<open>
  The queue of \<^verbatim>\<open>blockqueue.c\<close> shared by its threads, as a step relation: any number of
  pushing threads, and the one thread that peeks and pops (the writer thread for the sending
  buffer, the application for the receive buffer).  A step is what a thread does while it holds
  the mutex, or the signal it sends after it has released it.  \<^verbatim>\<open>pthread_cond_wait\<close> sits in
  an \<^verbatim>\<open>if\<close>, so a thread that wakes up goes on without looking at the size again.
\<close>

section \<open>Threads and steps\<close>

datatype 'a pusher =
    Ready             \<comment> \<open>outside \<^verbatim>\<open>block_queue_push_chunk\<close>\<close>
  | WaitWrite 'a      \<comment> \<open>in \<^verbatim>\<open>pthread_cond_wait\<close> on \<^verbatim>\<open>_m_write_cond\<close>\<close>
  | WokenWrite 'a     \<comment> \<open>signalled, about to take the mutex again\<close>
  | Signalling        \<comment> \<open>has stored and unlocked, about to signal \<^verbatim>\<open>_m_read_cond\<close>\<close>

datatype reader = CReady | WaitRead | WokenRead

record 'a bq_sys =
  sys_queue :: "'a block_queue"
  sys_pusher :: "nat \<Rightarrow> 'a pusher"
  sys_reader :: reader

datatype 'a bq_event = Stored 'a | Popped 'a | Returned 'a | Silent

text \<open>
  \<open>sp\<close>: whether the condition variables may wake a thread that nobody signalled, which POSIX
  allows. \<open>T\<close>: the threads that push.
\<close>

inductive bq_step :: "bool \<Rightarrow> nat set \<Rightarrow> 'a bq_sys \<Rightarrow> 'a bq_event \<Rightarrow> 'a bq_sys \<Rightarrow> bool"
  for sp :: bool and T :: "nat set"
where
  push_now: "i \<in> T \<Longrightarrow> sys_pusher s i = Ready \<Longrightarrow>
    block_queue_push_chunk (sys_queue s) d = Some q' \<Longrightarrow>
    bq_step sp T s (Stored d)
      (s\<lparr>sys_queue := q', sys_pusher := (sys_pusher s)(i := Signalling)\<rparr>)"
| push_wait: "i \<in> T \<Longrightarrow> sys_pusher s i = Ready \<Longrightarrow>
    block_queue_push_chunk (sys_queue s) d = None \<Longrightarrow>
    bq_step sp T s Silent (s\<lparr>sys_pusher := (sys_pusher s)(i := WaitWrite d)\<rparr>)"
| push_resume: "i \<in> T \<Longrightarrow> sys_pusher s i = WokenWrite d \<Longrightarrow>
    bq_step sp T s (Stored d)
      (s\<lparr>sys_queue := bq_store (sys_queue s) d, sys_pusher := (sys_pusher s)(i := Signalling)\<rparr>)"
| signal_reader: "i \<in> T \<Longrightarrow> sys_pusher s i = Signalling \<Longrightarrow>
    bq_step sp T s Silent
      (s\<lparr>sys_pusher := (sys_pusher s)(i := Ready),
         sys_reader := (if sys_reader s = WaitRead then WokenRead else sys_reader s)\<rparr>)"
| spurious_write: "sp \<Longrightarrow> i \<in> T \<Longrightarrow> sys_pusher s i = WaitWrite d \<Longrightarrow>
    bq_step sp T s Silent (s\<lparr>sys_pusher := (sys_pusher s)(i := WokenWrite d)\<rparr>)"
| peek_now: "sys_reader s = CReady \<Longrightarrow> block_queue_peek_chunk (sys_queue s) = Some d \<Longrightarrow>
    bq_step sp T s (Returned d) s"
| peek_wait: "sys_reader s = CReady \<Longrightarrow> block_queue_peek_chunk (sys_queue s) = None \<Longrightarrow>
    bq_step sp T s Silent (s\<lparr>sys_reader := WaitRead\<rparr>)"
| peek_resume: "sys_reader s = WokenRead \<Longrightarrow>
    bq_step sp T s (Returned (bq_front (sys_queue s))) (s\<lparr>sys_reader := CReady\<rparr>)"
| spurious_read: "sp \<Longrightarrow> sys_reader s = WaitRead \<Longrightarrow>
    bq_step sp T s Silent (s\<lparr>sys_reader := WokenRead\<rparr>)"
| pop_empty: "sys_reader s = CReady \<Longrightarrow> block_queue_pop_chunk (sys_queue s) = (-1, q') \<Longrightarrow>
    bq_step sp T s Silent (s\<lparr>sys_queue := q'\<rparr>)"
| pop_quiet: "sys_reader s = CReady \<Longrightarrow> block_queue_pop_chunk (sys_queue s) = (0, q') \<Longrightarrow>
    \<forall>i \<in> T. \<forall>d. sys_pusher s i \<noteq> WaitWrite d \<Longrightarrow>
    bq_step sp T s (Popped (bq_front (sys_queue s))) (s\<lparr>sys_queue := q'\<rparr>)"
| pop_wake: "sys_reader s = CReady \<Longrightarrow> block_queue_pop_chunk (sys_queue s) = (0, q') \<Longrightarrow>
    i \<in> T \<Longrightarrow> sys_pusher s i = WaitWrite d \<Longrightarrow>
    bq_step sp T s (Popped (bq_front (sys_queue s)))
      (s\<lparr>sys_queue := q', sys_pusher := (sys_pusher s)(i := WokenWrite d)\<rparr>)"

abbreviation bq_run :: "bool \<Rightarrow> nat set \<Rightarrow> 'a bq_sys \<Rightarrow> 'a bq_event list \<Rightarrow> 'a bq_sys \<Rightarrow> bool" where
  "bq_run sp T \<equiv> runs (bq_step sp T)"

definition bq_start :: "'a block_queue \<Rightarrow> 'a bq_sys" where
  "bq_start q = \<lparr>sys_queue = block_queue_init q, sys_pusher = (\<lambda>_. Ready), sys_reader = CReady\<rparr>"

text \<open>What went in and what came out, from the events of a run.\<close>

fun stored :: "'a bq_event list \<Rightarrow> 'a list" where
  "stored [] = []"
| "stored (Stored d # es) = d # stored es"
| "stored (_ # es) = stored es"

fun popped :: "'a bq_event list \<Rightarrow> 'a list" where
  "popped [] = []"
| "popped (Popped d # es) = d # popped es"
| "popped (_ # es) = popped es"

lemma stored_append [simp]: "stored (es @ fs) = stored es @ stored fs"
  by (induction es rule: stored.induct) auto

lemma popped_append [simp]: "popped (es @ fs) = popped es @ popped fs"
  by (induction es rule: popped.induct) auto

section \<open>One pushing thread: first in, first out\<close>

text \<open>
  With one pushing thread and no spurious wake-ups, a thread that has been woken finds room:
  only the pop that woke it can have come since.
\<close>

definition single_inv :: "nat \<Rightarrow> 'a bq_event list \<Rightarrow> 'a bq_sys \<Rightarrow> bool" where
  "single_inv p es s \<longleftrightarrow> bq_inv (sys_queue s) \<and>
     stored es = popped es @ bq_list (sys_queue s) \<and>
     ((\<exists>d. sys_pusher s p = WokenWrite d) \<longrightarrow> unat (bq_size (sys_queue s)) < QUEUE_CAPACITY)"

lemma single_inv_start:
  "length (bq_data q) = QUEUE_CAPACITY \<Longrightarrow> single_inv p [] (bq_start q)"
  by (simp add: single_inv_def bq_start_def bq_inv_init)

lemma pop_chunk_0:
  assumes "block_queue_pop_chunk q = (0, q')" and "bq_inv q"
  shows "bq_inv q' \<and> bq_list q = bq_front q # bq_list q' \<and>
    unat (bq_size q') < QUEUE_CAPACITY"
proof -
  have ne: "bq_size q \<noteq> 0"
    using assms(1) by (auto simp: block_queue_pop_chunk_def split: if_splits)
  have q': "bq_inv q'" "bq_list q' = tl (bq_list q)"
    using bq_pop_refines [OF assms(2) ne] assms(1) by simp_all
  have "length (bq_list q') < length (bq_list q)"
    using q'(2) ne by (simp add: unat_gt_0 flip: length_greater_0_conv)
  then have "unat (bq_size q') < QUEUE_CAPACITY"
    using assms(2) by (simp add: bq_inv_def)
  moreover have "bq_list q = bq_front q # bq_list q'"
    using q'(2) ne assms(2) by (simp add: bq_front_hd)
  ultimately show ?thesis using q'(1) by simp
qed

lemma single_inv_step:
  assumes "bq_step False {p} s e s'" and "single_inv p es s"
  shows "single_inv p (es @ [e]) s'"
  using assms
proof (induction rule: bq_step.induct)
  case (push_now i s d q')
  then show ?case
    using bq.push_SomeD [of "sys_queue s" d q'] by (simp add: single_inv_def)
next
  case (push_resume i s d)
  then show ?case
    using bq_store_refines [of "sys_queue s" d] by (simp add: single_inv_def)
next
  case (pop_empty s q')
  then show ?case
    by (auto simp: single_inv_def block_queue_pop_chunk_def split: if_splits)
next
  case (pop_quiet s q')
  then show ?case
    using pop_chunk_0 [of "sys_queue s" q'] by (simp add: single_inv_def)
next
  case (pop_wake s q' i d)
  then show ?case
    using pop_chunk_0 [of "sys_queue s" q'] by (simp add: single_inv_def)
qed (auto simp: single_inv_def)

interpretation single: run_invariant "bq_step False {p}" "single_inv p" for p
  by unfold_locales (rule single_inv_step)

lemma single_inv_run:
  "bq_run False {p} (bq_start q) es s \<Longrightarrow> length (bq_data q) = QUEUE_CAPACITY \<Longrightarrow> single_inv p es s"
  by (rule single.inv_runs [OF _ single_inv_start])

section \<open>Runs from a fresh queue\<close>

text \<open>The queue inside a socket that \<^verbatim>\<open>calloc\<close> has just zeroed.\<close>

definition blank_queue :: "'a \<Rightarrow> 'a block_queue" where
  "blank_queue null =
     \<lparr>bq_head = 0, bq_tail = 0, bq_size = 0, bq_data = replicate QUEUE_CAPACITY null\<rparr>"

lemma length_blank_queue [simp]: "length (bq_data (blank_queue null)) = QUEUE_CAPACITY"
  by (simp add: blank_queue_def)

abbreviation bq_state :: "'a block_queue \<Rightarrow> (nat \<Rightarrow> 'a pusher) \<Rightarrow> reader \<Rightarrow> 'a bq_sys" where
  "bq_state q f r \<equiv> \<lparr>sys_queue = q, sys_pusher = f, sys_reader = r\<rparr>"

text \<open>The steps the runs below take, on states written out.\<close>

lemma push_now_state:
  "i \<in> T \<Longrightarrow> f i = Ready \<Longrightarrow> block_queue_push_chunk q d = Some q' \<Longrightarrow>
     bq_step sp T (bq_state q f r) (Stored d) (bq_state q' (f(i := Signalling)) r)"
  using bq_step.push_now [of i T "bq_state q f r" d q' sp] by simp

lemma push_wait_state:
  "i \<in> T \<Longrightarrow> f i = Ready \<Longrightarrow> block_queue_push_chunk q d = None \<Longrightarrow>
     bq_step sp T (bq_state q f r) Silent (bq_state q (f(i := WaitWrite d)) r)"
  using bq_step.push_wait [of i T "bq_state q f r" d sp] by simp

lemma push_resume_state:
  "i \<in> T \<Longrightarrow> f i = WokenWrite d \<Longrightarrow>
     bq_step sp T (bq_state q f r) (Stored d) (bq_state (bq_store q d) (f(i := Signalling)) r)"
  using bq_step.push_resume [of i T "bq_state q f r" d sp] by simp

lemma signal_state:
  "i \<in> T \<Longrightarrow> f i = Signalling \<Longrightarrow>
     bq_step sp T (bq_state q f r) Silent
       (bq_state q (f(i := Ready)) (if r = WaitRead then WokenRead else r))"
  using bq_step.signal_reader [of i T "bq_state q f r" sp] by (cases r) simp_all

lemma pop_wake_state:
  "block_queue_pop_chunk q = (0, q') \<Longrightarrow> i \<in> T \<Longrightarrow> f i = WaitWrite d \<Longrightarrow>
     bq_step sp T (bq_state q f CReady) (Popped (bq_front q))
       (bq_state q' (f(i := WokenWrite d)) CReady)"
  using bq_step.pop_wake [of "bq_state q f CReady" q' i T d sp] by simp

lemma pop_quiet_state:
  "block_queue_pop_chunk q = (0, q') \<Longrightarrow> \<forall>i \<in> T. \<forall>d. f i \<noteq> WaitWrite d \<Longrightarrow>
     bq_step sp T (bq_state q f CReady) (Popped (bq_front q)) (bq_state q' f CReady)"
  using bq_step.pop_quiet [of "bq_state q f CReady" q' T sp] by simp

lemma peek_wait_state:
  "bq_size q = 0 \<Longrightarrow> bq_step sp T (bq_state q f CReady) Silent (bq_state q f WaitRead)"
  using bq_step.peek_wait [of "bq_state q f CReady" sp T] by (simp add: block_queue_peek_chunk_def)

lemma run_pushes:
  assumes "0 \<in> T" and "n \<le> QUEUE_CAPACITY"
  shows "\<exists>es q. bq_run sp T (bq_start (blank_queue null)) es (bq_state q (\<lambda>_. Ready) CReady) \<and>
    bq_inv q \<and> length (bq_list q) = n"
  using assms(2)
proof (induction n)
  case 0
  have "bq_run sp T (bq_start (blank_queue null)) []
      (bq_state (block_queue_init (blank_queue null)) (\<lambda>_. Ready) CReady)"
    using run_start [of "bq_step sp T" "bq_start (blank_queue null)"] by (simp add: bq_start_def)
  moreover have "bq_list (block_queue_init (blank_queue null)) = []"
    by (rule bq_list_init)
  ultimately show ?case
    using bq_inv_init [OF length_blank_queue] by fastforce
next
  case (Suc n)
  then obtain es q where run: "bq_run sp T (bq_start (blank_queue null)) es
      (bq_state q (\<lambda>_. Ready) CReady)" and q: "bq_inv q" "length (bq_list q) = n"
    by auto
  then obtain q' where q': "block_queue_push_chunk q null = Some q'" "bq_inv q'"
    "bq_list q' = bq_list q @ [null]"
    using bq.push_room [of q null] Suc.prems by auto
  note st1 = run_step [OF run push_now_state [OF assms(1) _ q'(1)]]
  have r: "bq_run sp T (bq_start (blank_queue null)) ((es @ [Stored null]) @ [Silent])
      (bq_state q' (\<lambda>_. Ready) CReady)"
    using run_step [OF st1 signal_state [OF assms(1)]] by (simp add: fun_upd_idem)
  moreover have "length (bq_list q') = Suc n"
    using q(2) q'(3) by (metis length_append_singleton)
  ultimately show ?case
    using q'(2) by blast
qed



section \<open>What the missing re-check costs\<close>

lemma bq_store_full:
  "unat (bq_size q) = QUEUE_CAPACITY \<Longrightarrow> unat (bq_size (bq_store q d)) = QUEUE_CAPACITY + 1"
  by (simp add: bq_store_def unat_word_ariths QUEUE_CAPACITY_def)

text \<open>
  C36. With two pushing threads (the application and the reader thread, which pushes the closing
  block when the peer closes) the queue overflows its array even without spurious wake-ups: a
  thread that waited is woken by a pop, another thread takes the free slot first, and the woken
  thread stores anyway.  The queue then counts 129 blocks in 128 slots.
\<close>

theorem queue_two_pushers_overflow:
  "\<exists>es s. bq_run False {0, 1} (bq_start (blank_queue null)) es s \<and>
     unat (bq_size (sys_queue s)) = QUEUE_CAPACITY + 1"
proof -
  let ?T = "{0, 1} :: nat set"
  obtain es q where run: "bq_run False ?T (bq_start (blank_queue null)) es
      (bq_state q (\<lambda>_. Ready) CReady)" and q: "bq_inv q" "length (bq_list q) = QUEUE_CAPACITY"
    using run_pushes [of ?T QUEUE_CAPACITY False null] by auto
  have "bq_list q \<noteq> []"
    using q(2) by (auto simp: QUEUE_CAPACITY_def)
  then obtain q1 where q1: "block_queue_pop_chunk q = (0, q1)" "bq_inv q1"
    "bq_list q1 = tl (bq_list q)"
    using bq.pop_front q(1) by blast
  have len1: "length (bq_list q1) = QUEUE_CAPACITY - 1"
    using q1(3) q(2) by simp
  then have "length (bq_list q1) < QUEUE_CAPACITY"
    by (simp add: QUEUE_CAPACITY_def)
  then obtain q2 where q2: "block_queue_push_chunk q1 null = Some q2" "bq_inv q2"
    "bq_list q2 = bq_list q1 @ [null]"
    using bq.push_room [OF q1(2), of null] by (auto simp del: length_bq_list)
  have sz2: "unat (bq_size q2) = QUEUE_CAPACITY"
    using arg_cong [OF q2(3), of length] len1 by (simp add: QUEUE_CAPACITY_def)
  have full: "block_queue_push_chunk q null = None"
    by (rule bq.push_full [OF q])
  let ?w = "(\<lambda>_. Ready)(1 := WaitWrite null)"
  let ?k = "?w(1 := WokenWrite null)"
  have T: "0 \<in> ?T" "1 \<in> ?T" by simp_all
  note r1 = run_step [OF run push_wait_state [OF T(2) refl full]]
  have r2: "bq_run False ?T (bq_start (blank_queue null))
      ((es @ [Silent]) @ [Popped (bq_front q)]) (bq_state q1 ?k CReady)"
    by (rule run_step [OF r1 pop_wake_state [OF q1(1) T(2)]]) simp
  have r3: "bq_run False ?T (bq_start (blank_queue null))
      (((es @ [Silent]) @ [Popped (bq_front q)]) @ [Stored null])
      (bq_state q2 (?k(0 := Signalling)) CReady)"
    by (rule run_step [OF r2 push_now_state [OF T(1) _ q2(1)]]) simp
  have r4: "bq_run False ?T (bq_start (blank_queue null))
      ((((es @ [Silent]) @ [Popped (bq_front q)]) @ [Stored null]) @ [Stored null])
      (bq_state (bq_store q2 null) (?k(0 := Signalling, 1 := Signalling)) CReady)"
    by (rule run_step [OF r3 push_resume_state [OF T(2)]]) simp
  show ?thesis
    by (intro exI conjI, rule r4) (simp add: bq_store_full [OF sz2])
qed

text \<open>
  A signal that \<^verbatim>\<open>block_queue_push_chunk\<close> sends after it has unlocked may arrive late:
  when the block has been peeked and popped already and the reader waits for the next one, the
  late signal wakes it, and \<^verbatim>\<open>block_queue_peek_chunk\<close> returns what the array holds at the tail
  of an empty queue, here the null pointer of a fresh socket.  One pushing thread and no spurious
  wake-up are enough.
\<close>

lemma queue_late_signal_returns_null:
  "\<exists>es s. bq_run False {0} (bq_start (blank_queue null)) es s \<and>
     stored es = [d] \<and> popped es = [d] \<and> bq_size (sys_queue s) = 0 \<and>
     bq_step False {0} s (Returned null) (s\<lparr>sys_reader := CReady\<rparr>)"
proof -
  let ?q0 = "block_queue_init (blank_queue null)"
  let ?q1 = "bq_store ?q0 d"
  let ?q2 = "snd (block_queue_pop_chunk ?q1)"
  let ?f = "(\<lambda>_. Ready)(0 := Signalling)"
  have push: "block_queue_push_chunk ?q0 d = Some ?q1"
    by (simp add: block_queue_push_chunk_def block_queue_init_def QUEUE_CAPACITY_def)
  have q1: "bq_size ?q1 = 1" "bq_front ?q1 = d"
    by (simp_all add: bq_store_def block_queue_init_def bq_front_def blank_queue_def
        QUEUE_CAPACITY_def)
  have q2: "block_queue_pop_chunk ?q1 = (0, ?q2)" "bq_size ?q2 = 0" "bq_front ?q2 = null"
    using q1 by (simp_all add: block_queue_pop_chunk_def bq_front_def bq_store_def
        block_queue_init_def blank_queue_def QUEUE_CAPACITY_def)
  have T: "0 \<in> {0 :: nat}" by simp
  have r0: "bq_run False {0} (bq_start (blank_queue null)) [] (bq_state ?q0 (\<lambda>_. Ready) CReady)"
    using run_start [of "bq_step False {0}" "bq_start (blank_queue null)"] by (simp add: bq_start_def)
  note r1 = run_step [OF r0 push_now_state [OF T refl push]]
  have r2: "bq_run False {0} (bq_start (blank_queue null)) (([] @ [Stored d]) @ [Popped d])
      (bq_state ?q2 ?f CReady)"
    using run_step [OF r1 pop_quiet_state [OF q2(1)]] q1(2) by simp
  note r3 = run_step [OF r2 peek_wait_state [OF q2(2)]]
  have r4: "bq_run False {0} (bq_start (blank_queue null))
      (((([] @ [Stored d]) @ [Popped d]) @ [Silent]) @ [Silent])
      (bq_state ?q2 (?f(0 := Ready)) WokenRead)"
    using run_step [OF r3 signal_state [OF T]] by simp
  have "bq_step False {0} (bq_state ?q2 (?f(0 := Ready)) WokenRead) (Returned null)
      (bq_state ?q2 (?f(0 := Ready)) WokenRead\<lparr>sys_reader := CReady\<rparr>)"
    using bq_step.peek_resume [of "bq_state ?q2 (?f(0 := Ready)) WokenRead" False "{0}"] q2(3)
    by simp
  moreover have "bq_size (sys_queue (bq_state ?q2 (?f(0 := Ready)) WokenRead)) = 0"
    using q2(2) by simp
  moreover have "stored (((([] @ [Stored d]) @ [Popped d]) @ [Silent]) @ [Silent]) = [d]"
    "popped (((([] @ [Stored d]) @ [Popped d]) @ [Silent]) @ [Silent]) = [d]"
    by simp_all
  ultimately show ?thesis
    using r4 by blast
qed

end
