(* ===== verification/GbnSocket.thy ===== *)
theory GbnSocket
  imports Prelude
begin

text \<open>
  The go-back-N socket (\<^verbatim>\<open>PA2/GBNframework/gbn_socket.h\<close>, \<^verbatim>\<open>gbn_socket.c\<close>): packets and their wire
  format, the socket structure, and what the application calls, \<open>gbn_socket_write\<close> and
  \<open>gbn_socket_read\<close>.  The two block queues are lists here, oldest block first; \<open>QueueThreads\<close> is
  about how they behave between threads.  A payload pointer is \<open>None\<close> when it is null or its memory
  has been freed.
\<close>

section \<open>Packets\<close>

definition DEFAULT_QUEUE_SIZE :: nat where "DEFAULT_QUEUE_SIZE = 6"
definition DEFAULT_PACKET_SIZE :: nat where "DEFAULT_PACKET_SIZE = 4096"
definition SERIALIZE_OVERHEAD :: nat where "SERIALIZE_OVERHEAD = 12"
definition SERIALIZE_SIZE :: nat where "SERIALIZE_SIZE = DEFAULT_PACKET_SIZE + SERIALIZE_OVERHEAD"

text \<open>\<^verbatim>\<open>sizeof(gbn_packet_t)\<close> with 64-bit pointers.\<close>

definition sizeof_packet :: nat where "sizeof_packet = 24"

text \<open>The packet types; a received packet can have any other number.\<close>

definition gbn_packet_type_uninitialized :: u32 where "gbn_packet_type_uninitialized = 0"
definition gbn_packet_type_ack :: u32 where "gbn_packet_type_ack = 1"
definition gbn_packet_type_data :: u32 where "gbn_packet_type_data = 2"
definition gbn_packet_type_EOF :: u32 where "gbn_packet_type_EOF = 3"
definition gbn_packet_type_ack_EOF :: u32 where "gbn_packet_type_ack_EOF = 4"

record gbn_packet =
  gp_type :: u32
  gp_seq_number :: u32
  gp_size :: u32
  gp_payload :: "byte list option"

text \<open>A zeroed packet, as \<^verbatim>\<open>calloc\<close> leaves them in the windows.\<close>

definition empty_packet :: gbn_packet where
  "empty_packet = \<lparr>gp_type = gbn_packet_type_uninitialized, gp_seq_number = 0, gp_size = 0, gp_payload = None\<rparr>"

text \<open>\<^verbatim>\<open>memcpy\<close> of \<open>n\<close> bytes from a pointer to a buffer that holds \<open>bs\<close>.\<close>

definition copy_from :: "byte list option \<Rightarrow> nat \<Rightarrow> byte list result" where
  "copy_from ptr n =
     (if n = 0 then Inr []
      else case ptr of None \<Rightarrow> Inl UseAfterFree
           | Some bs \<Rightarrow> if n \<le> length bs then Inr (take n bs) else Inl OutOfBounds)"

text \<open>The buffer is as long as \<^verbatim>\<open>buf_len\<close> says.  The result: the size and the bytes written.\<close>

definition gbn_socket_serialize :: "gbn_packet \<Rightarrow> nat \<Rightarrow> (nat \<times> byte list) result" where
  "gbn_socket_serialize packet buf_len =
     (if unat (gp_size packet) + SERIALIZE_OVERHEAD \<le> buf_len then
        bindR (copy_from (gp_payload packet) (unat (gp_size packet))) (\<lambda>bs.
        Inr (unat (gp_size packet) + SERIALIZE_OVERHEAD,
             store_u32 (htonl (gp_type packet)) @ store_u32 (htonl (gp_seq_number packet)) @
             store_u32 (htonl (gp_size packet)) @ bs))
      else Inl AssertFailed)"

text \<open>\<open>buf\<close> is the whole buffer, of which \<^verbatim>\<open>buf_len\<close> bytes were received; the size is not checked.\<close>

definition gbn_socket_deserialize :: "byte list \<Rightarrow> nat \<Rightarrow> gbn_packet result" where
  "gbn_socket_deserialize buf buf_len =
     (if buf_len \<le> DEFAULT_PACKET_SIZE + sizeof_packet then
        let size = ntohl (load_u32 (drop 8 buf)) in
        bindR (copy_from (Some (drop SERIALIZE_OVERHEAD buf)) (unat size)) (\<lambda>bs.
        Inr \<lparr>gp_type = ntohl (load_u32 buf), gp_seq_number = ntohl (load_u32 (drop 4 buf)),
             gp_size = size, gp_payload = Some bs\<rparr>)
      else Inl AssertFailed)"

section \<open>The socket\<close>

record data_block =
  db_data :: "byte list"
  db_closing :: bool

record gbn_window =
  gw_head :: byte
  gw_tail :: byte
  gw_size :: byte
  gw_recv_counter :: u32
  gw_packet_buffer :: "gbn_packet list"

text \<open>\<open>gs_out\<close>: the datagrams handed to \<^verbatim>\<open>sendto_\<close> and \<^verbatim>\<open>sendto\<close>.\<close>

record gbn_socket =
  gs_closed :: bool
  gs_read_closed :: bool
  gs_sending_buffer :: "data_block list"
  gs_receive_buffer :: "data_block list"
  gs_current_block_ptr :: nat
  gs_sending_window :: gbn_window
  gs_receive_window :: gbn_window
  gs_seq_number :: u32
  gs_out :: "byte list list"

definition init_gbn_window :: gbn_window where
  "init_gbn_window = \<lparr>gw_head = 0, gw_tail = 0, gw_size = 0, gw_recv_counter = 0,
     gw_packet_buffer = replicate DEFAULT_QUEUE_SIZE empty_packet\<rparr>"

definition init_gbn_socket :: gbn_socket where
  "init_gbn_socket = \<lparr>gs_closed = False, gs_read_closed = False, gs_sending_buffer = [],
     gs_receive_buffer = [], gs_current_block_ptr = 0, gs_sending_window = init_gbn_window,
     gs_receive_window = init_gbn_window, gs_seq_number = 0, gs_out = []\<rparr>"

definition send_datagram :: "byte list \<Rightarrow> gbn_socket \<Rightarrow> gbn_socket" where
  "send_datagram d sock = sock\<lparr>gs_out := gs_out sock @ [d]\<rparr>"

definition push_block :: "data_block list \<Rightarrow> data_block \<Rightarrow> data_block list" where
  "push_block q b = q @ [b]"

section \<open>Writing\<close>

text \<open>\<open>k\<close> whole blocks from the cursor on; the bytes left, and the queue.\<close>

fun write_whole_blocks :: "nat \<Rightarrow> byte list \<Rightarrow> data_block list \<Rightarrow> (byte list \<times> data_block list) result" where
  "write_whole_blocks 0 cursor q = Inr (cursor, q)"
| "write_whole_blocks (Suc k) cursor q =
     bindR (copy_from (Some cursor) DEFAULT_PACKET_SIZE) (\<lambda>bs.
     write_whole_blocks k (drop DEFAULT_PACKET_SIZE cursor)
       (push_block q \<lparr>db_data = bs, db_closing = False\<rparr>))"

definition gbn_socket_write :: "gbn_socket \<Rightarrow> byte list \<Rightarrow> u32 \<Rightarrow> (u32 \<times> gbn_socket) result" where
  "gbn_socket_write sock bytes len =
     (let whole_blocks = unat len div DEFAULT_PACKET_SIZE in
      bindR (write_whole_blocks whole_blocks bytes (gs_sending_buffer sock)) (\<lambda>(cursor, q).
      if whole_blocks * DEFAULT_PACKET_SIZE < unat len then
        let final_len = unat len - whole_blocks * DEFAULT_PACKET_SIZE in
        bindR (copy_from (Some cursor) final_len) (\<lambda>bs.
        Inr (of_nat (whole_blocks * DEFAULT_PACKET_SIZE + final_len),
             sock\<lparr>gs_sending_buffer := push_block q \<lparr>db_data = bs, db_closing = False\<rparr>\<rparr>))
      else Inr (of_nat (whole_blocks * DEFAULT_PACKET_SIZE), sock\<lparr>gs_sending_buffer := q\<rparr>)))"

definition gbn_socket_close :: "gbn_socket \<Rightarrow> gbn_socket" where
  "gbn_socket_close sock =
     (if \<not> gs_closed sock then
        sock\<lparr>gs_sending_buffer := push_block (gs_sending_buffer sock) \<lparr>db_data = [], db_closing = True\<rparr>\<rparr>
      else sock)"

section \<open>Reading\<close>

text \<open>
  A read blocks while the queue is empty: the list is then all that will ever arrive.  The socket
  of \<open>Blocked\<close> is the state in which the call waits.
\<close>

datatype read_outcome = ReadBytes "byte list" gbn_socket | Blocked gbn_socket

text \<open>The loop after the first block is used up.\<close>

fun read_loop :: "nat \<Rightarrow> data_block list \<Rightarrow> byte list \<Rightarrow> gbn_socket \<Rightarrow> read_outcome" where
  "read_loop len [] acc sock =
     (if length acc < len then Blocked (sock\<lparr>gs_receive_buffer := []\<rparr>)
      else ReadBytes acc (sock\<lparr>gs_receive_buffer := []\<rparr>))"
| "read_loop len (block # q) acc sock =
     (if length acc < len then
        if db_closing block then
          ReadBytes acc (sock\<lparr>gs_receive_buffer := block # q, gs_closed := True\<rparr>)
        else if length (db_data block) \<le> len - length acc then
          read_loop len q (acc @ db_data block) sock
        else
          ReadBytes (acc @ take (len - length acc) (db_data block))
            (sock\<lparr>gs_receive_buffer := block # q, gs_current_block_ptr := len - length acc\<rparr>)
      else ReadBytes acc (sock\<lparr>gs_receive_buffer := block # q\<rparr>))"

definition gbn_socket_read :: "gbn_socket \<Rightarrow> nat \<Rightarrow> read_outcome" where
  "gbn_socket_read sock len =
     (if gs_closed sock then ReadBytes [] sock
      else case gs_receive_buffer sock of
        [] \<Rightarrow> Blocked sock
      | block # q \<Rightarrow>
          let bytes_read = min len (length (db_data block) - gs_current_block_ptr sock);
              bytes = take bytes_read (db_data block)
          in if bytes_read \<noteq> len then
               read_loop len q bytes (sock\<lparr>gs_current_block_ptr := 0\<rparr>)
             else ReadBytes bytes (sock\<lparr>gs_current_block_ptr := gs_current_block_ptr sock + bytes_read\<rparr>))"

end
