(* ===== verification/GbnRead.thy ===== *)
theory GbnRead
  imports GbnSocket
begin

text \<open>
  The reader thread of the go-back-N socket (\<^verbatim>\<open>PA2/GBNframework/gbn_read.c\<close>): acknowledgements move the
  sending window, data packets enter the receive window, and the packets at its front go to the
  application, followed by a cumulative acknowledgement.
\<close>

section \<open>Acknowledgements\<close>

text \<open>The position of a sequence number in the sending window, or -2.\<close>

definition GET_SEND_FRAME_id_delta :: "gbn_window \<Rightarrow> u32 \<Rightarrow> int result" where
  "GET_SEND_FRAME_id_delta w seq =
     bindR (arr_get (gw_packet_buffer w) (int (unat (gw_head w) mod DEFAULT_QUEUE_SIZE))) (\<lambda>head_frame.
     Inr (if gp_seq_number head_frame \<le> seq \<and> seq < gp_seq_number head_frame + of_nat DEFAULT_QUEUE_SIZE
          then sint (seq - gp_seq_number head_frame) else -2))"

definition handle_ack :: "u32 \<Rightarrow> gbn_window \<Rightarrow> gbn_window result" where
  "handle_ack seq w =
     bindR (GET_SEND_FRAME_id_delta w seq) (\<lambda>delta.
     let framediff = delta + 1 in
     Inr (if framediff \<noteq> -1 then
            w\<lparr>gw_head := (gw_head w + word_of_int framediff) mod of_nat DEFAULT_QUEUE_SIZE,
              gw_size := gw_size w - word_of_int framediff\<rparr>
          else w))"

section \<open>Data packets\<close>

text \<open>
  The packet is stored at its distance from the next expected number; the size of the window grows
  by the distance to the frame behind its end, which is not part of the window.
\<close>

definition accept_data :: "gbn_packet \<Rightarrow> gbn_window \<Rightarrow> gbn_window result" where
  "accept_data packet w =
     (let seq = gp_seq_number packet in
      if gw_recv_counter w \<le> seq \<and> seq < gw_recv_counter w + of_nat DEFAULT_QUEUE_SIZE then
        let wind_index = unat (seq - gw_recv_counter w) in
        bindR (arr_set (gw_packet_buffer w) (int ((unat (gw_head w) + wind_index) mod DEFAULT_QUEUE_SIZE)) packet) (\<lambda>buf.
        bindR (arr_get buf (int ((unat (gw_head w) + unat (gw_size w)) mod DEFAULT_QUEUE_SIZE))) (\<lambda>f.
        let framediff = seq - gp_seq_number f + 1 in
        Inr (if 0 < sint framediff then
               w\<lparr>gw_packet_buffer := buf,
                 gw_tail := (gw_tail w + ucast framediff) mod of_nat DEFAULT_QUEUE_SIZE,
                 gw_size := gw_size w + ucast framediff\<rparr>
             else w\<lparr>gw_packet_buffer := buf\<rparr>)))
      else Inr w)"

definition block_of :: "gbn_packet \<Rightarrow> data_block" where
  "block_of f = \<lparr>db_data = (case gp_payload f of None \<Rightarrow> [] | Some bs \<Rightarrow> take (unat (gp_size f)) bs), db_closing = False\<rparr>"

lemma filter_update_less:
  "i < length xs \<Longrightarrow> P (xs ! i) \<Longrightarrow> \<not> P x \<Longrightarrow> length (filter P (xs[i := x])) < length (filter P xs)"
proof (induction xs arbitrary: i)
  case (Cons a xs)
  then show ?case by (cases i) auto
qed simp

text \<open>Frames leave the front of the window as long as it is not marked uninitialised.\<close>

function deliver_loop :: "gbn_window \<Rightarrow> data_block list \<Rightarrow> (gbn_window \<times> data_block list) result" where
  "deliver_loop w q =
     (let i = unat (gw_head w) mod DEFAULT_QUEUE_SIZE in
      bindR (arr_get (gw_packet_buffer w) (int i)) (\<lambda>f.
      if gp_type f \<noteq> gbn_packet_type_uninitialized then
        deliver_loop
          (w\<lparr>gw_recv_counter := gw_recv_counter w + 1, gw_head := gw_head w + 1, gw_size := gw_size w - 1,
             gw_packet_buffer := (gw_packet_buffer w)[i := f\<lparr>gp_type := gbn_packet_type_uninitialized\<rparr>]\<rparr>)
          (push_block q (block_of f))
      else Inr (w, q)))"
  by pat_completeness auto
termination
  by (relation "measure (\<lambda>(w, q). length (filter (\<lambda>f. gp_type f \<noteq> gbn_packet_type_uninitialized) (gw_packet_buffer w)))")
    (auto simp: arr_get_eq_Inr intro!: filter_update_less)

declare deliver_loop.simps [simp del]

definition ack_datagram :: "u32 \<Rightarrow> u32 \<Rightarrow> byte list result" where
  "ack_datagram type seq =
     bindR (gbn_socket_serialize \<lparr>gp_type = type, gp_seq_number = seq, gp_size = 0, gp_payload = None\<rparr> SERIALIZE_SIZE)
       (\<lambda>(n, d). Inr (take n d))"

definition handle_data :: "gbn_packet \<Rightarrow> gbn_socket \<Rightarrow> gbn_socket result" where
  "handle_data packet sock =
     bindR (accept_data packet (gs_receive_window sock)) (\<lambda>w.
     bindR (deliver_loop w (gs_receive_buffer sock)) (\<lambda>(w, q).
     bindR (ack_datagram gbn_packet_type_ack (gw_recv_counter w - 1)) (\<lambda>d.
     Inr (send_datagram d (sock\<lparr>gs_receive_window := w, gs_receive_buffer := q\<rparr>)))))"

section \<open>The thread\<close>

text \<open>One packet; \<open>False\<close>: the thread returns.\<close>

definition handle_packet :: "gbn_packet \<Rightarrow> gbn_socket \<Rightarrow> (bool \<times> gbn_socket) result" where
  "handle_packet packet sock =
     (if gp_type packet = gbn_packet_type_ack then
        bindR (handle_ack (gp_seq_number packet) (gs_sending_window sock)) (\<lambda>w.
        Inr (True, sock\<lparr>gs_sending_window := w\<rparr>))
      else if gp_type packet = gbn_packet_type_data then
        bindR (handle_data packet sock) (\<lambda>sock. Inr (True, sock))
      else if gp_type packet = gbn_packet_type_ack_EOF then Inr (False, sock)
      else if gp_type packet = gbn_packet_type_EOF then
        bindR (ack_datagram gbn_packet_type_ack_EOF 0) (\<lambda>d.
        let sock = send_datagram d (sock\<lparr>gs_read_closed := True\<rparr>);
            closing = \<lparr>db_data = [], db_closing = True\<rparr>
        in Inr (False, sock\<lparr>gs_sending_buffer := push_block (gs_sending_buffer sock) closing,
                            gs_receive_buffer := push_block (gs_receive_buffer sock) closing\<rparr>))
      else Inr (True, sock))"

text \<open>
  One round: \<open>datagram\<close> is what \<^verbatim>\<open>recvfrom\<close> yields (\<open>None\<close>: an error), \<open>buf\<close> the 4120 bytes of
  \<^verbatim>\<open>incoming_buf\<close>, which keep what they held behind the datagram.
\<close>

definition read_thread_round ::
    "byte list option \<Rightarrow> byte list \<Rightarrow> gbn_socket \<Rightarrow> (bool \<times> byte list \<times> gbn_socket) result" where
  "read_thread_round datagram buf sock =
     (if gs_read_closed sock \<and> gw_size (gs_receive_window sock) = 0 then Inr (False, buf, sock)
      else case datagram of None \<Rightarrow> Inr (False, buf, sock)
      | Some d \<Rightarrow>
          let buf = d @ drop (length d) buf in
          bindR (gbn_socket_deserialize buf (length d)) (\<lambda>packet.
          bindR (handle_packet packet sock) (\<lambda>(go, sock). Inr (go, buf, sock))))"

fun read_thread :: "byte list option list \<Rightarrow> byte list \<Rightarrow> gbn_socket \<Rightarrow> (byte list \<times> gbn_socket) result" where
  "read_thread [] buf sock = Inr (buf, sock)"
| "read_thread (d # ds) buf sock =
     bindR (read_thread_round d buf sock) (\<lambda>(go, buf, sock).
     if go then read_thread ds buf sock else Inr (buf, sock))"

end
