(* ===== verification/GbnWrite.thy ===== *)
theory GbnWrite
  imports GbnRead
begin

text \<open>
  The writer thread of the go-back-N socket (\<^verbatim>\<open>PA2/GBNframework/gbn_write.c\<close>): a state machine whose
  states are the functions of that file.  A state that has to wait is the successor of itself.  The
  log lines are left out.
\<close>

section \<open>The states\<close>

datatype writer_state =
    State_window_empty_q | State_block_on_queue | State_send_packet | State_is_win_full_q
  | State_wait_on_read | State_retransmit | State_close_connection

text \<open>The result: the next state (\<open>None\<close>: the thread ends) and the socket.\<close>

type_synonym writer_result = "(writer_state option \<times> gbn_socket) result"

definition close_connection :: "gbn_socket \<Rightarrow> writer_result" where
  "close_connection sock =
     bindR (gbn_socket_serialize \<lparr>gp_type = gbn_packet_type_EOF, gp_seq_number = 0, gp_size = 0, gp_payload = None\<rparr> SERIALIZE_SIZE)
       (\<lambda>(n, d). Inr (None, send_datagram (take n d) sock))"

definition window_empty_q :: "gbn_socket \<Rightarrow> writer_result" where
  "window_empty_q sock =
     Inr (Some (if gw_size (gs_sending_window sock) = 0 then State_block_on_queue else State_is_win_full_q), sock)"

definition block_on_queue :: "gbn_socket \<Rightarrow> writer_result" where
  "block_on_queue sock =
     Inr (Some (if gs_sending_buffer sock = [] then State_block_on_queue else State_send_packet), sock)"

text \<open>
  The window keeps a copy of the packet, whose payload pointer is the data of the block; the data is
  freed at the end.
\<close>

definition send_packet :: "gbn_socket \<Rightarrow> writer_result" where
  "send_packet sock =
     (case gs_sending_buffer sock of [] \<Rightarrow> Inr (Some State_send_packet, sock)
      | block # q \<Rightarrow>
          let sock = sock\<lparr>gs_sending_buffer := q\<rparr> in
          if db_closing block then Inr (Some State_close_connection, sock)
          else
            let packet = \<lparr>gp_type = gbn_packet_type_data, gp_seq_number = gs_seq_number sock,
                          gp_size = of_nat (length (db_data block)), gp_payload = Some (db_data block)\<rparr>;
                sock = sock\<lparr>gs_seq_number := gs_seq_number sock + 1\<rparr>;
                tmp = gs_sending_window sock;
                slot = int (unat (gw_tail tmp))
            in bindR (arr_set (gw_packet_buffer tmp) slot packet) (\<lambda>buf.
               let tmp = tmp\<lparr>gw_packet_buffer := buf,
                             gw_tail := of_nat ((unat (gw_tail tmp) + 1) mod DEFAULT_QUEUE_SIZE),
                             gw_size := gw_size tmp + 1\<rparr>
               in bindR (gbn_socket_serialize packet SERIALIZE_SIZE) (\<lambda>(n, d).
               bindR (arr_set buf slot (packet\<lparr>gp_payload := None\<rparr>)) (\<lambda>freed.
               Inr (Some State_is_win_full_q,
                    send_datagram (take n d) (sock\<lparr>gs_sending_window := tmp\<lparr>gw_packet_buffer := freed\<rparr>\<rparr>))))))"

definition is_win_full_q :: "gbn_socket \<Rightarrow> writer_result" where
  "is_win_full_q sock =
     Inr (Some (if unat (gw_size (gs_sending_window sock)) < DEFAULT_QUEUE_SIZE \<and> gs_sending_buffer sock \<noteq> []
                then State_send_packet else State_wait_on_read), sock)"

text \<open>\<open>timed_out\<close>: the reader did not signal within 50 milliseconds.\<close>

definition wait_on_read :: "bool \<Rightarrow> gbn_socket \<Rightarrow> writer_result" where
  "wait_on_read timed_out sock =
     Inr (Some (if timed_out then State_retransmit else State_window_empty_q), sock)"

text \<open>
  The loop from the head to the tail.  Six rounds reach every slot: \<open>fuel\<close> runs out only if the tail
  is not a slot.
\<close>

fun retransmit_loop :: "nat \<Rightarrow> nat \<Rightarrow> gbn_socket \<Rightarrow> gbn_socket option result" where
  "retransmit_loop 0 i sock = Inr None"
| "retransmit_loop (Suc fuel) i sock =
     bindR (arr_get (gw_packet_buffer (gs_sending_window sock)) (int i)) (\<lambda>packet.
     bindR (gbn_socket_serialize packet SERIALIZE_SIZE) (\<lambda>(n, d).
     let sock = send_datagram (take n d) sock;
         i = (i + 1) mod DEFAULT_QUEUE_SIZE
     in if i \<noteq> unat (gw_tail (gs_sending_window sock)) then retransmit_loop fuel i sock
        else Inr (Some sock)))"

definition retransmit :: "gbn_socket \<Rightarrow> writer_result" where
  "retransmit sock =
     (if gw_size (gs_sending_window sock) = 0 then Inr (Some State_wait_on_read, sock)
      else bindR (retransmit_loop DEFAULT_QUEUE_SIZE (unat (gw_head (gs_sending_window sock))) sock) (\<lambda>r.
           case r of None \<Rightarrow> Inr (Some State_retransmit, sock)
           | Some sock \<Rightarrow> Inr (Some State_wait_on_read, sock)))"

section \<open>The thread\<close>

definition writer_step :: "bool \<Rightarrow> writer_state \<Rightarrow> gbn_socket \<Rightarrow> writer_result" where
  "writer_step timed_out st sock =
     (case st of State_window_empty_q \<Rightarrow> window_empty_q sock
      | State_block_on_queue \<Rightarrow> block_on_queue sock
      | State_send_packet \<Rightarrow> send_packet sock
      | State_is_win_full_q \<Rightarrow> is_win_full_q sock
      | State_wait_on_read \<Rightarrow> wait_on_read timed_out sock
      | State_retransmit \<Rightarrow> retransmit sock
      | State_close_connection \<Rightarrow> close_connection sock)"

section \<open>A socket with its threads\<close>

text \<open>
  What can happen in a socket: the writer goes through one state, the reader handles a packet, the
  application writes, reads or closes.  A read takes place when it can return.  The steps are atomic;
  \<open>GbnThreads\<close> has the threads as they are, and shows that they come to the same.
\<close>

record gbn_system =
  sys_writer :: "writer_state option"
  sys_reading :: bool
  sys_socket :: gbn_socket

datatype gbn_event = WriterStep bool | Arrival gbn_packet | Write "byte list" | Read nat | Close

definition gbn_start :: gbn_system where
  "gbn_start = \<lparr>sys_writer = Some State_window_empty_q, sys_reading = True, sys_socket = init_gbn_socket\<rparr>"

definition gbn_step :: "gbn_event \<Rightarrow> gbn_system \<Rightarrow> gbn_system result" where
  "gbn_step e s =
     (case e of
        WriterStep timed_out \<Rightarrow>
          (case sys_writer s of None \<Rightarrow> Inr s
           | Some st \<Rightarrow> bindR (writer_step timed_out st (sys_socket s)) (\<lambda>(st, sock).
               Inr (s\<lparr>sys_writer := st, sys_socket := sock\<rparr>)))
      | Arrival packet \<Rightarrow>
          (if sys_reading s then
             bindR (handle_packet packet (sys_socket s)) (\<lambda>(go, sock). Inr (s\<lparr>sys_reading := go, sys_socket := sock\<rparr>))
           else Inr s)
      | Write bytes \<Rightarrow>
          bindR (gbn_socket_write (sys_socket s) bytes (of_nat (length bytes))) (\<lambda>(_, sock). Inr (s\<lparr>sys_socket := sock\<rparr>))
      | Read len \<Rightarrow>
          Inr (case gbn_socket_read (sys_socket s) len of ReadBytes _ sock \<Rightarrow> s\<lparr>sys_socket := sock\<rparr> | Blocked _ \<Rightarrow> s)
      | Close \<Rightarrow> Inr (s\<lparr>sys_socket := gbn_socket_close (sys_socket s)\<rparr>))"

fun gbn_run :: "gbn_event list \<Rightarrow> gbn_system \<Rightarrow> gbn_system result" where
  "gbn_run [] s = Inr s"
| "gbn_run (e # es) s = bindR (gbn_step e s) (gbn_run es)"

end
