(* ===== verification/GbnSocketProps.thy ===== *)
theory GbnSocketProps
  imports GbnSocket
begin

text \<open>
  What the application sees of the go-back-N socket: the packets read back from the wire, the blocks
  a write queues, and what a read returns, right when it starts at the edge of a block and wrong
  when it starts inside one.
\<close>

section \<open>Writing\<close>

lemma copy_from_ok: "n \<le> length bs \<Longrightarrow> copy_from (Some bs) n = Inr (take n bs)"
  by (simp add: copy_from_def)

definition blocks_ok :: "data_block list \<Rightarrow> bool" where
  "blocks_ok bs \<longleftrightarrow> (\<forall>b \<in> set bs. \<not> db_closing b \<and> db_data b \<noteq> [] \<and> length (db_data b) \<le> DEFAULT_PACKET_SIZE)"

lemma write_whole_blocks_ok:
  "k * DEFAULT_PACKET_SIZE \<le> length cursor \<Longrightarrow> \<exists>bs. write_whole_blocks k cursor q = Inr (drop (k * DEFAULT_PACKET_SIZE) cursor, q @ bs) \<and>
    concat (map db_data bs) = take (k * DEFAULT_PACKET_SIZE) cursor \<and> blocks_ok bs"
proof (induction k arbitrary: cursor q)
  case (Suc k)
  let ?b = "\<lparr>db_data = take DEFAULT_PACKET_SIZE cursor, db_closing = False\<rparr>"
  have len: "DEFAULT_PACKET_SIZE \<le> length cursor" "k * DEFAULT_PACKET_SIZE \<le> length (drop DEFAULT_PACKET_SIZE cursor)"
    using Suc.prems by simp_all
  from Suc.IH [OF len(2), of "q @ [?b]"] obtain bs where
    "write_whole_blocks k (drop DEFAULT_PACKET_SIZE cursor) (q @ [?b]) = Inr (drop (k * DEFAULT_PACKET_SIZE) (drop DEFAULT_PACKET_SIZE cursor), (q @ [?b]) @ bs)"
    "concat (map db_data bs) = take (k * DEFAULT_PACKET_SIZE) (drop DEFAULT_PACKET_SIZE cursor)" "blocks_ok bs" by blast
  moreover have "take DEFAULT_PACKET_SIZE cursor @ take (k * DEFAULT_PACKET_SIZE) (drop DEFAULT_PACKET_SIZE cursor)
      = take (Suc k * DEFAULT_PACKET_SIZE) cursor"
    by (simp add: take_add)
  moreover have "blocks_ok [?b]" using len(1) by (auto simp: blocks_ok_def DEFAULT_PACKET_SIZE_def)
  ultimately show ?case
    using len(1) by (intro exI [of _ "?b # bs"]) (simp add: copy_from_ok push_block_def blocks_ok_def add.commute)
qed (simp add: blocks_ok_def)

lemma gbn_socket_write_ok:
  assumes "unat len \<le> length bytes"
  shows "\<exists>bs. gbn_socket_write sock bytes len = Inr (len, sock\<lparr>gs_sending_buffer := gs_sending_buffer sock @ bs\<rparr>) \<and>
    concat (map db_data bs) = take (unat len) bytes \<and> blocks_ok bs"
proof -
  let ?k = "unat len div DEFAULT_PACKET_SIZE" let ?w = "?k * DEFAULT_PACKET_SIZE"
  have w: "?w \<le> unat len" "unat len - ?w < DEFAULT_PACKET_SIZE"
    by (simp_all add: minus_div_mult_eq_mod DEFAULT_PACKET_SIZE_def)
  obtain bs where bs: "write_whole_blocks ?k bytes (gs_sending_buffer sock) = Inr (drop ?w bytes, gs_sending_buffer sock @ bs)"
    "concat (map db_data bs) = take ?w bytes" "blocks_ok bs"
    using write_whole_blocks_ok [of ?k bytes] w(1) assms by (meson le_trans)
  show ?thesis
  proof (cases "?w < unat len")
    case True
    let ?b = "\<lparr>db_data = take (unat len - ?w) (drop ?w bytes), db_closing = False\<rparr>"
    have "copy_from (Some (drop ?w bytes)) (unat len - ?w) = Inr (take (unat len - ?w) (drop ?w bytes))"
      using assms by (intro copy_from_ok) simp
    moreover have "take ?w bytes @ take (unat len - ?w) (drop ?w bytes) = take (unat len) bytes"
      using w(1) by (metis le_add_diff_inverse take_add)
    moreover have "blocks_ok [?b]" using True assms w(2) by (auto simp: blocks_ok_def)
    moreover have "?w + (unat len - ?w) = unat len" using w(1) by simp
    ultimately show ?thesis
      using True bs by (intro exI [of _ "bs @ [?b]"]) (simp add: gbn_socket_write_def Let_def push_block_def blocks_ok_def ball_Un)
  next
    case False
    then have eq: "?w = unat len" using w(1) by simp
    then have "(of_nat ?w :: u32) = len" by simp
    then show ?thesis using bs eq by (intro exI [of _ bs]) (simp add: gbn_socket_write_def Let_def)
  qed
qed

section \<open>Reading\<close>

text \<open>The bytes before the closing block.\<close>

definition stream_of :: "data_block list \<Rightarrow> byte list" where
  "stream_of q = concat (map db_data (takeWhile (\<lambda>b. \<not> db_closing b) q))"

definition has_eof :: "data_block list \<Rightarrow> bool" where
  "has_eof q \<longleftrightarrow> (\<exists>b \<in> set q. db_closing b)"

lemma stream_of_Cons: "stream_of (b # q) = (if db_closing b then [] else db_data b @ stream_of q)"
  by (simp add: stream_of_def)

definition unread :: "gbn_socket \<Rightarrow> byte list" where
  "unread sock = drop (gs_current_block_ptr sock) (stream_of (gs_receive_buffer sock))"

lemma read_loop_enough:
  "length acc \<le> len \<Longrightarrow> gs_current_block_ptr sock = 0 \<Longrightarrow> len \<le> length acc + length (stream_of q) \<Longrightarrow>
    \<exists>sock'. read_loop len q acc sock = ReadBytes (take len (acc @ stream_of q)) sock' \<and>
      unread sock' = drop (len - length acc) (stream_of q) \<and> gs_closed sock' = gs_closed sock"
proof (induction len q acc sock rule: read_loop.induct)
  case (1 len acc sock)
  then show ?case by (simp add: stream_of_def unread_def)
next
  case (2 len block q acc sock)
  show ?case
  proof (cases "length acc < len")
    case False
    then show ?thesis using "2.prems" by (simp add: unread_def)
  next
    case True
    then have nc: "\<not> db_closing block" using "2.prems"(3) by (auto simp: stream_of_Cons)
    show ?thesis
    proof (cases "length (db_data block) \<le> len - length acc")
      case fits: True
      have "length (acc @ db_data block) \<le> len" "len \<le> length (acc @ db_data block) + length (stream_of q)"
        using fits True "2.prems"(3) nc by (simp_all add: stream_of_Cons)
      from "2.IH" [OF True nc fits this(1) "2.prems"(2) this(2)] show ?thesis
        using True nc fits by (auto simp: stream_of_Cons)
    next
      case False
      then show ?thesis using True nc by (simp add: stream_of_Cons unread_def)
    qed
  qed
qed

lemma read_loop_eof:
  "gs_current_block_ptr sock = 0 \<Longrightarrow> length acc + length (stream_of q) < len \<Longrightarrow> has_eof q \<Longrightarrow>
    \<exists>sock'. read_loop len q acc sock = ReadBytes (acc @ stream_of q) sock' \<and> gs_closed sock'"
proof (induction len q acc sock rule: read_loop.induct)
  case (2 len block q acc sock)
  show ?case
  proof (cases "db_closing block")
    case True
    then show ?thesis using "2.prems" by (simp add: stream_of_Cons)
  next
    case nc: False
    then have l: "length acc < len" "length (db_data block) \<le> len - length acc"
      "length (acc @ db_data block) + length (stream_of q) < len"
      using "2.prems"(2) by (simp_all add: stream_of_Cons)
    have "has_eof q" using "2.prems"(3) nc by (simp add: has_eof_def)
    from "2.IH" [OF l(1) nc l(2) "2.prems"(1) l(3) this] show ?thesis using l nc by (simp add: stream_of_Cons)
  qed
qed (simp add: has_eof_def)

text \<open>Where a read starts right: at the beginning or at the end of the first block.\<close>

definition aligned :: "gbn_socket \<Rightarrow> bool" where
  "aligned sock \<longleftrightarrow> (case gs_receive_buffer sock of [] \<Rightarrow> False
     | b # q \<Rightarrow> \<not> db_closing b \<and> (gs_current_block_ptr sock = 0 \<or> gs_current_block_ptr sock = length (db_data b)))"

lemma gbn_socket_read_ok:
  assumes "aligned sock" "\<not> gs_closed sock"
  shows "(len \<le> length (unread sock) \<longrightarrow> (\<exists>sock'. gbn_socket_read sock len = ReadBytes (take len (unread sock)) sock' \<and>
      unread sock' = drop len (unread sock) \<and> \<not> gs_closed sock')) \<and>
    (length (unread sock) < len \<and> has_eof (gs_receive_buffer sock) \<longrightarrow>
      (\<exists>sock'. gbn_socket_read sock len = ReadBytes (unread sock) sock' \<and> gs_closed sock'))"
proof -
  obtain b q where q: "gs_receive_buffer sock = b # q" "\<not> db_closing b"
    "gs_current_block_ptr sock = 0 \<or> gs_current_block_ptr sock = length (db_data b)"
    using assms(1) by (auto simp: aligned_def split: list.splits)
  let ?p = "gs_current_block_ptr sock" let ?n = "min len (length (db_data b) - ?p)"
  let ?acc = "take ?n (db_data b)" let ?s = "sock\<lparr>gs_current_block_ptr := 0\<rparr>"
  have p: "?p \<le> length (db_data b)" using q(3) by auto
  have un: "unread sock = drop ?p (db_data b) @ stream_of q" using p q by (simp add: unread_def stream_of_Cons)
  have acc: "?acc = take len (drop ?p (db_data b))" using q(3) by (auto simp: min_def)
  have rd: "gbn_socket_read sock len = (if ?n \<noteq> len then read_loop len q ?acc ?s
      else ReadBytes ?acc (sock\<lparr>gs_current_block_ptr := ?p + ?n\<rparr>))"
    using q(1) assms(2) by (simp add: gbn_socket_read_def Let_def)
  show ?thesis
  proof (cases "?n = len")
    case True
    then have l: "len \<le> length (drop ?p (db_data b))" by simp
    let ?t = "sock\<lparr>gs_current_block_ptr := ?p + len\<rparr>"
    have "gbn_socket_read sock len = ReadBytes ?acc ?t" using rd True by simp
    moreover have "?acc = take len (unread sock)" unfolding acc un using l by simp
    moreover have "unread ?t = drop len (unread sock)"
      by (simp add: unread_def add.commute)
    moreover have "\<not> length (unread sock) < len" unfolding un using l by simp
    ultimately show ?thesis using assms(2) by auto
  next
    case False
    then have n: "?n = length (drop ?p (db_data b))" "length (drop ?p (db_data b)) < len" by (auto simp: min_def split: if_splits)
    then have acc2: "?acc = drop ?p (db_data b)" using acc by simp
    have ptr: "gs_current_block_ptr ?s = 0" "gs_closed ?s = gs_closed sock" by simp_all
    show ?thesis
      using read_loop_enough [of ?acc len ?s q] read_loop_eof [of ?s ?acc q len] n(2) rd False un assms(2) q(1,2) ptr
      unfolding acc2 by (auto simp: has_eof_def)
  qed
qed

section \<open>The wire format\<close>

lemma packet_wire:
  assumes "gp_payload p = Some bs" "unat (gp_size p) = length bs" "length bs \<le> DEFAULT_PACKET_SIZE"
  shows "\<exists>d. gbn_socket_serialize p SERIALIZE_SIZE = Inr (length d, d) \<and> length d = length bs + SERIALIZE_OVERHEAD \<and>
    gbn_socket_deserialize (d @ junk) (length d) = Inr p"
proof -
  let ?a = "store_u32 (htonl (gp_type p))" and ?b = "store_u32 (htonl (gp_seq_number p))" and ?c = "store_u32 (htonl (gp_size p))"
  let ?d = "?a @ ?b @ ?c @ bs"
  have copy: "copy_from (Some bs) (length bs) = Inr bs" by (simp add: copy_from_def)
  have copy': "copy_from (Some (bs @ junk)) (length bs) = Inr bs" by (simp add: copy_from_def)
  have "gbn_socket_serialize p SERIALIZE_SIZE = Inr (length ?d, ?d)"
    using assms copy by (simp add: gbn_socket_serialize_def SERIALIZE_SIZE_def SERIALIZE_OVERHEAD_def)
  moreover have "drop 4 (?d @ junk) = ?b @ ?c @ bs @ junk" "drop 8 (?d @ junk) = ?c @ bs @ junk" "drop 12 (?d @ junk) = bs @ junk"
    by (simp_all add: drop_append)
  then have "gbn_socket_deserialize (?d @ junk) (length ?d) = Inr p"
    using assms copy' by (cases p) (simp add: gbn_socket_deserialize_def SERIALIZE_OVERHEAD_def sizeof_packet_def Let_def)
  moreover have "length ?d = length bs + SERIALIZE_OVERHEAD" by (simp add: SERIALIZE_OVERHEAD_def)
  ultimately show ?thesis by blast
qed

section \<open>Properties\<close>

text \<open>
  A packet survives the wire: deserialising the bytes that \<^verbatim>\<open>gbn_socket_serialize\<close> wrote, whatever is
  behind them in the buffer, gives the packet back, for a payload of at most 4096 bytes.
\<close>

lemma gbn_packet_roundtrip:
  assumes "gp_payload p = Some bs" "unat (gp_size p) = length bs" "length bs \<le> DEFAULT_PACKET_SIZE"
  shows "\<exists>d. gbn_socket_serialize p SERIALIZE_SIZE = Inr (length d, d) \<and> length d = length bs + SERIALIZE_OVERHEAD \<and>
    gbn_socket_deserialize (d @ junk) (length d) = Inr p"
  using packet_wire [OF assms] .

definition example_data_packet :: gbn_packet where
  "example_data_packet = \<lparr>gp_type = gbn_packet_type_data, gp_seq_number = 70000, gp_size = 3, gp_payload = Some [1, 2, 3]\<rparr>"

lemma gbn_packet_roundtrip_example:
  "\<exists>d. gbn_socket_serialize example_data_packet SERIALIZE_SIZE = Inr (15, d) \<and> gbn_socket_deserialize (d @ [9, 9]) 15 = Inr example_data_packet"
  using gbn_packet_roundtrip [of example_data_packet "[1, 2, 3]" "[9, 9]"]
  by (auto simp: example_data_packet_def DEFAULT_PACKET_SIZE_def SERIALIZE_OVERHEAD_def)

text \<open>
  \<^verbatim>\<open>gbn_socket_write\<close> queues exactly the bytes it is given, in order, in non-empty blocks of at most
  4096 bytes, each fit for one packet, and returns their number.
\<close>

lemma gbn_write_queues_all:
  assumes "unat len \<le> length bytes"
  shows "\<exists>bs. gbn_socket_write sock bytes len = Inr (len, sock\<lparr>gs_sending_buffer := gs_sending_buffer sock @ bs\<rparr>) \<and>
    concat (map db_data bs) = take (unat len) bytes \<and>
    (\<forall>b \<in> set bs. \<not> db_closing b \<and> db_data b \<noteq> [] \<and> length (db_data b) \<le> DEFAULT_PACKET_SIZE)"
  using gbn_socket_write_ok [OF assms] by (simp add: blocks_ok_def)

lemma gbn_write_queues_all_example:
  "\<exists>bs. gbn_socket_write init_gbn_socket (replicate 5000 7) 5000 = Inr (5000, init_gbn_socket\<lparr>gs_sending_buffer := bs\<rparr>) \<and>
     concat (map db_data bs) = replicate 5000 7"
proof -
  have "gs_sending_buffer init_gbn_socket = []" by (simp add: init_gbn_socket_def)
  then show ?thesis using gbn_write_queues_all [of 5000 "replicate 5000 7" init_gbn_socket] by auto
qed

text \<open>
  A read that starts at the edge of a block returns the next bytes of the stream: as many as it asks
  for if there are so many, and the rest of them, closing the socket, if the end comes first.
\<close>

lemma gbn_read_aligned:
  assumes "aligned sock" "\<not> gs_closed sock"
  shows "(len \<le> length (unread sock) \<longrightarrow> (\<exists>sock'. gbn_socket_read sock len = ReadBytes (take len (unread sock)) sock' \<and>
      unread sock' = drop len (unread sock) \<and> \<not> gs_closed sock')) \<and>
    (length (unread sock) < len \<and> has_eof (gs_receive_buffer sock) \<longrightarrow>
      (\<exists>sock'. gbn_socket_read sock len = ReadBytes (unread sock) sock' \<and> gs_closed sock'))"
  by (rule gbn_socket_read_ok [OF assms])

definition example_reader :: gbn_socket where
  "example_reader = init_gbn_socket\<lparr>gs_receive_buffer := [\<lparr>db_data = [1, 2, 3], db_closing = False\<rparr>,
     \<lparr>db_data = [4, 5], db_closing = False\<rparr>, \<lparr>db_data = [], db_closing = True\<rparr>]\<rparr>"

lemma example_reader_ok: "aligned example_reader" "\<not> gs_closed example_reader" "unread example_reader = [1, 2, 3, 4, 5]"
  "has_eof (gs_receive_buffer example_reader)"
  by (simp_all add: aligned_def example_reader_def init_gbn_socket_def unread_def stream_of_def has_eof_def)

lemma gbn_read_aligned_example:
  "\<exists>s s'. gbn_socket_read example_reader 4 = ReadBytes [1, 2, 3, 4] s \<and> gbn_socket_read example_reader 9 = ReadBytes [1, 2, 3, 4, 5] s'"
  using gbn_read_aligned [OF example_reader_ok(1,2), of 4] gbn_read_aligned [OF example_reader_ok(1,2), of 9] example_reader_ok(3,4)
  by auto

text \<open>
  Two ways a read goes wrong. If the previous call stopped inside the first block, the copy starts
  at the beginning of the block again, so its first bytes are delivered twice and later ones
  never. If the closing block is the first of the queue, it is thrown away as a used-up block, and
  the call waits for ever on the empty queue.
\<close>

lemma gbn_read_misaligned:
  assumes "\<not> gs_closed sock"
  shows "(\<forall>b q n. gs_receive_buffer sock = b # q \<and> gs_current_block_ptr sock + n \<le> length (db_data b) \<longrightarrow>
      (\<exists>sock'. gbn_socket_read sock n = ReadBytes (take n (db_data b)) sock')) \<and>
    (\<forall>b n. gs_receive_buffer sock = [b] \<and> db_closing b \<and> db_data b = [] \<and> 0 < n \<longrightarrow>
      (\<exists>sock'. gbn_socket_read sock n = Blocked sock'))"
  using assms by (auto simp: gbn_socket_read_def Let_def min_def)

lemma gbn_read_misaligned_example:
  "\<exists>s s'. gbn_socket_read example_reader 1 = ReadBytes [1] s \<and> gbn_socket_read s 1 = ReadBytes [1] s' \<and> unread s = [2, 3, 4, 5]"
proof -
  let ?s = "example_reader\<lparr>gs_current_block_ptr := 1\<rparr>"
  let ?b = "\<lparr>db_data = [1, 2, 3], db_closing = False\<rparr> :: data_block"
  have nc: "\<not> gs_closed ?s" using example_reader_ok(2) by simp
  have "gbn_socket_read example_reader 1 = ReadBytes [1] ?s"
    by (subst gbn_socket_read_def) (simp add: example_reader_def init_gbn_socket_def Let_def)
  moreover have "gs_receive_buffer ?s = ?b # tl (gs_receive_buffer ?s) \<and> gs_current_block_ptr ?s + 1 \<le> length (db_data ?b)"
    by (simp add: example_reader_def init_gbn_socket_def)
  then have "\<exists>sock'. gbn_socket_read ?s 1 = ReadBytes (take 1 (db_data ?b)) sock'"
    using conjunct1 [OF gbn_read_misaligned [OF nc]] by blast
  then have "\<exists>s'. gbn_socket_read ?s 1 = ReadBytes [1] s'" by simp
  moreover have "unread ?s = [2, 3, 4, 5]" by (simp add: unread_def example_reader_def init_gbn_socket_def stream_of_def)
  ultimately show ?thesis by blast
qed

end
