(* ===== verification/GbnReadProps.thy ===== *)
theory GbnReadProps
  imports GbnRead GbnSocketProps "HOL-Library.Sublist"
begin

text \<open>
  What the receiving side of the go-back-N socket delivers.  Up to packet 254 it is exactly a
  selective-repeat receiver with six slots, whatever is lost, repeated or reordered on the way;
  later its head index, a byte that is not kept below the size of the window, wraps around, and a
  packet that is already delivered can be delivered once more.
\<close>

section \<open>A selective-repeat receiver\<close>

definition data_packet :: "(nat \<Rightarrow> byte list) \<Rightarrow> nat \<Rightarrow> gbn_packet" where
  "data_packet data k = \<lparr>gp_type = gbn_packet_type_data, gp_seq_number = of_nat k,
     gp_size = of_nat (length (data k)), gp_payload = Some (data k)\<rparr>"

definition data_block_of :: "(nat \<Rightarrow> byte list) \<Rightarrow> nat \<Rightarrow> data_block" where
  "data_block_of data k = \<lparr>db_data = data k, db_closing = False\<rparr>"

text \<open>
  What the receiver promises: \<open>n\<close> is the next number the application gets, \<open>B\<close> holds the numbers
  stored so far.  A packet is stored if it is one of the next six, and every packet
  that is then in line is delivered.
\<close>

definition sr_advance :: "nat \<Rightarrow> nat set \<Rightarrow> nat" where
  "sr_advance n B = n + length (takeWhile (\<lambda>i. i \<in> B) [n..<n + DEFAULT_QUEUE_SIZE])"

definition sr_step :: "nat \<Rightarrow> nat \<times> nat set \<Rightarrow> nat \<times> nat set" where
  "sr_step k = (\<lambda>(n, B).
     if n \<le> k \<and> k < n + DEFAULT_QUEUE_SIZE then (sr_advance n (insert k B), insert k B) else (n, B))"

text \<open>All packets of a run; the numbers that the acknowledgements name as expected next.\<close>

fun sr_run :: "nat list \<Rightarrow> nat \<times> nat set \<Rightarrow> nat list \<times> nat \<times> nat set" where
  "sr_run [] s = ([], s)"
| "sr_run (k # ks) s = (let s = sr_step k s; (acks, t) = sr_run ks s in (fst s # acks, t))"

section \<open>The window implements it\<close>

text \<open>Slot \<open>(n + i) mod 6\<close> is for packet \<open>n + i\<close>, up to number 254.\<close>

definition window_holds :: "(nat \<Rightarrow> byte list) \<Rightarrow> nat \<Rightarrow> nat set \<Rightarrow> gbn_window \<Rightarrow> bool" where
  "window_holds data n B w \<longleftrightarrow> gw_recv_counter w = of_nat n \<and> gw_head w = of_nat n \<and> n \<le> 255 \<and>
     length (gw_packet_buffer w) = 6 \<and> (\<forall>x\<in>B. x < 255 \<and> x < n + 6) \<and>
     (\<forall>i < 6. let f = gw_packet_buffer w ! ((n + i) mod 6) in
        if n + i \<in> B then f = data_packet data (n + i) else gp_type f = gbn_packet_type_uninitialized)"

lemma types_differ [simp]: "gbn_packet_type_data \<noteq> gbn_packet_type_uninitialized" "gbn_packet_type_data \<noteq> gbn_packet_type_ack"
  by (simp_all add: gbn_packet_type_data_def gbn_packet_type_uninitialized_def gbn_packet_type_ack_def)

lemma data_packet_sel [simp]: "gp_type (data_packet data k) = gbn_packet_type_data" "gp_seq_number (data_packet data k) = of_nat k"
  "gp_payload (data_packet data k) = Some (data k)" "gp_size (data_packet data k) = of_nat (length (data k))"
  by (simp_all add: data_packet_def)

lemma block_of_data_packet:
  "length (data k) \<le> DEFAULT_PACKET_SIZE \<Longrightarrow> block_of (data_packet data k) = data_block_of data k"
  by (simp add: block_of_def data_block_of_def unat_of_nat DEFAULT_PACKET_SIZE_def take_bit_nat_eq_self)

lemma sr_advance_stop: "n \<notin> B \<Longrightarrow> sr_advance n B = n"
  by (simp add: sr_advance_def DEFAULT_QUEUE_SIZE_def upt_conv_Cons)

lemma sr_advance_step:
  assumes "n \<in> B" "n + 6 \<notin> B"
  shows "sr_advance n B = sr_advance (Suc n) B"
proof -
  have l: "[n..<n + 6] = n # [Suc n..<n + 6]" by (simp add: upt_conv_Cons)
  have r: "[Suc n..<Suc n + 6] = [Suc n..<n + 6] @ [n + 6]" using upt_Suc_append [of "Suc n" "n + 6"] by (simp add: add.commute del: upt_Suc)
  have t: "takeWhile P (xs @ [y]) = takeWhile P xs" if "\<not> P y" for P and xs :: "nat list" and y
    using that by (induction xs) auto
  show ?thesis unfolding sr_advance_def DEFAULT_QUEUE_SIZE_def r l
    using assms t [of "\<lambda>i. i \<in> B" "n + 6"] by (simp del: upt_Suc)
qed

lemma unat_small_byte: "n \<le> 255 \<Longrightarrow> unat (of_nat n :: byte) = n"
  by (simp add: unat_of_nat take_bit_nat_eq_self)

lemma slots_differ: "i < 6 \<Longrightarrow> j < 6 \<Longrightarrow> i \<noteq> j \<Longrightarrow> (n + i) mod 6 \<noteq> (n + j) mod (6::nat)"
  using ring_slots_differ [of i j 6 n] ring_slots_differ [of j i 6 n] by (cases "i < j") auto

lemma deliver_loop_holds:
  assumes "window_holds data n B w" "\<forall>k. length (data k) \<le> DEFAULT_PACKET_SIZE"
    and "q = map (data_block_of data) [0..<n]"
  shows "\<exists>w'. deliver_loop w q = Inr (w', map (data_block_of data) [0..<sr_advance n B]) \<and> window_holds data (sr_advance n B) B w'
     \<and> sr_advance n B \<notin> B"
  using assms(1,3)
proof (induction w q arbitrary: n rule: deliver_loop.induct)
  case (1 w q)
  let ?f = "gw_packet_buffer w ! (n mod 6)"
  from "1.prems" have w: "gw_recv_counter w = of_nat n" "gw_head w = of_nat n" "n \<le> 255" "length (gw_packet_buffer w) = 6"
      "\<forall>x\<in>B. x < 255 \<and> x < n + 6" and fr: "\<And>i. i < 6 \<Longrightarrow> let f = gw_packet_buffer w ! ((n + i) mod 6) in
        if n + i \<in> B then f = data_packet data (n + i) else gp_type f = gbn_packet_type_uninitialized"
    by (simp_all add: window_holds_def)
  have i: "unat (gw_head w) mod DEFAULT_QUEUE_SIZE = n mod 6" using w by (simp add: unat_small_byte DEFAULT_QUEUE_SIZE_def)
  have get: "arr_get (gw_packet_buffer w) (int (n mod 6)) = Inr ?f" using w(4) by simp
  show ?case
  proof (cases "n \<in> B")
    case False
    then have "gp_type ?f = gbn_packet_type_uninitialized" using fr [of 0] by simp
    then have "deliver_loop w q = Inr (w, q)"
      by (subst deliver_loop.simps) (simp only: Let_def i get bindR_Inr if_not_P not_not simp_thms refl if_False)
    then show ?thesis using "1.prems" False by (simp add: sr_advance_stop)
  next
    case True
    then have f: "?f = data_packet data n" using fr [of 0] by simp
    let ?w = "w\<lparr>gw_recv_counter := gw_recv_counter w + 1, gw_head := gw_head w + 1, gw_size := gw_size w - 1,
             gw_packet_buffer := (gw_packet_buffer w)[n mod 6 := ?f\<lparr>gp_type := gbn_packet_type_uninitialized\<rparr>]\<rparr>"
    let ?q = "push_block q (block_of ?f)"
    have eq: "deliver_loop w q = deliver_loop ?w ?q"
      by (subst deliver_loop.simps) (simp add: Let_def i get f)
    have n: "n < 255" "n + 6 \<notin> B" using True w(5) by auto
    have "window_holds data (Suc n) B ?w"
      unfolding window_holds_def
    proof (intro conjI allI impI)
      fix j :: nat assume j: "j < 6"
      show "let f = gw_packet_buffer ?w ! ((Suc n + j) mod 6) in
        if Suc n + j \<in> B then f = data_packet data (Suc n + j) else gp_type f = gbn_packet_type_uninitialized"
      proof (cases "j = 5")
        case True
        then have "(Suc n + j) mod 6 = n mod 6" "Suc n + j = n + 6" by simp_all
        then show ?thesis using n w(4) by (simp add: add.commute)
      next
        case False
        then have "Suc j < 6" using j by simp
        then have "(n + Suc j) mod 6 \<noteq> n mod 6" using slots_differ [of "Suc j" 0 n] by simp
        then show ?thesis using fr [OF \<open>Suc j < 6\<close>] by (simp add: Let_def)
      qed
    qed (use w n in auto)
    moreover have "?q = map (data_block_of data) [0..<Suc n]"
      using "1.prems"(2) assms(2) by (simp add: f block_of_data_packet push_block_def)
    ultimately have "\<exists>w'. deliver_loop ?w ?q = Inr (w', map (data_block_of data) [0..<sr_advance (Suc n) B]) \<and>
        window_holds data (sr_advance (Suc n) B) B w' \<and> sr_advance (Suc n) B \<notin> B"
      using "1.IH" [OF refl, unfolded i, OF get, of "Suc n"] by (simp add: f)
    then show ?thesis unfolding eq using sr_advance_step [OF True n(2)] by simp
  qed
qed


lemma u32_nat:
  assumes "n < 60000" "k < 60000"
  shows "(of_nat n \<le> (of_nat k :: u32) \<longleftrightarrow> n \<le> k)" "((of_nat k :: u32) < of_nat n + of_nat DEFAULT_QUEUE_SIZE \<longleftrightarrow> k < n + 6)"
    "n \<le> k \<Longrightarrow> unat ((of_nat k :: u32) - of_nat n) = k - n"
proof -
  have u: "unat (of_nat m :: u32) = m" if "m < 61000" for m using that by (simp add: unat_of_nat take_bit_nat_eq_self)
  have s: "(of_nat n :: u32) + of_nat DEFAULT_QUEUE_SIZE = of_nat (n + 6)" by (simp add: DEFAULT_QUEUE_SIZE_def)
  show "(of_nat n \<le> (of_nat k :: u32) \<longleftrightarrow> n \<le> k)" using assms by (simp only: word_le_nat_alt u)
  show "((of_nat k :: u32) < of_nat n + of_nat DEFAULT_QUEUE_SIZE \<longleftrightarrow> k < n + 6)" unfolding s using assms by (simp only: word_less_nat_alt u)
  show "unat ((of_nat k :: u32) - of_nat n) = k - n" if "n \<le> k"
    using u [of "k - n"] assms that by (simp add: of_nat_diff)
qed

text \<open>Where a packet is stored; the size and the tail of the window play no part in what follows.\<close>

lemma accept_data_stores:
  assumes "gw_recv_counter w = of_nat n" "n < 60000" "k < 60000" "length (gw_packet_buffer w) = 6"
  shows "\<exists>w'. accept_data (data_packet data k) w = Inr w' \<and> gw_recv_counter w' = of_nat n \<and> gw_head w' = gw_head w \<and>
    gw_packet_buffer w' = (if n \<le> k \<and> k < n + 6
       then (gw_packet_buffer w)[(unat (gw_head w) + (k - n)) mod 6 := data_packet data k] else gw_packet_buffer w)"
proof (cases "n \<le> k \<and> k < n + 6")
  case False
  then show ?thesis using assms u32_nat [of n k] by (auto simp: accept_data_def Let_def)
next
  case True
  let ?i = "(unat (gw_head w) + (k - n)) mod 6"
  let ?buf = "(gw_packet_buffer w)[?i := data_packet data k]"
  have wi: "(unat (gw_head w) + unat (gp_seq_number (data_packet data k) - gw_recv_counter w)) mod DEFAULT_QUEUE_SIZE = ?i"
    using assms True by (simp only: data_packet_sel u32_nat DEFAULT_QUEUE_SIZE_def)
  have set: "arr_set (gw_packet_buffer w) (int ?i) (data_packet data k) = Inr ?buf" using assms(4) by simp
  let ?g = "?buf ! ((unat (gw_head w) + unat (gw_size w)) mod DEFAULT_QUEUE_SIZE)"
  have get: "arr_get ?buf (int ((unat (gw_head w) + unat (gw_size w)) mod DEFAULT_QUEUE_SIZE)) = Inr ?g"
    using assms(4) by (simp add: DEFAULT_QUEUE_SIZE_def)
  have cond: "gw_recv_counter w \<le> gp_seq_number (data_packet data k) \<and>
      gp_seq_number (data_packet data k) < gw_recv_counter w + of_nat DEFAULT_QUEUE_SIZE"
    using True u32_nat [of n k] assms by simp
  show ?thesis
    unfolding accept_data_def Let_def wi set bindR_Inr get if_P [OF cond] if_P [OF True] using assms(1) by simp
qed

lemma accept_data_holds:
  assumes "window_holds data n B w" "n \<notin> B" "k < 255"
  shows "\<exists>w'. accept_data (data_packet data k) w = Inr w' \<and>
     window_holds data n (if n \<le> k \<and> k < n + 6 then insert k B else B) w'"
proof -
  have w: "gw_recv_counter w = of_nat n" "gw_head w = of_nat n" "n \<le> 255" "length (gw_packet_buffer w) = 6"
    using assms(1) by (simp_all add: window_holds_def)
  then have "n < 60000" "k < 60000" using assms(3) by simp_all
  from accept_data_stores [OF w(1) this w(4), of data] obtain w' where
    w': "accept_data (data_packet data k) w = Inr w'" "gw_recv_counter w' = of_nat n" "gw_head w' = of_nat n"
      "gw_packet_buffer w' = (if n \<le> k \<and> k < n + 6 then (gw_packet_buffer w)[(n + (k - n)) mod 6 := data_packet data k] else gw_packet_buffer w)"
    unfolding w(2) unat_small_byte [OF w(3)] by blast
  have "window_holds data n (if n \<le> k \<and> k < n + 6 then insert k B else B) w'"
  proof (cases "n \<le> k \<and> k < n + 6")
    case False
    have "gw_packet_buffer w' = gw_packet_buffer w" using w'(4) unfolding if_not_P [OF False] .
    then show ?thesis unfolding if_not_P [OF False] using assms(1) w w'(2,3) by (simp add: window_holds_def)
  next
    case True
    show ?thesis unfolding if_P [OF True] window_holds_def
    proof (intro conjI allI impI)
      fix j :: nat assume j: "j < 6"
      show "let f = gw_packet_buffer w' ! ((n + j) mod 6) in
          if n + j \<in> insert k B then f = data_packet data (n + j) else gp_type f = gbn_packet_type_uninitialized"
      proof (cases "j = k - n")
        case eq: True
        then show ?thesis using True w(4) w'(4) by simp
      next
        case False
        have "k - n < 6" using True by linarith
        then have "(n + (k - n)) mod 6 \<noteq> (n + j) mod 6" using slots_differ [OF _ j] False by blast
        then show ?thesis using assms(1) j False True w'(4) by (auto simp: window_holds_def Let_def)
      qed
    qed (use w w' assms True in \<open>auto simp: window_holds_def\<close>)
  qed
  then show ?thesis using w'(1) by blast
qed

text \<open>The acknowledgement that says that \<open>n\<close> is expected next.\<close>

definition ack_of :: "nat \<Rightarrow> byte list" where
  "ack_of n = store_u32 (htonl gbn_packet_type_ack) @ store_u32 (htonl (of_nat n - 1)) @ store_u32 (htonl 0)"

lemma ack_datagram_ack: "ack_datagram gbn_packet_type_ack (of_nat n - 1) = Inr (ack_of n)"
  by (simp add: ack_datagram_def gbn_socket_serialize_def copy_from_def ack_of_def SERIALIZE_SIZE_def SERIALIZE_OVERHEAD_def)

text \<open>The simulation relation, kept by every data packet below 255.\<close>

definition receiving :: "(nat \<Rightarrow> byte list) \<Rightarrow> nat \<times> nat set \<Rightarrow> gbn_socket \<Rightarrow> bool" where
  "receiving data = (\<lambda>(n, B) sock. window_holds data n B (gs_receive_window sock) \<and> n \<notin> B \<and> \<not> gs_read_closed sock \<and>
     gs_receive_buffer sock = map (data_block_of data) [0..<n] \<and> \<not> gs_closed sock \<and> gs_current_block_ptr sock = 0)"

lemma handle_data_receiving:
  assumes "receiving data s sock" "k < 255" "\<forall>k. length (data k) \<le> DEFAULT_PACKET_SIZE"
  shows "\<exists>sock'. handle_packet (data_packet data k) sock = Inr (True, sock') \<and> receiving data (sr_step k s) sock' \<and>
    gs_out sock' = gs_out sock @ [ack_of (fst (sr_step k s))]"
proof (cases s)
  case (Pair n B)
  let ?B = "if n \<le> k \<and> k < n + 6 then insert k B else B"
  let ?n = "sr_advance n ?B"
  from assms(1) have r: "window_holds data n B (gs_receive_window sock)" "n \<notin> B" "\<not> gs_read_closed sock"
      "gs_receive_buffer sock = map (data_block_of data) [0..<n]" "\<not> gs_closed sock" "gs_current_block_ptr sock = 0"
    unfolding Pair receiving_def by simp_all
  from accept_data_holds [OF r(1,2) assms(2)] obtain w where w: "accept_data (data_packet data k) (gs_receive_window sock) = Inr w"
    "window_holds data n ?B w" by blast
  from deliver_loop_holds [OF w(2) assms(3) r(4)] obtain w' where
    w': "deliver_loop w (gs_receive_buffer sock) = Inr (w', map (data_block_of data) [0..<?n])" "window_holds data ?n ?B w'" "?n \<notin> ?B"
    by blast
  have s: "sr_step k s = (?n, ?B)"
    using r(2) by (auto simp: Pair sr_step_def DEFAULT_QUEUE_SIZE_def sr_advance_stop)
  let ?sock = "send_datagram (ack_of ?n) (sock\<lparr>gs_receive_window := w', gs_receive_buffer := map (data_block_of data) [0..<?n]\<rparr>)"
  have "gw_recv_counter w' = of_nat ?n" using w'(2) by (simp add: window_holds_def)
  then have "handle_packet (data_packet data k) sock = Inr (True, ?sock)"
    by (simp add: handle_packet_def handle_data_def w(1) w'(1) ack_datagram_ack)
  moreover have "receiving data (sr_step k s) ?sock"
    unfolding s receiving_def using w'(2,3) r(3,5,6) by (simp add: send_datagram_def)
  moreover have "gs_out ?sock = gs_out sock @ [ack_of (fst (sr_step k s))]" unfolding s by (simp add: send_datagram_def)
  ultimately show ?thesis by blast
qed


section \<open>From datagrams to the queue of the application\<close>

definition data_datagram :: "(nat \<Rightarrow> byte list) \<Rightarrow> nat \<Rightarrow> byte list" where
  "data_datagram data k = (case gbn_socket_serialize (data_packet data k) SERIALIZE_SIZE of Inl _ \<Rightarrow> [] | Inr (n, d) \<Rightarrow> d)"

lemma data_datagram_wire:
  assumes "length (data k) \<le> DEFAULT_PACKET_SIZE"
  shows "gbn_socket_deserialize (data_datagram data k @ junk) (length (data_datagram data k)) = Inr (data_packet data k)"
proof -
  have "unat (of_nat (length (data k)) :: u32) = length (data k)"
    using assms by (simp add: unat_of_nat DEFAULT_PACKET_SIZE_def take_bit_nat_eq_self)
  then show ?thesis
    using packet_wire [of "data_packet data k" "data k" junk] assms by (auto simp: data_datagram_def)
qed

lemma read_thread_prefix_receiving:
  assumes "\<forall>k. length (data k) \<le> DEFAULT_PACKET_SIZE" "\<forall>k\<in>set ks. k < 255" "receiving data s sock"
  shows "\<exists>buf' sock'. read_thread (map (\<lambda>k. Some (data_datagram data k)) ks @ rest) buf sock = read_thread rest buf' sock' \<and>
    receiving data (snd (sr_run ks s)) sock' \<and> gs_out sock' = gs_out sock @ map ack_of (fst (sr_run ks s))"
  using assms(2,3)
proof (induction ks arbitrary: s sock buf)
  case (Cons k ks)
  from handle_data_receiving [OF Cons.prems(2) _ assms(1), of k] Cons.prems(1) obtain sock1 where
    h: "handle_packet (data_packet data k) sock = Inr (True, sock1)" "receiving data (sr_step k s) sock1"
      "gs_out sock1 = gs_out sock @ [ack_of (fst (sr_step k s))]" by auto
  let ?d = "data_datagram data k"
  have "\<not> gs_read_closed sock" using Cons.prems(2) by (auto simp: receiving_def split: prod.splits)
  then have r: "read_thread_round (Some ?d) buf sock = Inr (True, ?d @ drop (length ?d) buf, sock1)"
    by (simp add: read_thread_round_def data_datagram_wire assms(1) h(1))
  have "read_thread (map (\<lambda>k. Some (data_datagram data k)) (k # ks) @ rest) buf sock =
      read_thread (map (\<lambda>k. Some (data_datagram data k)) ks @ rest) (?d @ drop (length ?d) buf) sock1" by (simp add: r)
  moreover have "sr_run (k # ks) s = (fst (sr_step k s) # fst (sr_run ks (sr_step k s)), snd (sr_run ks (sr_step k s)))"
    by (simp add: Let_def split: prod.splits)
  ultimately show ?case
    using Cons.IH [OF _ h(2), of "?d @ drop (length ?d) buf"] Cons.prems(1) h(3) by simp
qed auto

lemma read_thread_receiving:
  assumes "\<forall>k. length (data k) \<le> DEFAULT_PACKET_SIZE" "\<forall>k\<in>set ks. k < 255" "receiving data s sock"
  shows "\<exists>buf' sock'. read_thread (map (\<lambda>k. Some (data_datagram data k)) ks) buf sock = Inr (buf', sock') \<and>
    receiving data (snd (sr_run ks s)) sock' \<and> gs_out sock' = gs_out sock @ map ack_of (fst (sr_run ks s))"
  using read_thread_prefix_receiving [OF assms, of "[]" buf] by simp

lemma receiving_init: "receiving data (0, {}) init_gbn_socket"
  by (simp add: receiving_def window_holds_def init_gbn_socket_def init_gbn_window_def DEFAULT_QUEUE_SIZE_def empty_packet_def)

text \<open>The expected number never falls, and grows when the expected packet arrives.\<close>

lemma sr_advance_mono: "n \<le> sr_advance n B"
  by (simp add: sr_advance_def)

lemma sr_step_mono: "fst s \<le> fst (sr_step k s)"
  by (simp add: sr_step_def sr_advance_mono split: prod.splits)

lemma sr_run_Cons: "fst (snd (sr_run (k # ks) s)) = fst (snd (sr_run ks (sr_step k s)))"
  by (simp add: Let_def split: prod.splits)

lemma sr_run_mono: "fst s \<le> fst (snd (sr_run ks s))"
proof (induction ks arbitrary: s)
  case (Cons k ks)
  show ?case unfolding sr_run_Cons using sr_step_mono [of s k] Cons.IH [of "sr_step k s"] by simp
qed simp

lemma sr_step_expected: "fst s < fst (sr_step (fst s) s)"
  by (auto simp: sr_step_def sr_advance_def DEFAULT_QUEUE_SIZE_def upt_conv_Cons split: prod.splits)

lemma sr_run_in_order:
  "subseq [fst s..<m] ks \<Longrightarrow> m \<le> fst (snd (sr_run ks s))"
proof (induction ks arbitrary: s)
  case Nil
  then show ?case by (cases "fst s < m") (simp_all add: upt_conv_Cons)
next
  case (Cons k ks)
  have "subseq [fst (sr_step k s)..<m] ks"
  proof (cases "m \<le> fst s")
    case True
    then show ?thesis using sr_step_mono [of s k] by simp
  next
    case False
    then have u: "[fst s..<m] = fst s # [Suc (fst s)..<m]" by (simp add: upt_conv_Cons)
    have drop: "subseq [b..<m] [a..<m]" if "a \<le> b" for a b
    proof (cases "b \<le> m")
      case True
      then show ?thesis using that upt_add_eq_append [of a b "m - b"] by (metis le_add_diff_inverse list_emb_append2 subseq_order.order_refl)
    qed simp
    show ?thesis
    proof (cases "k = fst s")
      case True
      then have "subseq [Suc (fst s)..<m] ks" using Cons.prems u by simp
      moreover have "Suc (fst s) \<le> fst (sr_step k s)" using sr_step_expected [of s] True by simp
      ultimately show ?thesis using drop subseq_order.order_trans by blast
    next
      case False
      then have "subseq [fst s..<m] ks" using Cons.prems u by simp
      then show ?thesis using drop [OF sr_step_mono [of s k]] subseq_order.order_trans by blast
    qed
  qed
  then show ?case unfolding sr_run_Cons by (rule Cons.IH)
qed

section \<open>Beyond 255 packets\<close>

text \<open>The window as the code has it: per slot the number of the packet in it, if there is one.\<close>

fun slot_pop :: "nat \<Rightarrow> nat \<times> nat \<times> nat option list \<times> nat list \<Rightarrow> nat \<times> nat \<times> nat option list \<times> nat list" where
  "slot_pop 0 s = s"
| "slot_pop (Suc fuel) (c, h, m, ds) = (case m ! (h mod 6) of None \<Rightarrow> (c, h, m, ds)
     | Some k \<Rightarrow> slot_pop fuel (Suc c, Suc h mod 256, m[h mod 6 := None], ds @ [k]))"

definition slot_receive :: "nat \<Rightarrow> nat \<times> nat \<times> nat option list \<times> nat list \<Rightarrow> nat \<times> nat \<times> nat option list \<times> nat list" where
  "slot_receive k = (\<lambda>(c, h, m, ds). slot_pop 6
     (c, h, if c \<le> k \<and> k < c + 6 then m[(h + (k - c)) mod 6 := Some k] else m, ds))"

definition frame_is :: "(nat \<Rightarrow> byte list) \<Rightarrow> nat option \<Rightarrow> gbn_packet \<Rightarrow> bool" where
  "frame_is data x f = (case x of None \<Rightarrow> gp_type f = gbn_packet_type_uninitialized | Some k \<Rightarrow> f = data_packet data k)"

definition slots :: "(nat \<Rightarrow> byte list) \<Rightarrow> nat \<Rightarrow> nat \<Rightarrow> nat option list \<Rightarrow> gbn_window \<Rightarrow> bool" where
  "slots data c h m w \<longleftrightarrow> gw_recv_counter w = of_nat c \<and> unat (gw_head w) = h \<and> length m = 6 \<and>
     list_all2 (frame_is data) m (gw_packet_buffer w)"

lemma slot_pop_holds:
  assumes "slots data c h m w" "\<forall>k. length (data k) \<le> DEFAULT_PACKET_SIZE" "length (filter (\<lambda>x. x \<noteq> None) m) \<le> fuel"
    "slot_pop fuel (c, h, m, ds) = (c', h', m', ds')"
  shows "\<exists>w'. deliver_loop w (map (data_block_of data) ds) = Inr (w', map (data_block_of data) ds') \<and> slots data c' h' m' w'"
  using assms(1,3,4)
proof (induction fuel arbitrary: c h m w ds)
  case 0
  then have "filter (\<lambda>x. x \<noteq> None) m = []" by simp
  then have "m ! (h mod 6) = None" using "0.prems"(1) unfolding slots_def filter_empty_conv by (metis mod_less_divisor nth_mem zero_less_numeral)
  then have "gp_type (gw_packet_buffer w ! (h mod 6)) = gbn_packet_type_uninitialized"
    using "0.prems"(1) by (auto simp: slots_def frame_is_def dest!: list_all2_nthD [where p = "h mod 6"])
  moreover have "length (gw_packet_buffer w) = 6" "unat (gw_head w) = h"
    using "0.prems"(1) by (auto simp: slots_def dest!: list_all2_lengthD)
  ultimately have "deliver_loop w (map (data_block_of data) ds) = Inr (w, map (data_block_of data) ds)"
    by (subst deliver_loop.simps) (simp add: Let_def DEFAULT_QUEUE_SIZE_def)
  then show ?case using "0.prems" by auto
next
  case (Suc fuel)
  let ?i = "h mod 6" let ?f = "gw_packet_buffer w ! ?i"
  from Suc.prems(1) have w: "gw_recv_counter w = of_nat c" "unat (gw_head w) = h" "length m = 6" "list_all2 (frame_is data) m (gw_packet_buffer w)"
    by (simp_all add: slots_def)
  have len: "length (gw_packet_buffer w) = 6" using w(3,4) by (auto dest!: list_all2_lengthD)
  have fr: "frame_is data (m ! ?i) ?f" using list_all2_nthD [OF w(4), of ?i] w(3) by simp
  have get: "arr_get (gw_packet_buffer w) (int ?i) = Inr ?f" using len by simp
  show ?case
  proof (cases "m ! ?i")
    case None
    then have "gp_type ?f = gbn_packet_type_uninitialized" using fr by (simp add: frame_is_def)
    then have "deliver_loop w (map (data_block_of data) ds) = Inr (w, map (data_block_of data) ds)"
      by (subst deliver_loop.simps) (simp add: Let_def w(2) DEFAULT_QUEUE_SIZE_def get)
    then show ?thesis using Suc.prems None by auto
  next
    case (Some k)
    then have f: "?f = data_packet data k" using fr by (simp add: frame_is_def)
    let ?w = "w\<lparr>gw_recv_counter := gw_recv_counter w + 1, gw_head := gw_head w + 1, gw_size := gw_size w - 1,
             gw_packet_buffer := (gw_packet_buffer w)[?i := ?f\<lparr>gp_type := gbn_packet_type_uninitialized\<rparr>]\<rparr>"
    have eq: "deliver_loop w (map (data_block_of data) ds) = deliver_loop ?w (map (data_block_of data) (ds @ [k]))"
      using assms(2) by (subst deliver_loop.simps) (simp add: Let_def w(2) DEFAULT_QUEUE_SIZE_def get f push_block_def block_of_data_packet)
    have "unat (gw_head w + 1) = Suc h mod 256" using w(2) by (simp add: unat_word_ariths)
    moreover have "list_all2 (frame_is data) (m[?i := None]) (gw_packet_buffer ?w)"
      using w(4) by (simp add: list_all2_update_cong frame_is_def)
    ultimately have "slots data (Suc c) (Suc h mod 256) (m[?i := None]) ?w" using w by (simp add: slots_def)
    moreover have "length (filter (\<lambda>x. x \<noteq> None) (m[?i := None])) \<le> fuel"
      using filter_update_less [of ?i m "\<lambda>x. x \<noteq> None" None] Some w(3) Suc.prems(2) by simp
    moreover have "slot_pop fuel (Suc c, Suc h mod 256, m[?i := None], ds @ [k]) = (c', h', m', ds')" using Suc.prems(3) Some by simp
    ultimately show ?thesis unfolding eq by (rule Suc.IH)
  qed
qed

definition slot_rel :: "(nat \<Rightarrow> byte list) \<Rightarrow> nat \<times> nat \<times> nat option list \<times> nat list \<Rightarrow> gbn_socket \<Rightarrow> bool" where
  "slot_rel data = (\<lambda>(c, h, m, ds) sock. slots data c h m (gs_receive_window sock) \<and> \<not> gs_read_closed sock \<and>
     gs_receive_buffer sock = map (data_block_of data) ds)"


lemma slot_pop_grows: "slot_pop fuel (c, h, m, ds) = (c', h', m', ds') \<Longrightarrow> c' \<le> c + fuel"
proof (induction fuel arbitrary: c h m ds)
  case (Suc fuel)
  then show ?case by (fastforce split: option.splits)
qed simp

lemma slot_receive_holds:
  assumes "slot_rel data s sock" "\<forall>k. length (data k) \<le> DEFAULT_PACKET_SIZE" "fst s < 60000" "k < 60000"
  shows "\<exists>sock'. handle_packet (data_packet data k) sock = Inr (True, sock') \<and> slot_rel data (slot_receive k s) sock'"
proof -
  obtain c h m ds where s: "s = (c, h, m, ds)" by (cases s)
  obtain c' h' m' ds' where s': "slot_receive k s = (c', h', m', ds')" by (cases "slot_receive k s")
  let ?w = "gs_receive_window sock"
  from assms(1) have w: "gw_recv_counter ?w = of_nat c" "unat (gw_head ?w) = h" "length m = 6"
      "list_all2 (frame_is data) m (gw_packet_buffer ?w)" and r: "\<not> gs_read_closed sock" "gs_receive_buffer sock = map (data_block_of data) ds"
    unfolding s slot_rel_def slots_def by simp_all
  have len: "length (gw_packet_buffer ?w) = 6" using w(3,4) by (auto dest!: list_all2_lengthD)
  let ?m = "if c \<le> k \<and> k < c + 6 then m[(h + (k - c)) mod 6 := Some k] else m"
  from accept_data_stores [OF w(1) _ assms(4) len, of data] assms(3) obtain w1 where
    w1: "accept_data (data_packet data k) ?w = Inr w1" "gw_recv_counter w1 = of_nat c" "gw_head w1 = gw_head ?w"
      "gw_packet_buffer w1 = (if c \<le> k \<and> k < c + 6
       then (gw_packet_buffer ?w)[(h + (k - c)) mod 6 := data_packet data k] else gw_packet_buffer ?w)"
    unfolding w(2) s fst_conv by blast
  have "slots data c h ?m w1"
    using w w1 by (simp add: slots_def frame_is_def list_all2_update_cong)
  moreover have "length (filter (\<lambda>x. x \<noteq> None) ?m) \<le> 6"
    by (rule order.trans [OF length_filter_le]) (simp add: w(3))
  moreover have "slot_pop 6 (c, h, ?m, ds) = (c', h', m', ds')" using s' unfolding s slot_receive_def by simp
  ultimately obtain w2 where w2: "deliver_loop w1 (map (data_block_of data) ds) = Inr (w2, map (data_block_of data) ds')" "slots data c' h' m' w2"
    using slot_pop_holds [OF _ assms(2)] by blast
  let ?sock = "send_datagram (ack_of c') (sock\<lparr>gs_receive_window := w2, gs_receive_buffer := map (data_block_of data) ds'\<rparr>)"
  have "gw_recv_counter w2 = of_nat c'" using w2(2) by (simp add: slots_def)
  then have "handle_packet (data_packet data k) sock = Inr (True, ?sock)"
    by (simp add: handle_packet_def handle_data_def w1(1) r(2) w2(1) ack_datagram_ack)
  moreover have "slot_rel data (slot_receive k s) ?sock"
    unfolding s' slot_rel_def using w2(2) r(1) by (simp add: send_datagram_def)
  ultimately show ?thesis by blast
qed

lemma read_thread_slots:
  assumes "\<forall>k. length (data k) \<le> DEFAULT_PACKET_SIZE" "\<forall>k\<in>set ks. k < 60000" "slot_rel data s sock"
    "fst s + 6 * length ks < 60000"
  shows "\<exists>buf' sock'. read_thread (map (\<lambda>k. Some (data_datagram data k)) ks) buf sock = Inr (buf', sock') \<and>
    slot_rel data (fold slot_receive ks s) sock'"
  using assms(2,3,4)
proof (induction ks arbitrary: s sock buf)
  case (Cons k ks)
  from slot_receive_holds [OF Cons.prems(2) assms(1), of k] Cons.prems(1,3) obtain sock1 where
    h: "handle_packet (data_packet data k) sock = Inr (True, sock1)" "slot_rel data (slot_receive k s) sock1" by auto
  let ?d = "data_datagram data k"
  have "\<not> gs_read_closed sock" using Cons.prems(2) by (auto simp: slot_rel_def split: prod.splits)
  then have r: "read_thread_round (Some ?d) buf sock = Inr (True, ?d @ drop (length ?d) buf, sock1)"
    by (simp add: read_thread_round_def data_datagram_wire assms(1) h(1))
  have "fst (slot_receive k s) \<le> fst s + 6"
    by (cases s, cases "slot_receive k s") (simp only: slot_receive_def split fst_conv, rule slot_pop_grows)
  then show ?case
    using Cons.IH [OF _ h(2), of "?d @ drop (length ?d) buf"] Cons.prems(1,3) by (simp add: r)
qed auto

lemma slot_rel_init: "slot_rel data (0, 0, replicate 6 None, []) init_gbn_socket"
  by (simp add: slot_rel_def slots_def init_gbn_socket_def init_gbn_window_def DEFAULT_QUEUE_SIZE_def empty_packet_def
    frame_is_def eval_nat_numeral)

lemma slot_pop_numeral:
  "slot_pop (numeral v) (c, h, m, ds) = (case m ! (h mod 6) of None \<Rightarrow> (c, h, m, ds)
     | Some k \<Rightarrow> slot_pop (pred_numeral v) (Suc c, Suc h mod 256, m[h mod 6 := None], ds @ [k]))"
  by (simp only: numeral_eq_Suc slot_pop.simps)

lemma slot_receive_next:
  assumes "n < 255"
  shows "slot_receive n (n, n, replicate 6 None, [0..<n]) = (Suc n, Suc n, replicate 6 None, [0..<Suc n])"
proof -
  have "(replicate 6 None)[n mod 6 := Some n] ! (Suc n mod 6) = (None :: nat option)"
    using slots_differ [of 1 0 n] by (simp add: nth_list_update)
  moreover have "(replicate 6 None)[n mod 6 := Some n, n mod 6 := None] = (replicate 6 None :: nat option list)"
    by (simp add: list_update_overwrite) (metis list_update_id nth_replicate mod_less_divisor zero_less_numeral)
  ultimately show ?thesis using assms by (simp add: slot_receive_def slot_pop_numeral)
qed

lemma slot_receive_in_order: "n \<le> 255 \<Longrightarrow> fold slot_receive [0..<n] (0, 0, replicate 6 None, []) = (n, n, replicate 6 None, [0..<n])"
proof (induction n)
  case (Suc n)
  then show ?case using slot_receive_next [of n] by simp
qed simp

lemma six_slots: "replicate 6 (None :: nat option) = [None, None, None, None, None, None]"
  by (simp add: eval_nat_numeral)

lemma slot_receive_wrap:
  "fold slot_receive [256, 255, 256, 257, 258, 259] (255, 255, replicate 6 None, ds) =
    (261, 5, replicate 6 None, ds @ [255, 256, 257, 258, 259, 256])"
  unfolding six_slots by (simp add: slot_receive_def slot_pop_numeral)

section \<open>Properties\<close>

text \<open>
  C7. Whatever data packets with numbers below 255 arrive, in whatever order and with whatever losses
  and repetitions, the reader thread is a selective-repeat receiver: the application gets the first
  \<open>n\<close> packets in order, each once, where \<open>n\<close> is the number that the abstract receiver reaches; every
  packet is answered by the acknowledgement of what was delivered so far; and \<open>n\<close> is at least \<open>m\<close> if the
  packets below \<open>m\<close> arrive in order, between whatever others.
\<close>

theorem receiver_refines_selective_repeat:
  assumes "\<forall>k. length (data k) \<le> DEFAULT_PACKET_SIZE" "\<forall>k\<in>set ks. k < 255"
  shows "\<exists>buf' sock n. read_thread (map (\<lambda>k. Some (data_datagram data k)) ks) buf init_gbn_socket = Inr (buf', sock) \<and>
    n = fst (snd (sr_run ks (0, {}))) \<and>
    gs_receive_buffer sock = map (data_block_of data) [0..<n] \<and> gs_out sock = map ack_of (fst (sr_run ks (0, {}))) \<and>
    (\<forall>m. subseq [0..<m] ks \<longrightarrow> m \<le> n)"
proof -
  from read_thread_receiving [OF assms receiving_init] obtain buf' sock where
    "read_thread (map (\<lambda>k. Some (data_datagram data k)) ks) buf init_gbn_socket = Inr (buf', sock)"
    "receiving data (snd (sr_run ks (0, {}))) sock" "gs_out sock = gs_out init_gbn_socket @ map ack_of (fst (sr_run ks (0, {})))"
    by blast
  then show ?thesis using sr_run_in_order [of "(0, {})" _ ks] by (auto simp: receiving_def init_gbn_socket_def split: prod.splits)
qed

theorem receiver_refines_selective_repeat_witness:
  "\<exists>buf' sock. read_thread (map (\<lambda>k. Some (data_datagram (\<lambda>k. [of_nat k]) k)) [1, 0, 0, 2, 9, 5, 3]) [] init_gbn_socket = Inr (buf', sock) \<and>
    map db_data (gs_receive_buffer sock) = [[0], [1], [2], [3]] \<and>
    gs_out sock = map ack_of [0, 2, 2, 3, 3, 3, 4]"
proof -
  have r: "sr_run [1, 0, 0, 2, 9, 5, 3] (0, {}) = ([0, 2, 2, 3, 3, 3, 4], 4, {3, 5, 2, 0, 1})"
    by (simp add: sr_step_def sr_advance_def DEFAULT_QUEUE_SIZE_def upt_rec Let_def)
  have "\<exists>buf' sock. read_thread (map (\<lambda>k. Some (data_datagram (\<lambda>k. [of_nat k]) k)) [1, 0, 0, 2, 9, 5, 3]) [] init_gbn_socket = Inr (buf', sock) \<and>
    gs_receive_buffer sock = map (data_block_of (\<lambda>k. [of_nat k])) [0..<4] \<and> gs_out sock = map ack_of [0, 2, 2, 3, 3, 3, 4]"
    using receiver_refines_selective_repeat [of "\<lambda>k. [of_nat k]" "[1, 0, 0, 2, 9, 5, 3]" "[]"]
    unfolding r fst_conv snd_conv DEFAULT_PACKET_SIZE_def by auto
  moreover have "map db_data (map (data_block_of (\<lambda>k. [of_nat k])) [0..<4]) = [[0], [1], [2], [3]]"
    by (simp add: data_block_of_def upt_rec)
  ultimately show ?thesis by metis
qed

text \<open>
  C30. After 255 packets that arrive in order, the arrivals 256, 255, 256, 257, 258, 259 make the
  application get packet 256 a second time, in the place of packet 260, which the receiver will then
  never accept: \<^verbatim>\<open>_m_head\<close> wraps from 255 to 0, which is not the same slot modulo six, and the first
  copy of packet 256 stays behind in a slot that is used later.
\<close>

theorem receiver_redelivers_stale_frame:
  assumes "\<forall>k. length (data k) \<le> DEFAULT_PACKET_SIZE"
  shows "\<exists>buf' sock. read_thread (map (\<lambda>k. Some (data_datagram data k)) ([0..<255] @ [256, 255, 256, 257, 258, 259])) buf init_gbn_socket = Inr (buf', sock) \<and>
    gs_receive_buffer sock = map (data_block_of data) ([0..<260] @ [256]) \<and>
    gw_recv_counter (gs_receive_window sock) = 261"
proof -
  have "[0..<260] = [0..<255] @ [255, 256, 257, 258, 259]" using upt_add_eq_append [of 0 255 5] by (simp add: upt_rec)
  then have "fold slot_receive ([0..<255] @ [256, 255, 256, 257, 258, 259]) (0, 0, replicate 6 None, []) = (261, 5, replicate 6 None, [0..<260] @ [256])"
    using slot_receive_in_order [of 255] by (simp only: fold_append comp_apply slot_receive_wrap append.assoc append_Cons append_Nil)
  then show ?thesis
    using read_thread_slots [OF assms _ slot_rel_init, of "[0..<255] @ [256, 255, 256, 257, 258, 259]" buf]
    by (auto simp: slot_rel_def slots_def)
qed

theorem receiver_redelivers_stale_frame_witness:
  "\<exists>buf' sock. read_thread (map (\<lambda>k. Some (data_datagram (\<lambda>k. [of_nat (k div 3)]) k)) ([0..<255] @ [256, 255, 256, 257, 258, 259])) [] init_gbn_socket = Inr (buf', sock) \<and>
    gs_receive_buffer sock ! 260 = \<lparr>db_data = [85], db_closing = False\<rparr>"
proof -
  have l: "\<forall>k. length ((\<lambda>k. [of_nat (k div 3) :: byte]) k) \<le> DEFAULT_PACKET_SIZE" by (simp add: DEFAULT_PACKET_SIZE_def)
  have n: "map (data_block_of (\<lambda>k. [of_nat (k div 3)])) ([0..<260] @ [256]) ! 260 = \<lparr>db_data = [85], db_closing = False\<rparr>"
    by (simp only: nth_map length_append length_upt list.size nth_append) (simp add: data_block_of_def)
  from receiver_redelivers_stale_frame [OF l, of "[]"] show ?thesis by (metis (no_types, lifting) n)
qed

end
