(* ===== verification/GbnWriteProps.thy ===== *)
theory GbnWriteProps
  imports GbnWrite GbnReadProps
begin

text \<open>
  The sending side of the go-back-N socket as a system of its writer thread, the arrival of packets
  and the application: the invariant of the sending window, what acknowledgements do to it, and the
  two ways in which the code fails: a repeated acknowledgement when nothing is outstanding, and every
  retransmission.
\<close>

section \<open>Runs of a socket\<close>

definition ack_packet :: "u32 \<Rightarrow> gbn_packet" where
  "ack_packet a = \<lparr>gp_type = gbn_packet_type_ack, gp_seq_number = a, gp_size = 0, gp_payload = None\<rparr>"

text \<open>
  The runs considered: acknowledgements come while something is outstanding and name a packet that was
  sent; fewer than \<open>2 ^ 32\<close> packets are sent, and a write has less than \<open>2 ^ 32\<close> bytes.
\<close>

fun timely :: "gbn_event \<Rightarrow> gbn_socket \<Rightarrow> bool" where
  "timely (Arrival p) sock \<longleftrightarrow> (gp_type p = gbn_packet_type_ack \<longrightarrow>
     gw_size (gs_sending_window sock) \<noteq> 0 \<and> gp_seq_number p < gs_seq_number sock)"
| "timely (WriterStep t) sock \<longleftrightarrow> gs_seq_number sock < 4294967000"
| "timely (Write bytes) sock \<longleftrightarrow> int (length bytes) < 4294967296"
| "timely (Read len) sock \<longleftrightarrow> True"
| "timely Close sock \<longleftrightarrow> True"

inductive gbn_reachable :: "gbn_system \<Rightarrow> bool" where
  start: "gbn_reachable gbn_start"
| step: "gbn_reachable s \<Longrightarrow> timely e (sys_socket s) \<Longrightarrow> gbn_step e s = Inr s' \<Longrightarrow> gbn_reachable s'"

section \<open>The invariant of the sender\<close>

text \<open>
  \<open>c\<close> packets were sent, the last \<open>n\<close> of them are outstanding.  Packet \<open>k\<close> is in slot \<open>k mod 6\<close>, its
  payload is freed.
\<close>

definition frame_sent :: "nat \<Rightarrow> gbn_packet \<Rightarrow> bool" where
  "frame_sent k f \<longleftrightarrow> unat (gp_seq_number f) = k \<and> gp_size f \<noteq> 0 \<and> unat (gp_size f) \<le> DEFAULT_PACKET_SIZE"

definition window_ok :: "nat \<Rightarrow> nat \<Rightarrow> gbn_window \<Rightarrow> bool" where
  "window_ok c n w \<longleftrightarrow> unat (gw_size w) = n \<and> n \<le> 6 \<and> n \<le> c \<and> unat (gw_tail w) = c mod 6 \<and> unat (gw_head w) = (c - n) mod 6 \<and>
     length (gw_packet_buffer w) = 6 \<and> (\<forall>f \<in> set (gw_packet_buffer w). gp_payload f = None) \<and>
     (\<forall>k. c \<le> k + 6 \<and> k < c \<longrightarrow> frame_sent k (gw_packet_buffer w ! (k mod 6)))"

definition queue_ok :: "data_block list \<Rightarrow> bool" where
  "queue_ok q \<longleftrightarrow> (\<forall>b \<in> set q. db_closing b \<or> db_data b \<noteq> [] \<and> length (db_data b) \<le> DEFAULT_PACKET_SIZE)"

definition sender_ok :: "writer_state option \<Rightarrow> gbn_socket \<Rightarrow> bool" where
  "sender_ok st sock \<longleftrightarrow> unat (gs_seq_number sock) \<le> 4294967000 \<and> queue_ok (gs_sending_buffer sock) \<and>
     (\<exists>n. window_ok (unat (gs_seq_number sock)) n (gs_sending_window sock) \<and>
       (st = Some State_send_packet \<longrightarrow> n < 6) \<and> (st = Some State_block_on_queue \<longrightarrow> n = 0))"

section \<open>Acknowledgements\<close>

lemma word_of_unat: "unat w = n \<Longrightarrow> w = of_nat n"
  by auto

lemma sint_six: "n < 6 \<Longrightarrow> sint (of_nat n :: u32) = int n"
proof -
  assume "n < 6"
  then have "n \<in> {0, 1, 2, 3, 4, 5}" by auto
  then show ?thesis by auto
qed

lemma unat_byte_nat: "n < 256 \<Longrightarrow> unat (of_nat n :: byte) = n"
  by (simp add: unat_of_nat take_bit_nat_eq_self)

lemma handle_ack_outstanding:
  assumes "window_ok c n w" "c \<le> 4294967000" "c - n \<le> unat a" "unat a < c"
  shows "handle_ack a w = Inr (w\<lparr>gw_head := of_nat ((unat a + 1) mod 6), gw_size := of_nat (c - (unat a + 1))\<rparr>)"
    "window_ok c (c - (unat a + 1)) (w\<lparr>gw_head := of_nat ((unat a + 1) mod 6), gw_size := of_nat (c - (unat a + 1))\<rparr>)"
proof -
  from assms(1) have w: "unat (gw_size w) = n" "n \<le> 6" "n \<le> c" "unat (gw_head w) = (c - n) mod 6" "length (gw_packet_buffer w) = 6"
    and fr: "\<And>k. c \<le> k + 6 \<Longrightarrow> k < c \<Longrightarrow> unat (gp_seq_number (gw_packet_buffer w ! (k mod 6))) = k"
    by (auto simp: window_ok_def frame_sent_def)
  let ?h = "gp_seq_number (gw_packet_buffer w ! ((c - n) mod 6))" let ?d = "unat a - (c - n)"
  have h: "unat ?h = c - n" using fr [of "c - n"] w assms by simp
  have le: "?h \<le> a" "a < ?h + of_nat DEFAULT_QUEUE_SIZE"
  proof -
    show "?h \<le> a" using h assms(3) by (simp add: word_le_nat_alt)
    have "unat (?h + of_nat DEFAULT_QUEUE_SIZE) = c - n + 6" using h assms(2) by (simp add: unat_word_ariths DEFAULT_QUEUE_SIZE_def)
    then show "a < ?h + of_nat DEFAULT_QUEUE_SIZE" using w assms(3,4) by (simp add: word_less_nat_alt)
  qed
  have "unat (a - ?h) = ?d" using unat_sub [OF le(1)] h by simp
  then have sub: "a - ?h = of_nat ?d" by (rule word_of_unat)
  have d: "?d < 6" using w(2) assms(3,4) by linarith
  have s: "sint (a - ?h) = int ?d" unfolding sub by (rule sint_six [OF d])
  have g: "GET_SEND_FRAME_id_delta w a = Inr (int ?d)"
    using le s w(4,5) by (simp add: GET_SEND_FRAME_id_delta_def DEFAULT_QUEUE_SIZE_def)
  have hd: "(gw_head w + word_of_int (int ?d + 1)) mod of_nat DEFAULT_QUEUE_SIZE = of_nat ((unat a + 1) mod 6)"
  proof -
    have "(gw_head w + word_of_int (int ?d + 1)) mod of_nat DEFAULT_QUEUE_SIZE = (of_nat (((c - n) mod 6 + (?d + 1)) mod 6) :: byte)"
    proof -
      have "gw_head w = of_nat ((c - n) mod 6)" using w(4) by (rule word_of_unat)
      then have "gw_head w + word_of_int (int ?d + 1) = of_nat ((c - n) mod 6 + (?d + 1))" by simp
      moreover have "(c - n) mod 6 + (?d + 1) < 256" using d mod_less_divisor [of 6 "c - n"] by linarith
      ultimately have "unat (gw_head w + word_of_int (int ?d + 1)) = (c - n) mod 6 + (?d + 1)" by (simp only: unat_byte_nat)
      then have "unat ((gw_head w + word_of_int (int ?d + 1)) mod of_nat DEFAULT_QUEUE_SIZE) = ((c - n) mod 6 + (?d + 1)) mod 6"
        unfolding unat_mod_distrib by (simp add: DEFAULT_QUEUE_SIZE_def)
      then show ?thesis by (rule word_of_unat)
    qed
    also have "((c - n) mod 6 + (?d + 1)) mod 6 = (c - n + (?d + 1)) mod 6" by (rule mod_add_left_eq)
    also have "c - n + (?d + 1) = unat a + 1" using assms(3) by simp
    finally show ?thesis .
  qed
  have sz: "gw_size w - word_of_int (int ?d + 1) = of_nat (c - (unat a + 1))"
  proof -
    have "gw_size w = of_nat n" using w(1) by (rule word_of_unat)
    then have "gw_size w - word_of_int (int ?d + 1) = of_nat n - of_nat (?d + 1)" by simp
    also have "\<dots> = of_nat (n - (?d + 1))" using w(2,3) assms(3,4) by (subst of_nat_diff) auto
    also have "n - (?d + 1) = c - (unat a + 1)" using w(2,3) assms(3,4) by linarith
    finally show ?thesis .
  qed
  show "handle_ack a w = Inr (w\<lparr>gw_head := of_nat ((unat a + 1) mod 6), gw_size := of_nat (c - (unat a + 1))\<rparr>)"
    unfolding handle_ack_def g bindR_Inr Let_def using hd sz by simp
  show "window_ok c (c - (unat a + 1)) (w\<lparr>gw_head := of_nat ((unat a + 1) mod 6), gw_size := of_nat (c - (unat a + 1))\<rparr>)"
  proof -
    have "c - (unat a + 1) < 6" using w(2) assms(3,4) by linarith
    then have "unat (of_nat (c - (unat a + 1)) :: byte) = c - (unat a + 1)" by (intro unat_byte_nat) simp
    moreover have "unat (of_nat ((unat a + 1) mod 6) :: byte) = (unat a + 1) mod 6"
      by (rule unat_byte_nat) (rule less_trans [OF mod_less_divisor], simp_all)
    moreover have "c - (c - (unat a + 1)) = unat a + 1" using assms(4) by simp
    ultimately show ?thesis using assms(1) \<open>c - (unat a + 1) < 6\<close> unfolding window_ok_def
      by (simp del: of_nat_diff of_nat_Suc of_nat_add)
  qed
qed

lemma handle_ack_old:
  assumes "window_ok c n w" "c \<le> 4294967000" "n \<noteq> 0" "unat a < c - n"
  shows "handle_ack a w = Inr w"
proof -
  from assms(1) have w: "n \<le> 6" "n \<le> c" "unat (gw_head w) = (c - n) mod 6" "length (gw_packet_buffer w) = 6"
    and fr: "\<And>k. c \<le> k + 6 \<Longrightarrow> k < c \<Longrightarrow> unat (gp_seq_number (gw_packet_buffer w ! (k mod 6))) = k"
    by (auto simp: window_ok_def frame_sent_def)
  have "unat (gp_seq_number (gw_packet_buffer w ! ((c - n) mod 6))) = c - n" using fr [of "c - n"] w assms by simp
  then have "\<not> gp_seq_number (gw_packet_buffer w ! ((c - n) mod 6)) \<le> a" using assms(4) by (simp add: word_le_nat_alt)
  then show ?thesis using w by (simp add: handle_ack_def GET_SEND_FRAME_id_delta_def DEFAULT_QUEUE_SIZE_def)
qed

text \<open>The same acknowledgement again, when nothing is outstanding any more.\<close>

lemma handle_ack_again:
  assumes "window_ok c 0 w" "c \<le> 4294967000" "6 \<le> c" "unat a + 1 = c"
  shows "handle_ack a w = Inr (w\<lparr>gw_size := 250\<rparr>)"
proof -
  from assms(1) have w: "unat (gw_size w) = 0" "unat (gw_head w) = c mod 6" "length (gw_packet_buffer w) = 6"
    and fr: "\<And>k. c \<le> k + 6 \<Longrightarrow> k < c \<Longrightarrow> unat (gp_seq_number (gw_packet_buffer w ! (k mod 6))) = k"
    by (auto simp: window_ok_def frame_sent_def)
  let ?h = "gp_seq_number (gw_packet_buffer w ! (c mod 6))"
  have "(c - 6) mod 6 = c mod 6" using assms(3) by (metis le_mod_geq)
  then have h: "unat ?h = c - 6" using fr [of "c - 6"] assms(3) by simp
  have le: "?h \<le> a" "a < ?h + of_nat DEFAULT_QUEUE_SIZE"
  proof -
    show "?h \<le> a" using h assms(4) by (simp add: word_le_nat_alt)
    have "unat (?h + of_nat DEFAULT_QUEUE_SIZE) = c" using h assms(2,3) by (simp add: unat_word_ariths DEFAULT_QUEUE_SIZE_def)
    then show "a < ?h + of_nat DEFAULT_QUEUE_SIZE" using assms(4) by (simp add: word_less_nat_alt)
  qed
  have "unat (a - ?h) = 5" using unat_sub [OF le(1)] h assms(3,4) by simp
  then have "a - ?h = of_nat 5" by (rule word_of_unat)
  then have "sint (a - ?h) = 5" by simp
  then have g: "GET_SEND_FRAME_id_delta w a = Inr 5"
    using le w by (simp add: GET_SEND_FRAME_id_delta_def DEFAULT_QUEUE_SIZE_def)
  have "gw_size w = 0" using word_of_unat [OF w(1)] by simp
  moreover have "(gw_head w + 6) mod 6 = gw_head w"
  proof -
    have "unat (gw_head w) < 6" using w(2) by simp
    then have "unat (gw_head w) \<in> {0, 1, 2, 3, 4, 5}" by auto
    then have "gw_head w \<in> {0, 1, 2, 3, 4, 5}" by (auto dest: word_of_unat)
    then show ?thesis by auto
  qed
  ultimately show ?thesis unfolding handle_ack_def g by (simp add: DEFAULT_QUEUE_SIZE_def)
qed


section \<open>Sending\<close>

lemma send_packet_sends:
  assumes "window_ok (unat (gs_seq_number sock)) n (gs_sending_window sock)" "n < 6" "unat (gs_seq_number sock) < 4294967000"
    "gs_sending_buffer sock = b # q" "\<not> db_closing b" "db_data b \<noteq> []" "length (db_data b) \<le> DEFAULT_PACKET_SIZE"
  shows "\<exists>w. send_packet sock = Inr (Some State_is_win_full_q,
      send_datagram (data_datagram (\<lambda>_. db_data b) (unat (gs_seq_number sock)))
        (sock\<lparr>gs_sending_buffer := q, gs_seq_number := gs_seq_number sock + 1, gs_sending_window := w\<rparr>)) \<and>
    window_ok (Suc (unat (gs_seq_number sock))) (Suc n) w"
proof -
  let ?c = "unat (gs_seq_number sock)" let ?w = "gs_sending_window sock"
  let ?p = "data_packet (\<lambda>_. db_data b) ?c" let ?i = "?c mod 6"
  from assms(1) have w: "unat (gw_size ?w) = n" "n \<le> ?c" "unat (gw_tail ?w) = ?i" "unat (gw_head ?w) = (?c - n) mod 6"
      "length (gw_packet_buffer ?w) = 6" "\<forall>f \<in> set (gw_packet_buffer ?w). gp_payload f = None"
    and fr: "\<And>k. ?c \<le> k + 6 \<Longrightarrow> k < ?c \<Longrightarrow> frame_sent k (gw_packet_buffer ?w ! (k mod 6))"
    by (auto simp: window_ok_def frame_sent_def)
  have sz: "unat (of_nat (length (db_data b)) :: u32) = length (db_data b)"
    using assms(7) by (simp add: unat_of_nat DEFAULT_PACKET_SIZE_def take_bit_nat_eq_self)
  then have ser: "gbn_socket_serialize ?p SERIALIZE_SIZE = Inr (length (data_datagram (\<lambda>_. db_data b) ?c), data_datagram (\<lambda>_. db_data b) ?c)"
    using packet_wire [of ?p "db_data b" "[]"] assms(7) by (auto simp: data_datagram_def)
  let ?w' = "?w\<lparr>gw_tail := of_nat ((?i + 1) mod 6), gw_size := gw_size ?w + 1, gw_packet_buffer := (gw_packet_buffer ?w)[?i := ?p\<lparr>gp_payload := None\<rparr>]\<rparr>"
  have "send_packet sock = Inr (Some State_is_win_full_q, send_datagram (data_datagram (\<lambda>_. db_data b) ?c)
        (sock\<lparr>gs_sending_buffer := q, gs_seq_number := gs_seq_number sock + 1, gs_sending_window := ?w'\<rparr>))"
    unfolding send_packet_def assms(4) using assms(5) w(3,5) ser by (simp add: Let_def data_packet_def DEFAULT_QUEUE_SIZE_def)
  moreover have "window_ok (Suc ?c) (Suc n) ?w'"
    unfolding window_ok_def
  proof (intro conjI allI impI)
    show "unat (gw_size ?w') = Suc n" using w(1) assms(2) by (simp add: unat_word_ariths)
    have "unat (of_nat ((?i + 1) mod 6) :: byte) = (?i + 1) mod 6"
      by (rule unat_byte_nat) (rule less_trans [OF mod_less_divisor], simp_all)
    then show "unat (gw_tail ?w') = Suc ?c mod 6" by (simp add: mod_Suc_eq del: of_nat_Suc)
    show "\<forall>f \<in> set (gw_packet_buffer ?w'). gp_payload f = None"
      using w(6) by (auto dest!: set_update_subset_insert [THEN subsetD])
    fix k assume k: "Suc ?c \<le> k + 6 \<and> k < Suc ?c"
    show "frame_sent k (gw_packet_buffer ?w' ! (k mod 6))"
    proof (cases "k = ?c")
      case True
      have "of_nat (length (db_data b)) \<noteq> (0 :: u32)" using sz assms(6) by (metis length_0_conv unat_0)
      then show ?thesis using True w(5) sz assms(7) by (simp add: frame_sent_def)
    next
      case False
      then have "k < ?c" using k by simp
      have "?c - k < 6" using k by linarith
      then have "k mod 6 \<noteq> ?i" using slots_differ [of "0" "?c - k" k] \<open>k < ?c\<close> by simp
      then show ?thesis using fr [of k] k False by simp
    qed
  qed (use assms w in auto)
  ultimately show ?thesis by blast
qed

text \<open>The first frame that is sent again has a payload that was freed.\<close>

lemma retransmit_freed_frame:
  assumes "gw_size (gs_sending_window sock) \<noteq> 0" "unat (gw_head (gs_sending_window sock)) = k mod 6"
    "length (gw_packet_buffer (gs_sending_window sock)) = 6" "frame_sent k (gw_packet_buffer (gs_sending_window sock) ! (k mod 6))"
    "\<forall>f \<in> set (gw_packet_buffer (gs_sending_window sock)). gp_payload f = None"
  shows "retransmit sock = Inl UseAfterFree"
proof -
  let ?w = "gs_sending_window sock" let ?f = "gw_packet_buffer ?w ! (k mod 6)"
  have "gp_payload ?f = None" using assms(3,5) by simp
  then have "gbn_socket_serialize ?f SERIALIZE_SIZE = Inl UseAfterFree"
    using assms(4) by (auto simp: gbn_socket_serialize_def copy_from_def frame_sent_def unat_eq_zero SERIALIZE_SIZE_def)
  moreover have "arr_get (gw_packet_buffer ?w) (int (k mod 6)) = Inr ?f" using assms(3) by simp
  ultimately have "retransmit_loop (Suc 5) (k mod 6) sock = Inl UseAfterFree"
    by (simp only: retransmit_loop.simps bindR_Inl bindR_Inr)
  then show ?thesis using assms(1,2) by (simp add: retransmit_def DEFAULT_QUEUE_SIZE_def)
qed

lemma retransmit_freed:
  assumes "window_ok c n (gs_sending_window sock)" "n \<noteq> 0"
  shows "retransmit sock = Inl UseAfterFree"
proof (rule retransmit_freed_frame)
  show "gw_size (gs_sending_window sock) \<noteq> 0" using assms by (auto simp: window_ok_def)
  have "c \<le> c - n + 6 \<and> c - n < c" using assms by (auto simp: window_ok_def)
  then show "frame_sent (c - n) (gw_packet_buffer (gs_sending_window sock) ! ((c - n) mod 6))"
    using assms(1) by (simp add: window_ok_def)
qed (use assms(1) in \<open>simp_all add: window_ok_def\<close>)

section \<open>Every step keeps the invariant\<close>

lemma handle_data_sender:
  "handle_data p sock = Inr sock' \<Longrightarrow> gs_sending_window sock' = gs_sending_window sock \<and>
     gs_sending_buffer sock' = gs_sending_buffer sock \<and> gs_seq_number sock' = gs_seq_number sock"
  by (auto simp: handle_data_def bindR_eq_Inr send_datagram_def)

lemma queue_ok_simps [simp]: "queue_ok []" "queue_ok (b # q) \<longleftrightarrow> (db_closing b \<or> db_data b \<noteq> [] \<and> length (db_data b) \<le> DEFAULT_PACKET_SIZE) \<and> queue_ok q"
  "queue_ok (p @ q) \<longleftrightarrow> queue_ok p \<and> queue_ok q"
  by (auto simp: queue_ok_def)

lemma sender_ok_cong:
  assumes "sender_ok st sock" "gs_sending_window sock' = gs_sending_window sock" "gs_seq_number sock' = gs_seq_number sock" "queue_ok (gs_sending_buffer sock')"
  shows "sender_ok st sock'"
  using assms by (simp add: sender_ok_def)

lemma handle_packet_sender:
  assumes "sender_ok st sock" "timely (Arrival p) sock" "handle_packet p sock = Inr (go, sock')"
  shows "sender_ok st sock'"
proof -
  from assms(1) obtain n where s: "unat (gs_seq_number sock) \<le> 4294967000" "queue_ok (gs_sending_buffer sock)"
    "window_ok (unat (gs_seq_number sock)) n (gs_sending_window sock)"
    "st = Some State_send_packet \<longrightarrow> n < 6" "st = Some State_block_on_queue \<longrightarrow> n = 0" by (auto simp: sender_ok_def)
  consider (ack) "gp_type p = gbn_packet_type_ack" | (data) "gp_type p \<noteq> gbn_packet_type_ack" "gp_type p = gbn_packet_type_data"
    | (other) "gp_type p \<noteq> gbn_packet_type_ack" "gp_type p \<noteq> gbn_packet_type_data" by blast
  then show ?thesis
  proof cases
    case ack
    let ?a = "gp_seq_number p" let ?c = "unat (gs_seq_number sock)"
    have "unat (gw_size (gs_sending_window sock)) = n" using s(3) by (simp add: window_ok_def)
    then have t: "n \<noteq> 0" "unat ?a < ?c" using assms(2) ack word_of_unat [of "gw_size (gs_sending_window sock)" 0]
      by (auto simp: word_less_nat_alt)
    obtain w n' where w: "handle_ack ?a (gs_sending_window sock) = Inr w" "window_ok ?c n' w" "n' \<le> n"
    proof (cases "?c - n \<le> unat ?a")
      case True
      have "?c - (unat ?a + 1) \<le> n" using True by linarith
      then show ?thesis using that handle_ack_outstanding [OF s(3,1) True t(2)] by blast
    next
      case False
      then show ?thesis using that handle_ack_old [OF s(3,1) t(1), of ?a] s(3) by auto
    qed
    have "sock' = sock\<lparr>gs_sending_window := w\<rparr>" using assms(3) ack w(1) by (simp add: handle_packet_def)
    then show ?thesis using s w(2,3) unfolding sender_ok_def by auto
  next
    case data
    then have "handle_data p sock = Inr sock'" using assms(3) by (auto simp: handle_packet_def bindR_eq_Inr)
    then show ?thesis using handle_data_sender [of p sock sock'] sender_ok_cong [OF assms(1), of sock'] s(2) by simp
  next
    case other
    then have "gs_sending_window sock' = gs_sending_window sock \<and> gs_seq_number sock' = gs_seq_number sock \<and> queue_ok (gs_sending_buffer sock')"
      using assms(3) s(2) by (auto simp: handle_packet_def bindR_eq_Inr send_datagram_def Let_def push_block_def split: if_splits)
    then show ?thesis using sender_ok_cong [OF assms(1)] by blast
  qed
qed

lemma writer_step_sender:
  assumes "sender_ok (Some st) sock" "timely (WriterStep t) sock" "writer_step t st sock = Inr (st', sock')"
  shows "sender_ok st' sock'"
proof -
  from assms(1) obtain n where s: "unat (gs_seq_number sock) \<le> 4294967000" "queue_ok (gs_sending_buffer sock)"
    "window_ok (unat (gs_seq_number sock)) n (gs_sending_window sock)"
    "st = State_send_packet \<longrightarrow> n < 6" "st = State_block_on_queue \<longrightarrow> n = 0" by (auto simp: sender_ok_def)
  then have sz: "unat (gw_size (gs_sending_window sock)) = n" by (simp add: window_ok_def)
  consider (send) "st = State_send_packet" | (retransmit) "st = State_retransmit" | (other) "st \<noteq> State_send_packet" "st \<noteq> State_retransmit" by blast
  then show ?thesis
  proof cases
    case send
    show ?thesis
    proof (cases "gs_sending_buffer sock")
      case Nil
      then show ?thesis using assms(1,3) send by (simp add: writer_step_def send_packet_def)
    next
      case (Cons b q)
      show ?thesis
      proof (cases "db_closing b")
        case True
        then have "st' = Some State_close_connection" "sock' = sock\<lparr>gs_sending_buffer := q\<rparr>"
          using assms(3) send Cons by (simp_all add: writer_step_def send_packet_def)
        then show ?thesis using s Cons by (auto simp: sender_ok_def)
      next
        case False
        let ?c = "unat (gs_seq_number sock)"
        have "n < 6" "?c < 4294967000" using s(4) send assms(2) by (simp_all add: word_less_nat_alt)
        from send_packet_sends [OF s(3) this Cons False] s(2) Cons False obtain w where
          "send_packet sock = Inr (Some State_is_win_full_q, send_datagram (data_datagram (\<lambda>_. db_data b) ?c)
            (sock\<lparr>gs_sending_buffer := q, gs_seq_number := gs_seq_number sock + 1, gs_sending_window := w\<rparr>))" "window_ok (Suc ?c) (Suc n) w"
          by auto
        moreover from this have "st' = Some State_is_win_full_q" "sock' = send_datagram (data_datagram (\<lambda>_. db_data b) ?c)
            (sock\<lparr>gs_sending_buffer := q, gs_seq_number := gs_seq_number sock + 1, gs_sending_window := w\<rparr>)"
          using assms(3) send by (simp_all add: writer_step_def)
        moreover have "unat (gs_seq_number sock + 1) = Suc ?c" using \<open>?c < 4294967000\<close> by (simp add: unat_word_ariths)
        ultimately show ?thesis using s(2) Cons \<open>?c < 4294967000\<close> by (auto simp: sender_ok_def send_datagram_def)
      qed
    qed
  next
    case retransmit
    have "n = 0" using retransmit_freed [OF s(3)] assms(3) retransmit by (cases "n = 0") (auto simp: writer_step_def)
    then have "gw_size (gs_sending_window sock) = 0" using word_of_unat [OF sz] by simp
    then have "st' = Some State_wait_on_read" "sock' = sock" using assms(3) retransmit by (simp_all add: writer_step_def retransmit_def)
    then show ?thesis using s by (auto simp: sender_ok_def)
  next
    case other
    have "gs_sending_window sock' = gs_sending_window sock \<and> gs_seq_number sock' = gs_seq_number sock \<and> gs_sending_buffer sock' = gs_sending_buffer sock \<and>
        (st' = Some State_send_packet \<longrightarrow> n < 6) \<and> (st' = Some State_block_on_queue \<longrightarrow> n = 0)"
      using assms(3) other sz s(5)
      by (cases st) (auto simp: writer_step_def window_empty_q_def block_on_queue_def is_win_full_q_def wait_on_read_def
        close_connection_def bindR_eq_Inr send_datagram_def DEFAULT_QUEUE_SIZE_def split: if_splits)
    then show ?thesis using s by (auto simp: sender_ok_def)
  qed
qed

lemma read_loop_sender:
  "read_loop len q acc sock = ReadBytes bs sock' \<Longrightarrow> gs_sending_window sock' = gs_sending_window sock \<and>
     gs_sending_buffer sock' = gs_sending_buffer sock \<and> gs_seq_number sock' = gs_seq_number sock \<and> gs_out sock' = gs_out sock"
  by (induction len q acc sock rule: read_loop.induct) (auto split: if_splits)

lemma gbn_socket_read_sender:
  "gbn_socket_read sock len = ReadBytes bs sock' \<Longrightarrow> gs_sending_window sock' = gs_sending_window sock \<and>
     gs_sending_buffer sock' = gs_sending_buffer sock \<and> gs_seq_number sock' = gs_seq_number sock \<and> gs_out sock' = gs_out sock"
  by (auto simp: gbn_socket_read_def Let_def dest: read_loop_sender split: if_splits list.splits)

lemma reachable_sender_ok: "gbn_reachable s \<Longrightarrow> sender_ok (sys_writer s) (sys_socket s)"
proof (induction rule: gbn_reachable.induct)
  case start
  have "window_ok 0 0 init_gbn_window" by (simp add: window_ok_def init_gbn_window_def DEFAULT_QUEUE_SIZE_def empty_packet_def)
  then show ?case by (auto simp: gbn_start_def sender_ok_def init_gbn_socket_def)
next
  case (step s e s')
  show ?case
  proof (cases e)
    case (WriterStep t)
    then show ?thesis using step writer_step_sender [of _ "sys_socket s" t]
      by (auto simp: gbn_step_def bindR_eq_Inr split: option.splits)
  next
    case (Arrival p)
    then show ?thesis using step handle_packet_sender [of "sys_writer s" "sys_socket s" p]
      by (auto simp: gbn_step_def bindR_eq_Inr split: if_splits)
  next
    case (Write bytes)
    then have "unat (of_nat (length bytes) :: u32) = length bytes" using step(2) by (simp add: unat_of_nat take_bit_nat_eq_self)
    with gbn_socket_write_ok [of "of_nat (length bytes)" bytes "sys_socket s"] obtain bs where
      b: "gbn_socket_write (sys_socket s) bytes (of_nat (length bytes)) = Inr (of_nat (length bytes), (sys_socket s)\<lparr>gs_sending_buffer := gs_sending_buffer (sys_socket s) @ bs\<rparr>)" "blocks_ok bs"
      by auto
    then have "queue_ok bs" by (auto simp: blocks_ok_def queue_ok_def)
    moreover have "s' = s\<lparr>sys_socket := (sys_socket s)\<lparr>gs_sending_buffer := gs_sending_buffer (sys_socket s) @ bs\<rparr>\<rparr>"
      using step(3) Write b(1) by (simp add: gbn_step_def)
    ultimately show ?thesis using step.IH by (simp add: sender_ok_def)
  next
    case (Read len)
    then show ?thesis using step gbn_socket_read_sender [of "sys_socket s" len]
      by (cases "gbn_socket_read (sys_socket s) len") (auto simp: gbn_step_def sender_ok_def)
  next
    case Close
    then show ?thesis using step by (auto simp: gbn_step_def gbn_socket_close_def sender_ok_def push_block_def)
  qed
qed

text \<open>The outstanding packets, oldest first.\<close>

definition outstanding :: "gbn_window \<Rightarrow> gbn_packet list" where
  "outstanding w = ring_list (gw_packet_buffer w) (unat (gw_head w)) (unat (gw_size w))"

lemma outstanding_frames:
  assumes "window_ok c n w"
  shows "outstanding w = map (\<lambda>k. gw_packet_buffer w ! (k mod 6)) [c - n..<c]"
proof (rule nth_equalityI)
  show "length (outstanding w) = length (map (\<lambda>k. gw_packet_buffer w ! (k mod 6)) [c - n..<c])"
    using assms by (simp add: outstanding_def window_ok_def)
  fix i assume "i < length (outstanding w)"
  then have i: "i < n" "c - n + i < c" using assms by (auto simp: outstanding_def window_ok_def)
  then have "map (\<lambda>k. gw_packet_buffer w ! (k mod 6)) [c - n..<c] ! i = gw_packet_buffer w ! ((c - n + i) mod 6)"
    by (simp add: nth_upt)
  then show "outstanding w ! i = map (\<lambda>k. gw_packet_buffer w ! (k mod 6)) [c - n..<c] ! i"
    using assms i(1) by (simp add: outstanding_def window_ok_def mod_add_left_eq)
qed

lemma outstanding_numbers:
  assumes "window_ok c n w"
  shows "map (unat \<circ> gp_seq_number) (outstanding w) = [c - n..<c]"
  unfolding outstanding_frames [OF assms] list.map_comp using assms
  by (intro map_idI) (auto simp: window_ok_def frame_sent_def)

section \<open>Concrete runs\<close>

fun timely_run :: "gbn_event list \<Rightarrow> gbn_system \<Rightarrow> gbn_system option" where
  "timely_run [] s = Some s"
| "timely_run (e # es) s =
     (if timely e (sys_socket s) then case gbn_step e s of Inl _ \<Rightarrow> None | Inr s' \<Rightarrow> timely_run es s' else None)"

lemma timely_run_reachable:
  "gbn_reachable s \<Longrightarrow> timely_run es s = Some s' \<Longrightarrow> gbn_reachable s'"
proof (induction es arbitrary: s)
  case (Cons e es)
  then show ?case using gbn_reachable.step [of s e] by (auto split: sum.splits if_splits)
qed simp

definition six_sent :: "gbn_event list" where
  "six_sent = [Write [7], Write [8], Write [9], Write [10], Write [11], Write [12]] @ [WriterStep False, WriterStep False,
    WriterStep False, WriterStep False, WriterStep False, WriterStep False, WriterStep False, WriterStep False,
    WriterStep False, WriterStep False, WriterStep False, WriterStep False, WriterStep False, WriterStep False]"

lemmas run_defs = gbn_step_def writer_step_def window_empty_q_def block_on_queue_def is_win_full_q_def wait_on_read_def send_packet_def
  gbn_socket_serialize_def copy_from_def gbn_socket_write_def push_block_def DEFAULT_QUEUE_SIZE_def DEFAULT_PACKET_SIZE_def SERIALIZE_SIZE_def SERIALIZE_OVERHEAD_def
  gbn_start_def init_gbn_socket_def init_gbn_window_def Let_def send_datagram_def empty_packet_def

lemma six_sent_run:
  "\<exists>s. timely_run six_sent gbn_start = Some s \<and> gw_size (gs_sending_window (sys_socket s)) = 6 \<and>
     gs_seq_number (sys_socket s) = 6 \<and> sys_writer s = Some State_wait_on_read"
  unfolding six_sent_def by (simp add: run_defs)

lemma six_sent_reachable:
  obtains s where "gbn_reachable s" "gw_size (gs_sending_window (sys_socket s)) = 6" "gs_seq_number (sys_socket s) = 6"
  using six_sent_run timely_run_reachable [OF gbn_reachable.start] by blast

lemma six_acked_run:
  "\<exists>s. timely_run (six_sent @ [Arrival (ack_packet 5)]) gbn_start = Some s \<and>
     gw_size (gs_sending_window (sys_socket s)) = 0 \<and> gs_seq_number (sys_socket s) = 6"
  unfolding six_sent_def by (simp add: run_defs ack_packet_def handle_packet_def handle_ack_def GET_SEND_FRAME_id_delta_def)

lemma timed_out_run:
  "\<exists>s. timely_run [Write [7], WriterStep False, WriterStep False, WriterStep False, WriterStep False, WriterStep True] gbn_start = Some s \<and>
     gw_size (gs_sending_window (sys_socket s)) = 1 \<and> sys_writer s = Some State_retransmit"
  by (simp add: run_defs)

section \<open>Properties\<close>

text \<open>
  In every run of a socket whose acknowledgements are timely, whatever the interleaving of the writer
  thread, arriving packets and the application, the sending window is sound: at most six packets are
  outstanding, they are the last ones sent in the order of their numbers, and the tail is behind them.
\<close>

lemma sender_window_invariant:
  assumes "gbn_reachable s"
  defines "w \<equiv> gs_sending_window (sys_socket s)" and "c \<equiv> unat (gs_seq_number (sys_socket s))"
  shows "unat (gw_size w) \<le> DEFAULT_QUEUE_SIZE \<and> unat (gw_size w) \<le> c \<and>
    map (unat \<circ> gp_seq_number) (outstanding w) = [c - unat (gw_size w)..<c] \<and>
    unat (gw_tail w) = (unat (gw_head w) + unat (gw_size w)) mod DEFAULT_QUEUE_SIZE"
proof -
  from reachable_sender_ok [OF assms(1)] obtain n where ok: "window_ok c n w" unfolding sender_ok_def w_def c_def by blast
  then have n: "unat (gw_size w) = n" "n \<le> 6" "n \<le> c" "unat (gw_tail w) = c mod 6" "unat (gw_head w) = (c - n) mod 6"
    by (simp_all add: window_ok_def)
  then have "unat (gw_tail w) = (unat (gw_head w) + n) mod 6" by (simp add: mod_add_left_eq)
  then show ?thesis using outstanding_numbers [OF ok] n by (simp add: DEFAULT_QUEUE_SIZE_def)
qed

lemma sender_window_invariant_example:
  "\<exists>s. gbn_reachable s \<and> gs_seq_number (sys_socket s) = 6 \<and>
     map (unat \<circ> gp_seq_number) (outstanding (gs_sending_window (sys_socket s))) = [0, 1, 2, 3, 4, 5]"
proof -
  obtain s where s: "gbn_reachable s" "gw_size (gs_sending_window (sys_socket s)) = 6" "gs_seq_number (sys_socket s) = 6"
    by (rule six_sent_reachable)
  moreover have "[0..<6] = [0, 1, 2, 3, 4, 5]" by (simp add: upt_rec)
  ultimately show ?thesis using sender_window_invariant [OF s(1)] by auto
qed

text \<open>
  An acknowledgement of an outstanding packet takes that packet and all before it out of the sending
  window and leaves the rest as it was; one of an older packet changes nothing while something is
  outstanding.
\<close>

lemma ack_drops_acknowledged:
  assumes "gbn_reachable s"
  defines "w \<equiv> gs_sending_window (sys_socket s)" and "c \<equiv> unat (gs_seq_number (sys_socket s))"
  assumes "unat a < c" "gw_size w \<noteq> 0"
  shows "\<exists>w'. handle_ack a w = Inr w' \<and> outstanding w' = filter (\<lambda>p. a < gp_seq_number p) (outstanding w)"
proof -
  from reachable_sender_ok [OF assms(1)] obtain n where ok: "window_ok c n w" and c: "c \<le> 4294967000"
    unfolding sender_ok_def w_def c_def by blast
  have n: "n \<noteq> 0" "n \<le> c" "n \<le> 6" using ok assms(5) word_of_unat [of "gw_size w" 0] by (auto simp: window_ok_def)
  have flt: "filter (\<lambda>p. a < gp_seq_number p) (outstanding w) = map (\<lambda>k. gw_packet_buffer w ! (k mod 6)) (filter (\<lambda>k. unat a < k) [c - n..<c])"
    unfolding outstanding_frames [OF ok] filter_map using ok
    by (intro arg_cong [where f = "map _"] filter_cong) (auto simp: window_ok_def frame_sent_def word_less_nat_alt)
  show ?thesis
  proof (cases "c - n \<le> unat a")
    case True
    let ?w = "w\<lparr>gw_head := of_nat ((unat a + 1) mod 6), gw_size := of_nat (c - (unat a + 1))\<rparr>"
    have "outstanding ?w = map (\<lambda>k. gw_packet_buffer w ! (k mod 6)) [unat a + 1..<c]"
      using outstanding_frames [OF handle_ack_outstanding(2) [OF ok c True assms(4)]] assms(4) by simp
    moreover have "filter (\<lambda>k. unat a < k) [c - n..<c] = [unat a + 1..<c]"
    proof -
      have "[c - n..<c] = [c - n..<unat a + 1] @ [unat a + 1..<c]"
        using True assms(4) upt_add_eq_append [of "c - n" "unat a + 1" "c - (unat a + 1)"] by simp
      moreover have "filter (\<lambda>k. unat a < k) [c - n..<unat a + 1] = []" by (auto simp: filter_empty_conv)
      moreover have "filter (\<lambda>k. unat a < k) [unat a + 1..<c] = [unat a + 1..<c]" by (auto simp: filter_id_conv)
      ultimately show ?thesis by (simp only: filter_append append_Nil)
    qed
    ultimately show ?thesis using handle_ack_outstanding(1) [OF ok c True assms(4)] flt by auto
  next
    case False
    then have "filter (\<lambda>k. unat a < k) [c - n..<c] = [c - n..<c]" by (auto simp: filter_id_conv)
    then show ?thesis using handle_ack_old [OF ok c n(1)] False flt outstanding_frames [OF ok] by auto
  qed
qed

lemma ack_drops_acknowledged_example:
  "\<exists>s w. gbn_reachable s \<and> handle_ack 3 (gs_sending_window (sys_socket s)) = Inr w \<and> length (outstanding w) \<le> 6"
proof -
  obtain s where s: "gbn_reachable s" "gw_size (gs_sending_window (sys_socket s)) = 6" "gs_seq_number (sys_socket s) = 6"
    by (rule six_sent_reachable)
  then have l: "length (outstanding (gs_sending_window (sys_socket s))) = 6" by (simp add: outstanding_def)
  from ack_drops_acknowledged [OF s(1), of 3] s(2,3) obtain w where
    "handle_ack 3 (gs_sending_window (sys_socket s)) = Inr w"
    "outstanding w = filter (\<lambda>p. 3 < gp_seq_number p) (outstanding (gs_sending_window (sys_socket s)))" by auto
  then show ?thesis using s(1) l length_filter_le by metis
qed



text \<open>
  C21. Every retransmission uses freed memory: in every run whose acknowledgements are timely, when
  the wait for an acknowledgement times out while packets are outstanding, the writer serialises a packet
  whose payload it freed after it had sent it first.
\<close>

theorem retransmission_uses_freed_memory:
  assumes "gbn_reachable s" "sys_writer s = Some State_retransmit" "gw_size (gs_sending_window (sys_socket s)) \<noteq> 0"
  shows "gbn_step (WriterStep t) s = Inl UseAfterFree"
proof -
  from reachable_sender_ok [OF assms(1)] obtain n where ok: "window_ok (unat (gs_seq_number (sys_socket s))) n (gs_sending_window (sys_socket s))"
    unfolding sender_ok_def by blast
  then have "n \<noteq> 0" using assms(3) word_of_unat [of "gw_size (gs_sending_window (sys_socket s))" 0] by (auto simp: window_ok_def)
  then show ?thesis using retransmit_freed [OF ok] assms(2) by (simp add: gbn_step_def writer_step_def)
qed

theorem retransmission_uses_freed_memory_witness:
  "\<exists>s. gbn_reachable s \<and> gbn_step (WriterStep False) s = Inl UseAfterFree"
proof -
  obtain s where "timely_run [Write [7], WriterStep False, WriterStep False, WriterStep False, WriterStep False, WriterStep True] gbn_start = Some s"
    and s: "gw_size (gs_sending_window (sys_socket s)) = 1" "sys_writer s = Some State_retransmit"
    using timed_out_run by blast
  then have r: "gbn_reachable s" using timely_run_reachable [OF gbn_reachable.start] by blast
  from retransmission_uses_freed_memory [OF r s(2)] s(1) show ?thesis using r by auto
qed

end
