(* ===== verification/GbnStream.thy ===== *)
theory GbnStream
  imports GbnWriteProps
begin

text \<open>
  Two sockets: what one application writes and what the other one gets, over a network that loses,
  repeats and reorders the datagrams of the writer.
\<close>

section \<open>What the writer has sent\<close>

text \<open>The sender's events: writes, reads, steps of the writer thread and acknowledgements.\<close>

fun sender_event :: "gbn_event \<Rightarrow> bool" where
  "sender_event (Arrival p) \<longleftrightarrow> gp_type p = gbn_packet_type_ack"
| "sender_event Close \<longleftrightarrow> False"
| "sender_event _ \<longleftrightarrow> True"

definition written :: "gbn_event list \<Rightarrow> byte list" where
  "written es = concat (map (\<lambda>e. case e of Write bytes \<Rightarrow> bytes | _ \<Rightarrow> []) es)"

definition payloads :: "byte list list \<Rightarrow> nat \<Rightarrow> byte list" where
  "payloads bs k = (if k < length bs then bs ! k else [])"

text \<open>\<open>bs\<close>: the payloads sent so far; they and the queue are what was written.\<close>

definition stream_inv :: "byte list list \<Rightarrow> byte list \<Rightarrow> writer_state option \<Rightarrow> gbn_socket \<Rightarrow> bool" where
  "stream_inv bs bytes st sock \<longleftrightarrow> length bs = unat (gs_seq_number sock) \<and> (\<forall>b \<in> set bs. length b \<le> DEFAULT_PACKET_SIZE) \<and>
     gs_out sock = map (data_datagram (payloads bs)) [0..<length bs] \<and>
     concat bs @ concat (map db_data (gs_sending_buffer sock)) = bytes \<and>
     (\<forall>b \<in> set (gs_sending_buffer sock). \<not> db_closing b) \<and> st \<noteq> Some State_close_connection"

lemma data_datagram_cong: "data k = data' k \<Longrightarrow> data_datagram data k = data_datagram data' k"
  by (simp add: data_datagram_def data_packet_def)

lemma payloads_snoc:
  "map (data_datagram (payloads (bs @ [b]))) [0..<Suc (length bs)] =
     map (data_datagram (payloads bs)) [0..<length bs] @ [data_datagram (\<lambda>_. b) (length bs)]"
  by (auto intro!: data_datagram_cong simp: payloads_def nth_append)

lemma stream_inv_writer:
  assumes "stream_inv bs bytes (Some st) sock" "sender_ok (Some st) sock" "timely (WriterStep t) sock"
    "writer_step t st sock = Inr (st', sock')"
  shows "\<exists>bs. stream_inv bs bytes st' sock'"
proof -
  from assms(2) obtain n where s: "queue_ok (gs_sending_buffer sock)"
    "window_ok (unat (gs_seq_number sock)) n (gs_sending_window sock)" "st = State_send_packet \<longrightarrow> n < 6"
    by (auto simp: sender_ok_def)
  from assms(1) have i: "length bs = unat (gs_seq_number sock)" "\<forall>b \<in> set bs. length b \<le> DEFAULT_PACKET_SIZE"
     "gs_out sock = map (data_datagram (payloads bs)) [0..<length bs]" "concat bs @ concat (map db_data (gs_sending_buffer sock)) = bytes"
     "\<forall>b \<in> set (gs_sending_buffer sock). \<not> db_closing b" "st \<noteq> State_close_connection"
    by (simp_all add: stream_inv_def)
  show ?thesis
  proof (cases "st = State_send_packet \<and> gs_sending_buffer sock \<noteq> []")
    case True
    then obtain b q where q: "gs_sending_buffer sock = b # q" by (cases "gs_sending_buffer sock") auto
    let ?c = "unat (gs_seq_number sock)"
    have b: "\<not> db_closing b" "db_data b \<noteq> []" "length (db_data b) \<le> DEFAULT_PACKET_SIZE" "?c < 4294967000" "n < 6"
      using i(5) s(1,3) True assms(3) by (auto simp: q word_less_nat_alt)
    from send_packet_sends [OF s(2) b(5,4) q b(1-3)] obtain w where
      "send_packet sock = Inr (Some State_is_win_full_q, send_datagram (data_datagram (\<lambda>_. db_data b) ?c)
            (sock\<lparr>gs_sending_buffer := q, gs_seq_number := gs_seq_number sock + 1, gs_sending_window := w\<rparr>))" by blast
    then have st': "st' = Some State_is_win_full_q" "sock' = send_datagram (data_datagram (\<lambda>_. db_data b) ?c)
            (sock\<lparr>gs_sending_buffer := q, gs_seq_number := gs_seq_number sock + 1, gs_sending_window := w\<rparr>)"
      using assms(4) True by (simp_all add: writer_step_def)
    have "unat (gs_seq_number sock + 1) = Suc ?c" using b(4) by (simp add: unat_word_ariths)
    then have "stream_inv (bs @ [db_data b]) bytes st' sock'"
      using i b payloads_snoc [of bs "db_data b"] unfolding stream_inv_def st'
      by (simp add: send_datagram_def q del: upt_Suc)
    then show ?thesis by blast
  next
    case False
    have "n = 0" if "st = State_retransmit"
      using retransmit_freed [OF s(2)] assms(4) that by (cases "n = 0") (auto simp: writer_step_def)
    then have "gw_size (gs_sending_window sock) = 0" if "st = State_retransmit"
      using s(2) that word_of_unat [of "gw_size (gs_sending_window sock)" 0] by (simp add: window_ok_def)
    then have "sock' = sock \<and> st' \<noteq> Some State_close_connection"
      using assms(4) i(6) False by (cases st) (auto simp: writer_step_def window_empty_q_def block_on_queue_def is_win_full_q_def wait_on_read_def
        retransmit_def send_packet_def split: list.splits if_splits)
    then show ?thesis using assms(1) by (auto simp: stream_inv_def)
  qed
qed

lemma stream_inv_step:
  assumes "stream_inv bs bytes (sys_writer s) (sys_socket s)" "sender_ok (sys_writer s) (sys_socket s)" "timely e (sys_socket s)"
    "gbn_step e s = Inr s'" "sender_event e"
  shows "\<exists>bs. stream_inv bs (bytes @ written [e]) (sys_writer s') (sys_socket s')"
proof (cases e)
  case (WriterStep t)
  show ?thesis
  proof (cases "sys_writer s")
    case None
    then show ?thesis using assms WriterStep by (auto simp: gbn_step_def written_def)
  next
    case (Some st)
    then show ?thesis using assms WriterStep stream_inv_writer [of bs bytes st "sys_socket s" t]
      by (auto simp: gbn_step_def written_def bindR_eq_Inr)
  qed
next
  case (Arrival p)
  then have "s' = s \<or> (\<exists>w go. s' = s\<lparr>sys_reading := go, sys_socket := (sys_socket s)\<lparr>gs_sending_window := w\<rparr>\<rparr>)"
    using assms(4,5) by (auto simp: gbn_step_def handle_packet_def bindR_eq_Inr split: if_splits)
  then show ?thesis using assms(1) Arrival by (auto simp: stream_inv_def written_def)
next
  case (Write bytes')
  then have "unat (of_nat (length bytes') :: u32) = length bytes'" using assms(3) by (simp add: unat_of_nat take_bit_nat_eq_self)
  with gbn_socket_write_ok [of "of_nat (length bytes')" bytes' "sys_socket s"] obtain q where
    q: "gbn_socket_write (sys_socket s) bytes' (of_nat (length bytes')) = Inr (of_nat (length bytes'), (sys_socket s)\<lparr>gs_sending_buffer := gs_sending_buffer (sys_socket s) @ q\<rparr>)"
      "concat (map db_data q) = bytes'" "blocks_ok q"
    by auto
  then have "s' = s\<lparr>sys_socket := (sys_socket s)\<lparr>gs_sending_buffer := gs_sending_buffer (sys_socket s) @ q\<rparr>\<rparr>"
    using assms(4) Write by (simp add: gbn_step_def)
  then show ?thesis using assms(1) q Write by (auto simp: stream_inv_def written_def blocks_ok_def)
next
  case (Read len)
  have "stream_inv bs bytes (sys_writer s') (sys_socket s')" using assms(1,4) Read gbn_socket_read_sender [of "sys_socket s" len]
    by (cases "gbn_socket_read (sys_socket s) len") (auto simp: gbn_step_def stream_inv_def)
  then show ?thesis using Read by (auto simp: written_def)
qed (use assms(5) in simp)

lemma stream_inv_run:
  assumes "stream_inv bs bytes (sys_writer s) (sys_socket s)" "gbn_reachable s" "timely_run es s = Some s'" "\<forall>e \<in> set es. sender_event e"
  shows "\<exists>bs. stream_inv bs (bytes @ written es) (sys_writer s') (sys_socket s')"
  using assms
proof (induction es arbitrary: s bs bytes)
  case Nil
  then show ?case by (auto simp: written_def)
next
  case (Cons e es)
  then obtain s1 where s1: "timely e (sys_socket s)" "gbn_step e s = Inr s1" "timely_run es s1 = Some s'"
    by (auto split: if_splits sum.splits)
  from stream_inv_step [OF Cons.prems(1) reachable_sender_ok [OF Cons.prems(2)] s1(1,2)] Cons.prems(4) obtain bs1 where
    "stream_inv bs1 (bytes @ written [e]) (sys_writer s1) (sys_socket s1)" by auto
  from Cons.IH [OF this gbn_reachable.step [OF Cons.prems(2) s1(1,2)] s1(3)] Cons.prems(4) show ?case by (simp add: written_def)
qed

lemma stream_inv_start: "stream_inv [] [] (sys_writer gbn_start) (sys_socket gbn_start)"
  by (simp add: stream_inv_def gbn_start_def init_gbn_socket_def)

section \<open>What the receiver accepts of it\<close>

lemma sr_advance_bound:
  assumes "n \<le> N" "\<forall>x \<in> B. x < N"
  shows "sr_advance n B \<le> N"
proof (rule ccontr)
  let ?t = "takeWhile (\<lambda>i. i \<in> B) [n..<n + DEFAULT_QUEUE_SIZE]"
  assume "\<not> sr_advance n B \<le> N"
  then have l: "N - n < length ?t" using assms(1) by (simp add: sr_advance_def)
  then have "?t ! (N - n) = [n..<n + DEFAULT_QUEUE_SIZE] ! (N - n)" by (rule takeWhile_nth)
  also have "\<dots> = N" using l assms(1) order.strict_trans2 [OF l length_takeWhile_le] by (simp add: nth_upt)
  finally have "N \<in> B" using l by (metis nth_mem set_takeWhileD)
  then show False using assms(2) by blast
qed

lemma sr_run_bound:
  "fst s \<le> N \<Longrightarrow> \<forall>x \<in> snd s. x < N \<Longrightarrow> \<forall>k \<in> set ks. k < N \<Longrightarrow> fst (snd (sr_run ks s)) \<le> N"
proof (induction ks arbitrary: s)
  case (Cons k ks)
  have "fst (sr_step k s) \<le> N" "\<forall>x \<in> snd (sr_step k s). x < N"
    using Cons.prems sr_advance_bound [of "fst s" N "insert k (snd s)"] by (auto simp: sr_step_def split: prod.splits if_splits)
  then show ?case unfolding sr_run_Cons using Cons.IH Cons.prems(3) by simp
qed simp

section \<open>What can be read\<close>

text \<open>The datagrams of \<open>bs\<close> reach a socket in any order, with losses and repetitions.\<close>

lemma stream_received:
  assumes "\<forall>b \<in> set bs. length b \<le> DEFAULT_PACKET_SIZE" "prefix (concat bs) bytes" "length bs \<le> 255"
    "out = map (data_datagram (payloads bs)) [0..<length bs]" "\<forall>k \<in> set ks. k < length bs"
  shows "\<exists>buf' sock. read_thread (map (\<lambda>k. Some (out ! k)) ks) buf init_gbn_socket = Inr (buf', sock) \<and>
    prefix (concat (map db_data (gs_receive_buffer sock))) bytes \<and>
    (\<forall>m \<le> length bs. subseq [0..<m] ks \<longrightarrow> prefix (concat (take m bs)) (concat (map db_data (gs_receive_buffer sock))))"
proof -
  have len: "\<forall>k. length (payloads bs k) \<le> DEFAULT_PACKET_SIZE" using assms(1) by (simp add: payloads_def)
  have eq: "map (\<lambda>k. Some (out ! k)) ks = map (\<lambda>k. Some (data_datagram (payloads bs) k)) ks"
    using assms(5) by (simp add: assms(4))
  have lt: "\<forall>k \<in> set ks. k < 255" using assms(3,5) by fastforce
  obtain buf' sock where r: "read_thread (map (\<lambda>k. Some (data_datagram (payloads bs) k)) ks) buf init_gbn_socket = Inr (buf', sock)"
    "receiving (payloads bs) (snd (sr_run ks (0, {}))) sock"
    using read_thread_receiving [OF len lt receiving_init] by blast
  let ?n = "fst (snd (sr_run ks (0, {})))"
  have n: "gs_receive_buffer sock = map (data_block_of (payloads bs)) [0..<?n]" using r(2) by (auto simp: receiving_def split: prod.splits)
  have le: "?n \<le> length bs" using sr_run_bound [of "(0, {})" "length bs" ks] assms(5) by simp
  then have "map (payloads bs) [0..<?n] = take ?n bs" by (intro nth_equalityI) (simp_all add: payloads_def)
  then have del: "concat (map db_data (gs_receive_buffer sock)) = concat (take ?n bs)"
    unfolding n by (simp add: data_block_of_def comp_def)
  have pre: "prefix (concat (take m bs)) (concat (take l bs))" if "m \<le> l" for m l
    by (rule prefixI [of _ _ "concat (take (l - m) (drop m bs))"])
      (use that in \<open>simp flip: concat_append add: take_add [symmetric]\<close>)
  have "prefix (concat (take ?n bs)) (concat bs)" using pre [OF le] by simp
  then have "prefix (concat (take ?n bs)) bytes" using assms(2) by (rule prefix_order.trans)
  moreover have "subseq [0..<m] ks \<longrightarrow> prefix (concat (take m bs)) (concat (take ?n bs))" for m
    using sr_run_in_order [of "(0, {})" m ks] pre [of m ?n] by simp
  ultimately show ?thesis using r(1) unfolding eq by (intro exI [of _ buf'] exI [of _ sock]) (simp add: del)
qed

text \<open>
  From one application to the other: a socket sends what its application writes, while timely
  acknowledgements come in; its first 255 datagrams at most reach another socket in any order, with losses and
  repetitions.  The bytes that the other application can read are then a prefix of the bytes written,
  and they are all bytes of the first \<open>m\<close> packets if these arrive in order.
\<close>

lemma stream_delivered:
  assumes "timely_run es gbn_start = Some s" "\<forall>e \<in> set es. sender_event e"
    "unat (gs_seq_number (sys_socket s)) \<le> 255" "\<forall>k \<in> set ks. k < length (gs_out (sys_socket s))"
  shows "\<exists>buf' sock bs. read_thread (map (\<lambda>k. Some (gs_out (sys_socket s) ! k)) ks) buf init_gbn_socket = Inr (buf', sock) \<and>
    prefix (concat (map db_data (gs_receive_buffer sock))) (written es) \<and>
    length bs = length (gs_out (sys_socket s)) \<and>
    prefix (concat bs) (written es) \<and>
    (\<forall>m \<le> length bs. subseq [0..<m] ks \<longrightarrow> prefix (concat (take m bs)) (concat (map db_data (gs_receive_buffer sock))))"
proof -
  from stream_inv_run [OF stream_inv_start gbn_reachable.start assms(1,2)] obtain bs where
    "stream_inv bs (written es) (sys_writer s) (sys_socket s)" by auto
  then have i: "length bs = unat (gs_seq_number (sys_socket s))" "\<forall>b \<in> set bs. length b \<le> DEFAULT_PACKET_SIZE"
     "gs_out (sys_socket s) = map (data_datagram (payloads bs)) [0..<length bs]" "prefix (concat bs) (written es)"
    by (auto simp: stream_inv_def intro!: prefixI [OF sym])
  have "length bs = length (gs_out (sys_socket s))" using i(3) by simp
  then show ?thesis using stream_received [OF i(2,4) _ i(3), of ks buf] i(1,4) assms(3,4) by (metis (no_types, lifting))
qed

definition example_run :: "gbn_event list" where
  "example_run = [Write [7], Write [8], Write [9], WriterStep False, WriterStep False, WriterStep False, WriterStep False,
    WriterStep False, Arrival (ack_packet 0), WriterStep False, WriterStep False]"

lemma example_run_sends:
  "\<exists>s. timely_run example_run gbn_start = Some s \<and> unat (gs_seq_number (sys_socket s)) = 3 \<and> length (gs_out (sys_socket s)) = 3"
  unfolding example_run_def
  by (simp add: run_defs ack_packet_def handle_packet_def handle_ack_def GET_SEND_FRAME_id_delta_def)

lemma stream_delivered_example:
  "\<exists>s buf' sock. timely_run example_run gbn_start = Some s \<and>
     read_thread (map (\<lambda>k. Some (gs_out (sys_socket s) ! k)) [1, 0, 2, 0]) [] init_gbn_socket = Inr (buf', sock) \<and>
     prefix (concat (map db_data (gs_receive_buffer sock))) [7, 8, 9]"
proof -
  obtain s where s: "timely_run example_run gbn_start = Some s" "unat (gs_seq_number (sys_socket s)) = 3" "length (gs_out (sys_socket s)) = 3"
    using example_run_sends by blast
  have "written example_run = [7, 8, 9]" by (simp add: example_run_def written_def)
  moreover have "\<forall>e \<in> set example_run. sender_event e" by (simp add: example_run_def ack_packet_def)
  ultimately show ?thesis using stream_delivered [OF s(1), of "[1, 0, 2, 0]" "[]"] s by auto
qed

end
