(* ===== verification/GbnTransfer.thy ===== *)
theory GbnTransfer
  imports GbnStream
begin

text \<open>
  The two sample programs on top of the go-back-N socket (\<^verbatim>\<open>PA2/GBNframework/gbn_client.c\<close>,
  \<^verbatim>\<open>gbn_server.c\<close>): the client sends a bytes, the server writes what it reads to a bytes, until a read
  returns nothing.
\<close>

section \<open>The client\<close>

definition READ_SIZE :: nat where "READ_SIZE = 8192"

text \<open>\<open>content\<close> is what is left of the file; \<^verbatim>\<open>fread\<close> returns less than it is asked for only at its end.\<close>

function client_loop :: "byte list \<Rightarrow> gbn_socket \<Rightarrow> gbn_socket result" where
  "client_loop content sock =
     (let buffer = take READ_SIZE content in
      if 0 < length buffer then
        bindR (gbn_socket_write sock buffer (of_nat (length buffer))) (\<lambda>(_, sock).
        client_loop (drop READ_SIZE content) sock)
      else Inr sock)"
  by pat_completeness auto
termination
  by (relation "measure (\<lambda>(content, sock). length content)") (auto simp: READ_SIZE_def)

declare client_loop.simps [simp del]

definition client_main :: "byte list \<Rightarrow> gbn_socket \<Rightarrow> gbn_socket result" where
  "client_main content sock = bindR (client_loop content sock) (\<lambda>sock. Inr (gbn_socket_close sock))"

section \<open>The server\<close>

definition DEFAULT_BUF_SIZE :: nat where "DEFAULT_BUF_SIZE = 4096"

text \<open>The file written, \<open>None\<close> if the program waits for ever.\<close>

partial_function (option) server_loop :: "gbn_socket \<Rightarrow> byte list \<Rightarrow> (byte list \<times> gbn_socket) option" where
  "server_loop sock out =
     (case gbn_socket_read sock DEFAULT_BUF_SIZE of
        Blocked sock \<Rightarrow> None
      | ReadBytes bytes sock \<Rightarrow> if bytes \<noteq> [] then server_loop sock (out @ bytes) else Some (out, sock))"

section \<open>Blocks of a file\<close>

function chunks :: "byte list \<Rightarrow> byte list list" where
  "chunks content = (if content = [] then [] else take DEFAULT_PACKET_SIZE content # chunks (drop DEFAULT_PACKET_SIZE content))"
  by pat_completeness auto
termination
  by (relation "measure length") (auto simp: DEFAULT_PACKET_SIZE_def)

declare chunks.simps [simp del]

lemma chunks_Nil [simp]: "chunks [] = []"
  by (simp add: chunks.simps)

lemma chunks_append: "DEFAULT_PACKET_SIZE dvd length a \<Longrightarrow> chunks (a @ b) = chunks a @ chunks b"
proof (induction a rule: chunks.induct)
  case (1 a)
  show ?case
  proof (cases "a = []")
    case False
    then have l: "DEFAULT_PACKET_SIZE \<le> length a" using 1(2) by (auto dest: dvd_imp_le)
    have "DEFAULT_PACKET_SIZE dvd length (drop DEFAULT_PACKET_SIZE a)" using 1(2) l by (simp add: dvd_minus_self)
    from 1(1) [OF False this] show ?thesis using False l
      by (subst chunks.simps, subst (2) chunks.simps) simp
  qed simp
qed

lemma concat_chunks [simp]: "concat (chunks content) = content"
  by (induction content rule: chunks.induct) (subst chunks.simps, auto)

lemma chunks_length_le: "c \<in> set (chunks content) \<Longrightarrow> length c \<le> DEFAULT_PACKET_SIZE \<and> c \<noteq> []"
proof (induction content rule: chunks.induct)
  case (1 content)
  then show ?case by (subst (asm) chunks.simps) (auto split: if_splits simp: DEFAULT_PACKET_SIZE_def)
qed

lemma take_chunks: "take n (chunks content) = chunks (take (n * DEFAULT_PACKET_SIZE) content)"
proof (induction n arbitrary: content)
  case (Suc n)
  show ?case
  proof (cases "content = []")
    case False
    then have "take (Suc n * DEFAULT_PACKET_SIZE) content \<noteq> []" by (simp add: DEFAULT_PACKET_SIZE_def)
    then show ?thesis using False Suc
      by (subst chunks.simps, subst (2) chunks.simps) (simp add: drop_take min_def)
  qed simp
qed simp

definition blocks_of :: "byte list \<Rightarrow> data_block list" where
  "blocks_of content = map (\<lambda>c. \<lparr>db_data = c, db_closing = False\<rparr>) (chunks content)"

lemma blocks_of_append: "DEFAULT_PACKET_SIZE dvd length a \<Longrightarrow> blocks_of (a @ b) = blocks_of a @ blocks_of b"
  by (simp add: blocks_of_def chunks_append)

lemma blocks_of_one: "c \<noteq> [] \<Longrightarrow> length c \<le> DEFAULT_PACKET_SIZE \<Longrightarrow> blocks_of c = [\<lparr>db_data = c, db_closing = False\<rparr>]"
  by (simp add: blocks_of_def chunks.simps [of c])

lemma write_whole_blocks_chunks:
  "k * DEFAULT_PACKET_SIZE \<le> length cursor \<Longrightarrow> write_whole_blocks k cursor q =
     Inr (drop (k * DEFAULT_PACKET_SIZE) cursor, q @ blocks_of (take (k * DEFAULT_PACKET_SIZE) cursor))"
proof (induction k arbitrary: cursor q)
  case (Suc k)
  let ?c = "take DEFAULT_PACKET_SIZE cursor" let ?r = "drop DEFAULT_PACKET_SIZE cursor"
  have l: "DEFAULT_PACKET_SIZE \<le> length cursor" "k * DEFAULT_PACKET_SIZE \<le> length ?r" using Suc.prems by simp_all
  have "take (Suc k * DEFAULT_PACKET_SIZE) cursor = ?c @ take (k * DEFAULT_PACKET_SIZE) ?r" by (simp add: take_add)
  then have "blocks_of (take (Suc k * DEFAULT_PACKET_SIZE) cursor) = blocks_of ?c @ blocks_of (take (k * DEFAULT_PACKET_SIZE) ?r)"
    using l(1) by (simp add: blocks_of_append min_absorb2)
  moreover have "blocks_of ?c = [\<lparr>db_data = ?c, db_closing = False\<rparr>]"
    by (rule blocks_of_one) (use l(1) in \<open>auto simp: DEFAULT_PACKET_SIZE_def\<close>)
  ultimately show ?case using Suc.IH [OF l(2)] l(1) by (simp add: copy_from_ok push_block_def add.commute)
qed (simp add: blocks_of_def)

lemma gbn_socket_write_chunks:
  assumes "length bytes < 2 ^ 32"
  shows "gbn_socket_write sock bytes (of_nat (length bytes)) =
    Inr (of_nat (length bytes), sock\<lparr>gs_sending_buffer := gs_sending_buffer sock @ blocks_of bytes\<rparr>)"
proof -
  let ?n = "length bytes" let ?k = "?n div DEFAULT_PACKET_SIZE" let ?w = "?k * DEFAULT_PACKET_SIZE"
  have u: "unat (of_nat ?n :: u32) = ?n" using assms by (simp add: unat_of_nat take_bit_nat_eq_self)
  have w: "?w \<le> ?n" "?n - ?w < DEFAULT_PACKET_SIZE" by (simp_all add: minus_div_mult_eq_mod DEFAULT_PACKET_SIZE_def)
  have split: "blocks_of bytes = blocks_of (take ?w bytes) @ blocks_of (drop ?w bytes)"
    using blocks_of_append [of "take ?w bytes" "drop ?w bytes"] w(1) by (simp add: min_absorb2)
  show ?thesis
  proof (cases "?w < ?n")
    case True
    have "drop ?w bytes \<noteq> []" "length (drop ?w bytes) \<le> DEFAULT_PACKET_SIZE" using True w(2) by auto
    then have "blocks_of (drop ?w bytes) = [\<lparr>db_data = drop ?w bytes, db_closing = False\<rparr>]" by (rule blocks_of_one)
    moreover have "copy_from (Some (drop ?w bytes)) (?n - ?w) = Inr (drop ?w bytes)" using copy_from_ok [of "?n - ?w" "drop ?w bytes"] by simp
    moreover have "?w + (?n - ?w) = ?n" using w(1) by simp
    ultimately show ?thesis unfolding gbn_socket_write_def Let_def u write_whole_blocks_chunks [OF w(1)] split
      using True by (simp add: push_block_def del: of_nat_add of_nat_diff)
  next
    case False
    then have "?w = ?n" using w(1) by simp
    then show ?thesis unfolding gbn_socket_write_def Let_def u write_whole_blocks_chunks [OF w(1)] split
      using False by (simp add: blocks_of_def)
  qed
qed

lemma client_loop_queues:
  "client_loop content sock = Inr (sock\<lparr>gs_sending_buffer := gs_sending_buffer sock @ blocks_of content\<rparr>)"
proof (induction content sock rule: client_loop.induct)
  case (1 content sock)
  show ?case
  proof (cases "content = []")
    case True
    then show ?thesis by (subst client_loop.simps) (simp add: blocks_of_def)
  next
    case False
    have "blocks_of content = blocks_of (take READ_SIZE content) @ blocks_of (drop READ_SIZE content)"
    proof (cases "READ_SIZE \<le> length content")
      case True
      then have "DEFAULT_PACKET_SIZE dvd length (take READ_SIZE content)" by (simp add: READ_SIZE_def DEFAULT_PACKET_SIZE_def min_absorb2)
      from blocks_of_append [OF this] show ?thesis by (metis append_take_drop_id)
    qed (simp add: blocks_of_def)
    moreover have "length (take READ_SIZE content) < 2 ^ 32" by (simp add: READ_SIZE_def)
    from gbn_socket_write_chunks [OF this, of sock] have w: "gbn_socket_write sock (take READ_SIZE content) (of_nat (length (take READ_SIZE content))) =
      Inr (of_nat (length (take READ_SIZE content)), sock\<lparr>gs_sending_buffer := gs_sending_buffer sock @ blocks_of (take READ_SIZE content)\<rparr>)" .
    moreover have ne: "0 < length (take READ_SIZE content)" using False by (simp add: READ_SIZE_def)
    ultimately show ?thesis using 1 [OF refl ne w refl]
      by (subst client_loop.simps) (simp add: Let_def w del: length_take)
  qed
qed


section \<open>What the server reads\<close>

definition closing_block :: data_block where "closing_block = \<lparr>db_data = [], db_closing = True\<rparr>"

text \<open>The queue of the server before a read; \<open>used\<close>: the first block was read whole, but is still there.\<close>

definition server_at :: "gbn_socket \<Rightarrow> bool \<Rightarrow> byte list \<Rightarrow> bool" where
  "server_at sock used bytes \<longleftrightarrow> \<not> gs_closed sock \<and>
     (if used then \<exists>c. length c = DEFAULT_PACKET_SIZE \<and> gs_current_block_ptr sock = DEFAULT_PACKET_SIZE \<and>
        gs_receive_buffer sock = \<lparr>db_data = c, db_closing = False\<rparr> # blocks_of bytes @ [closing_block]
      else gs_current_block_ptr sock = 0 \<and> gs_receive_buffer sock = blocks_of bytes @ [closing_block])"

lemma blocks_of_cases:
  obtains "bytes = []" "blocks_of bytes = []"
  | "bytes \<noteq> []" "length bytes < DEFAULT_PACKET_SIZE" "blocks_of bytes = [\<lparr>db_data = bytes, db_closing = False\<rparr>]"
  | "DEFAULT_PACKET_SIZE \<le> length bytes"
    "blocks_of bytes = \<lparr>db_data = take DEFAULT_PACKET_SIZE bytes, db_closing = False\<rparr> # blocks_of (drop DEFAULT_PACKET_SIZE bytes)"
proof (cases "DEFAULT_PACKET_SIZE \<le> length bytes")
  case True
  then have "bytes \<noteq> []" by (auto simp: DEFAULT_PACKET_SIZE_def)
  then have "blocks_of bytes = \<lparr>db_data = take DEFAULT_PACKET_SIZE bytes, db_closing = False\<rparr> # blocks_of (drop DEFAULT_PACKET_SIZE bytes)"
    unfolding blocks_of_def by (subst chunks.simps) simp
  then show ?thesis using that(3) True by blast
next
  case False
  then show ?thesis using that(1,2) blocks_of_one [of bytes] by (cases "bytes = []") (auto simp: blocks_of_def)
qed

text \<open>A read at the beginning of a block, and one at the end of a block.\<close>

lemma server_read_fresh:
  assumes "server_at sock False bytes"
  shows "if bytes = [] then \<exists>s. gbn_socket_read sock DEFAULT_BUF_SIZE = Blocked s
    else if length bytes < DEFAULT_PACKET_SIZE then \<exists>s. gbn_socket_read sock DEFAULT_BUF_SIZE = ReadBytes bytes s \<and> gs_closed s
    else \<exists>s. gbn_socket_read sock DEFAULT_BUF_SIZE = ReadBytes (take DEFAULT_PACKET_SIZE bytes) s \<and> server_at s True (drop DEFAULT_PACKET_SIZE bytes)"
  by (rule blocks_of_cases [of bytes])
    (use assms in \<open>auto simp: server_at_def gbn_socket_read_def closing_block_def DEFAULT_BUF_SIZE_def DEFAULT_PACKET_SIZE_def min_def\<close>)

lemma read_loop_full: "length acc = len \<Longrightarrow> read_loop len q acc sock = ReadBytes acc (sock\<lparr>gs_receive_buffer := q\<rparr>)"
  by (cases q) simp_all

lemma server_read_used:
  assumes "server_at sock True bytes"
  shows "if length bytes < DEFAULT_PACKET_SIZE then \<exists>s. gbn_socket_read sock DEFAULT_BUF_SIZE = ReadBytes bytes s \<and> gs_closed s
    else \<exists>s. gbn_socket_read sock DEFAULT_BUF_SIZE = ReadBytes (take DEFAULT_PACKET_SIZE bytes) s \<and> server_at s False (drop DEFAULT_PACKET_SIZE bytes)"
proof -
  from assms have s: "gbn_socket_read sock DEFAULT_BUF_SIZE =
      read_loop 4096 (blocks_of bytes @ [closing_block]) [] (sock\<lparr>gs_current_block_ptr := 0\<rparr>)" "\<not> gs_closed sock"
    by (auto simp: server_at_def gbn_socket_read_def DEFAULT_BUF_SIZE_def DEFAULT_PACKET_SIZE_def Let_def)
  show ?thesis
  proof (rule blocks_of_cases [of bytes])
    assume "DEFAULT_PACKET_SIZE \<le> length bytes"
      "blocks_of bytes = \<lparr>db_data = take DEFAULT_PACKET_SIZE bytes, db_closing = False\<rparr> # blocks_of (drop DEFAULT_PACKET_SIZE bytes)"
    then show ?thesis unfolding s(1) using s(2)
      by (simp add: read_loop_full DEFAULT_PACKET_SIZE_def server_at_def)
  qed (simp_all add: s(1) closing_block_def DEFAULT_PACKET_SIZE_def)
qed

lemma server_loop_closed: "gs_closed sock \<Longrightarrow> server_loop sock out = Some (out, sock)"
  by (subst server_loop.simps) (simp add: gbn_socket_read_def)

text \<open>The server gets everything and ends, unless the stream ends where the last read used up the block before.\<close>

lemma server_loop_fresh:
  "server_at sock False bytes \<Longrightarrow> map_option fst (server_loop sock out) =
     (if 2 * DEFAULT_PACKET_SIZE dvd length bytes then None else Some (out @ bytes))"
proof (induction bytes arbitrary: sock out rule: measure_induct_rule [where f = length])
  case (less bytes)
  note r = server_read_fresh [OF less.prems]
  have p: "0 < DEFAULT_PACKET_SIZE" by (simp add: DEFAULT_PACKET_SIZE_def)
  consider "bytes = []" | "bytes \<noteq> []" "length bytes < DEFAULT_PACKET_SIZE" | "DEFAULT_PACKET_SIZE \<le> length bytes" by linarith
  then show ?case
  proof cases
    case 1
    then show ?thesis using r by (subst server_loop.simps) auto
  next
    case 2
    then obtain s where s: "gbn_socket_read sock DEFAULT_BUF_SIZE = ReadBytes bytes s" "gs_closed s" using r by auto
    then have "server_loop sock out = Some (out @ bytes, s)" using 2(1) by (subst server_loop.simps) (simp add: server_loop_closed)
    moreover have "\<not> 2 * DEFAULT_PACKET_SIZE dvd length bytes" using 2 by (auto dest: dvd_imp_le)
    ultimately show ?thesis by simp
  next
    case 3
    let ?c = "take DEFAULT_PACKET_SIZE bytes" let ?r = "drop DEFAULT_PACKET_SIZE bytes"
    have ne: "bytes \<noteq> []" "\<not> length bytes < DEFAULT_PACKET_SIZE" "?c \<noteq> []" using 3 p by auto
    then obtain s where s: "gbn_socket_read sock DEFAULT_BUF_SIZE = ReadBytes ?c s" "server_at s True ?r" using r by auto
    have l1: "server_loop sock out = server_loop s (out @ ?c)" using s(1) ne(3) by (subst server_loop.simps) simp
    show ?thesis
    proof (cases "length ?r < DEFAULT_PACKET_SIZE")
      case True
      then obtain t where t: "gbn_socket_read s DEFAULT_BUF_SIZE = ReadBytes ?r t" "gs_closed t" using server_read_used [OF s(2)] by auto
      then have "server_loop s (out @ ?c) = Some (out @ ?c @ ?r, t)"
        by (subst server_loop.simps) (simp add: server_loop_closed)
      moreover have "\<not> 2 * DEFAULT_PACKET_SIZE dvd length bytes" using True 3 p by (auto dest!: dvd_imp_le)
      ultimately show ?thesis using l1 by simp
    next
      case False
      let ?d = "take DEFAULT_PACKET_SIZE ?r" let ?q = "drop DEFAULT_PACKET_SIZE ?r"
      obtain t where t: "gbn_socket_read s DEFAULT_BUF_SIZE = ReadBytes ?d t" "server_at t False ?q"
        using server_read_used [OF s(2)] False by auto
      have "?d \<noteq> []" using False p by auto
      then have l2: "server_loop s (out @ ?c) = server_loop t (out @ ?c @ ?d)" using t(1) by (subst server_loop.simps) simp
      have len: "length bytes = 2 * DEFAULT_PACKET_SIZE + length ?q" using 3 False by simp
      then have "length ?q < length bytes" using p by simp
      from less.IH [OF this t(2)] have "map_option fst (server_loop t (out @ ?c @ ?d)) =
        (if 2 * DEFAULT_PACKET_SIZE dvd length ?q then None else Some (out @ ?c @ ?d @ ?q))" by simp
      moreover have "2 * DEFAULT_PACKET_SIZE dvd length ?q \<longleftrightarrow> 2 * DEFAULT_PACKET_SIZE dvd length bytes" unfolding len by simp
      moreover have "?c @ ?d @ ?q = bytes" by (metis append_take_drop_id)
      ultimately show ?thesis using l1 l2 by (simp only:)
    qed
  qed
qed


section \<open>The end of the stream\<close>

definition eof_datagram :: "byte list" where
  "eof_datagram = store_u32 (htonl gbn_packet_type_EOF) @ store_u32 (htonl 0) @ store_u32 (htonl 0)"

lemma close_connection_sends: "close_connection sock = Inr (None, send_datagram eof_datagram sock)"
  by (simp add: close_connection_def gbn_socket_serialize_def copy_from_def eof_datagram_def SERIALIZE_SIZE_def SERIALIZE_OVERHEAD_def)

lemma read_thread_eof:
  assumes "\<not> gs_read_closed sock"
  shows "\<exists>buf' sock'. read_thread (Some eof_datagram # rest) buf sock = Inr (buf', sock') \<and>
    gs_receive_buffer sock' = gs_receive_buffer sock @ [closing_block] \<and> gs_closed sock' = gs_closed sock \<and>
    gs_current_block_ptr sock' = gs_current_block_ptr sock"
proof -
  let ?p = "\<lparr>gp_type = gbn_packet_type_EOF, gp_seq_number = 0, gp_size = 0, gp_payload = Some []\<rparr>"
  have "gbn_socket_serialize ?p SERIALIZE_SIZE = Inr (12, eof_datagram)"
    by (simp add: gbn_socket_serialize_def copy_from_def eof_datagram_def SERIALIZE_SIZE_def SERIALIZE_OVERHEAD_def)
  then have "gbn_socket_deserialize (eof_datagram @ r) (length eof_datagram) = Inr ?p" for r
    using packet_wire [of ?p "[]" r] by auto
  then show ?thesis using assms
    by (simp add: read_thread_round_def handle_packet_def ack_datagram_def gbn_socket_serialize_def copy_from_def Let_def
      gbn_packet_type_EOF_def gbn_packet_type_ack_def gbn_packet_type_data_def gbn_packet_type_ack_EOF_def
      SERIALIZE_SIZE_def SERIALIZE_OVERHEAD_def send_datagram_def push_block_def closing_block_def)
qed

section \<open>Property\<close>

text \<open>
  C15. The transfer of a file by the two programs: the client queues exactly the blocks of the file and the
  end mark.  If the data packets \<open>ks\<close>, with whatever losses, repetitions and reordering, arrive before the
  end mark, then the server writes the first \<open>n\<close> blocks, where \<open>n\<close> is at least \<open>m\<close> if the first \<open>m\<close> packets came in
  order; that the rest is missing goes unnoticed.  And if what arrived is a multiple of 8192 bytes,
  the server waits for ever.
\<close>

theorem file_transfer_outcome:
  assumes "length (chunks content) \<le> 255" "\<forall>k\<in>set ks. k < length (chunks content)"
  shows "\<exists>c buf' sock n. client_main content init_gbn_socket = Inr c \<and> gs_sending_buffer c = blocks_of content @ [closing_block] \<and>
    read_thread (map (\<lambda>k. Some (data_datagram (payloads (chunks content)) k)) ks @ Some eof_datagram # rest) buf init_gbn_socket = Inr (buf', sock) \<and>
    n \<le> length (chunks content) \<and> (\<forall>m. subseq [0..<m] ks \<longrightarrow> m \<le> n) \<and>
    map_option fst (server_loop sock []) =
      (let arrived = take (n * DEFAULT_PACKET_SIZE) content in if 8192 dvd length arrived then None else Some arrived)"
proof -
  let ?d = "payloads (chunks content)" let ?n = "fst (snd (sr_run ks (0, {})))" let ?a = "take (?n * DEFAULT_PACKET_SIZE) content"
  have len: "\<forall>k. length (?d k) \<le> DEFAULT_PACKET_SIZE" by (auto simp: payloads_def dest: chunks_length_le [OF nth_mem])
  have lt: "\<forall>k\<in>set ks. k < 255" using assms by fastforce
  obtain buf1 sock1 where r: "read_thread (map (\<lambda>k. Some (data_datagram ?d k)) ks @ Some eof_datagram # rest) buf init_gbn_socket =
      read_thread (Some eof_datagram # rest) buf1 sock1" "receiving ?d (snd (sr_run ks (0, {}))) sock1"
    using read_thread_prefix_receiving [OF len lt receiving_init] by blast
  have n: "?n \<le> length (chunks content)" using sr_run_bound [of "(0, {})" "length (chunks content)" ks] assms(2) by simp
  have s1: "gs_receive_buffer sock1 = map (data_block_of ?d) [0..<?n]" "\<not> gs_read_closed sock1" "\<not> gs_closed sock1" "gs_current_block_ptr sock1 = 0"
    using r(2) by (auto simp: receiving_def split: prod.splits)
  have "map ?d [0..<?n] = take ?n (chunks content)" using n by (intro nth_equalityI) (simp_all add: payloads_def)
  then have "gs_receive_buffer sock1 = blocks_of ?a"
    unfolding s1(1) blocks_of_def take_chunks [symmetric] by (metis (no_types, lifting) data_block_of_def map_eq_conv map_map comp_apply)
  with read_thread_eof [OF s1(2), of rest buf1] s1(3,4) obtain buf' sock where
    e: "read_thread (Some eof_datagram # rest) buf1 sock1 = Inr (buf', sock)" "server_at sock False ?a"
    by (auto simp: server_at_def)
  have "client_main content init_gbn_socket = Inr (init_gbn_socket\<lparr>gs_sending_buffer := blocks_of content @ [closing_block]\<rparr>)"
    by (simp add: client_main_def client_loop_queues gbn_socket_close_def init_gbn_socket_def push_block_def closing_block_def)
  moreover have "map_option fst (server_loop sock []) = (let arrived = ?a in if 8192 dvd length arrived then None else Some arrived)"
    using server_loop_fresh [OF e(2), of "[]"] by (simp add: Let_def DEFAULT_PACKET_SIZE_def)
  ultimately show ?thesis using r(1) e(1) n sr_run_in_order [of "(0, {})" _ ks] by fastforce
qed

lemma chunks_8192: "chunks (replicate 8192 7) = [replicate 4096 7, replicate 4096 7]"
proof -
  have "chunks (replicate 8192 7) = replicate 4096 7 # chunks (replicate 4096 7)"
    by (subst chunks.simps) (simp add: DEFAULT_PACKET_SIZE_def)
  moreover have "chunks (replicate 4096 7) = [replicate 4096 7]"
    by (subst chunks.simps) (simp add: DEFAULT_PACKET_SIZE_def)
  ultimately show ?thesis by simp
qed

theorem file_transfer_outcome_witness:
  "\<exists>c buf' sock. client_main (replicate 8192 7) init_gbn_socket = Inr c \<and>
    read_thread (map (\<lambda>k. Some (data_datagram (payloads (chunks (replicate 8192 7))) k)) [0, 1] @ [Some eof_datagram]) [] init_gbn_socket = Inr (buf', sock) \<and>
    server_loop sock [] = None"
proof -
  let ?F = "replicate 8192 (7 :: byte)"
  have l: "length (chunks ?F) = 2" by (simp add: chunks_8192)
  from file_transfer_outcome [of ?F "[0, 1]" "[]" "[]"] l obtain c buf' sock n where t:
    "client_main ?F init_gbn_socket = Inr c"
    "read_thread (map (\<lambda>k. Some (data_datagram (payloads (chunks ?F)) k)) [0, 1] @ [Some eof_datagram]) [] init_gbn_socket = Inr (buf', sock)"
    "n \<le> 2" "\<forall>m. subseq [0..<m] [0, 1] \<longrightarrow> m \<le> n"
    "map_option fst (server_loop sock []) =
      (let arrived = take (n * DEFAULT_PACKET_SIZE) ?F in if 8192 dvd length arrived then None else Some arrived)"
    by auto
  have "subseq [0..<2] [0, 1 :: nat]" by (simp add: upt_rec)
  then have "n = 2" using t(3,4) by fastforce
  then have "map_option fst (server_loop sock []) = None" using t(5) by (simp add: Let_def DEFAULT_PACKET_SIZE_def)
  then show ?thesis using t(1,2) by auto
qed

end
