(* ===== verification/GbnOpen.thy ===== *)
theory GbnOpen
  imports GbnTransfer
begin

text \<open>
  Opening a go-back-N socket (\<open>gbn_socket_open_client\<close>, \<open>gbn_socket_open_server\<close> and \<open>gethost\<close> in
  \<^verbatim>\<open>gbn_socket.c\<close>), and the address the acknowledgements go to: \<^verbatim>\<open>_m_to_addr\<close>, which
  \<open>recvfrom\<close> overwrites with the sender of each datagram (\<^verbatim>\<open>gbn_read.c\<close>).
\<close>

section \<open>Opening\<close>

text \<open>An address is the 16 bytes of a \<^verbatim>\<open>struct sockaddr_in\<close>: family, port, host, padding.\<close>

definition AF_INET :: u16 where "AF_INET = 2"

definition sockaddr_in :: "byte list \<Rightarrow> u16 \<Rightarrow> byte list" where
  "sockaddr_in host port =
     [ucast AF_INET, ucast (drop_bit 8 AF_INET), ucast (drop_bit 8 port), ucast port] @ take 4 host @ replicate 8 0"

definition null_addr :: "byte list" where
  "null_addr = replicate 16 0"

text \<open>\<open>he\<close>: the four bytes \<^verbatim>\<open>gethostbyname\<close> finds.  The result and the new contents of \<^verbatim>\<open>addr\<close>.\<close>

definition gethost :: "byte list option \<Rightarrow> u16 \<Rightarrow> byte list \<Rightarrow> int \<times> byte list" where
  "gethost he port addr = (case he of None \<Rightarrow> (1, addr) | Some h \<Rightarrow> (0, sockaddr_in h port))"

record endpoint =
  ep_sockfd :: int
  ep_to_addr :: "byte list"
  ep_socket :: gbn_socket
  ep_is_server :: bool

text \<open>What \<open>gethost\<close> returns is ignored.\<close>

definition gbn_socket_open_client :: "int \<Rightarrow> byte list option \<Rightarrow> u16 \<Rightarrow> endpoint option" where
  "gbn_socket_open_client sock he port =
     (if sock > 0 then
        Some \<lparr>ep_sockfd = sock, ep_to_addr = snd (gethost he port null_addr), ep_socket = init_gbn_socket, ep_is_server = False\<rparr>
      else None)"

definition gbn_socket_open_server :: "int \<Rightarrow> int \<Rightarrow> endpoint option" where
  "gbn_socket_open_server sock bind_rv =
     (if sock < 0 then None
      else if bind_rv < 0 then None
      else Some \<lparr>ep_sockfd = sock, ep_to_addr = null_addr, ep_socket = init_gbn_socket, ep_is_server = True\<rparr>)"

section \<open>The address of the peer\<close>

text \<open>
  \<open>recvfrom\<close> stores as much of the sender's address as the size it is given says, and then sets the
  size to that of the whole address.
\<close>

definition recv_address :: "byte list \<Rightarrow> byte list \<times> nat \<Rightarrow> byte list \<times> nat" where
  "recv_address from ad =
     (case ad of (to_addr, sockaddr_size) \<Rightarrow>
        (take sockaddr_size from @ drop (min sockaddr_size (length from)) to_addr, length from))"

text \<open>Where an answer to each of the datagrams from the given senders goes; the size starts at 0.\<close>

fun answer_addresses :: "byte list list \<Rightarrow> byte list \<times> nat \<Rightarrow> byte list list" where
  "answer_addresses [] ad = []"
| "answer_addresses (from # froms) ad = (let ad = recv_address from ad in fst ad # answer_addresses froms ad)"

definition read_thread_answers :: "byte list list \<Rightarrow> endpoint \<Rightarrow> byte list list" where
  "read_thread_answers froms ep = answer_addresses froms (ep_to_addr ep, 0)"

lemma answers_sized:
  "\<forall>f \<in> set froms. length f = 16 \<Longrightarrow> length a = 16 \<Longrightarrow> answer_addresses froms (a, 16) = froms"
  by (induction froms arbitrary: a) (auto simp: recv_address_def Let_def)

lemma read_thread_answers_from:
  assumes "\<forall>f \<in> set (from # froms). length f = 16" "length (ep_to_addr ep) = 16"
  shows "read_thread_answers (from # froms) ep = ep_to_addr ep # froms"
  using assms answers_sized [of froms "ep_to_addr ep"]
  by (simp add: read_thread_answers_def recv_address_def Let_def)

lemma length_sockaddr_in [simp]: "length host = 4 \<Longrightarrow> length (sockaddr_in host port) = 16"
  by (simp add: sockaddr_in_def)

text \<open>
  The answer to the first datagram a server gets is sent to the null address, because the size
  of the address buffer starts at 0; the answers to all later ones go to their senders.  A client answers to
  the address it has resolved, or to the null address if its host is not known, which it does not
  notice.
\<close>

lemma first_answer_lost:
  assumes "\<forall>f \<in> set (from # froms). length f = 16" "0 \<le> sock" "0 < csock"
  shows "(\<exists>ep. gbn_socket_open_server sock 0 = Some ep \<and> read_thread_answers (from # froms) ep = null_addr # froms) \<and>
    (\<exists>ep. gbn_socket_open_client csock None port = Some ep \<and> read_thread_answers (from # froms) ep = null_addr # froms) \<and>
    (\<forall>h. length h = 4 \<longrightarrow> (\<exists>ep. gbn_socket_open_client csock (Some h) port = Some ep \<and>
      read_thread_answers (from # froms) ep = sockaddr_in h port # froms))"
proof -
  have n: "length null_addr = 16" by (simp add: null_addr_def)
  show ?thesis
    using assms(2,3) read_thread_answers_from [OF assms(1)] n
    by (simp add: gbn_socket_open_server_def gbn_socket_open_client_def gethost_def)
qed

lemma first_answer_lost_example:
  "\<exists>ep. gbn_socket_open_server 3 0 = Some ep \<and>
     read_thread_answers [sockaddr_in [127, 0, 0, 1] 5000, sockaddr_in [127, 0, 0, 1] 5000] ep = [null_addr, sockaddr_in [127, 0, 0, 1] 5000]"
  using first_answer_lost [of "sockaddr_in [127, 0, 0, 1] 5000" "[sockaddr_in [127, 0, 0, 1] 5000]" 3 3 0] by simp

end
