(* ===== verification/GbnNetwork.thy ===== *)
theory GbnNetwork
  imports GbnOpen
begin

text \<open>
  The two ends of a transfer together: a client and a server, each a go-back-N socket with its threads,
  and the datagrams between them.  The network keeps the order and does not repeat; it may lose any
  datagram.  The acknowledgements that come to the client are those that the server has sent.
\<close>

section \<open>Hosts\<close>

text \<open>
  \<open>ho_addr\<close>: the address of the host.  \<open>ho_peer\<close>: \<^verbatim>\<open>_m_to_addr\<close> and the size of that buffer.
  \<open>ho_buf\<close>: \<^verbatim>\<open>incoming_buf\<close>.
\<close>

record gbn_host =
  ho_addr :: "byte list"
  ho_peer :: "byte list \<times> nat"
  ho_buf :: "byte list"
  ho_system :: gbn_system

definition host_of :: "byte list \<Rightarrow> byte list \<Rightarrow> endpoint \<Rightarrow> gbn_host" where
  "host_of addr buf ep = \<lparr>ho_addr = addr, ho_peer = (ep_to_addr ep, 0), ho_buf = buf,
     ho_system = gbn_start\<lparr>sys_socket := ep_socket ep\<rparr>\<rparr>"

text \<open>A step of the application or of the writer thread.\<close>

definition host_does :: "gbn_event \<Rightarrow> gbn_host \<Rightarrow> gbn_host result" where
  "host_does e h = bindR (gbn_step e (ho_system h)) (\<lambda>s. Inr (h\<lparr>ho_system := s\<rparr>))"

text \<open>One round of the reader thread, with a datagram \<open>d\<close> from the address \<open>from\<close>.\<close>

definition host_receives :: "byte list \<Rightarrow> byte list \<Rightarrow> gbn_host \<Rightarrow> gbn_host result" where
  "host_receives from d h =
     (let s = ho_system h in
      if sys_reading s then
        bindR (read_thread_round (Some d) (ho_buf h) (sys_socket s)) (\<lambda>(go, buf, sock).
        Inr (h\<lparr>ho_peer := recv_address from (ho_peer h), ho_buf := buf,
               ho_system := s\<lparr>sys_reading := go, sys_socket := sock\<rparr>\<rparr>))
      else Inr h)"

text \<open>What \<open>h'\<close> has sent to the address \<open>a\<close> since it was \<open>h\<close>.\<close>

definition posted :: "byte list \<Rightarrow> gbn_host \<Rightarrow> gbn_host \<Rightarrow> byte list list" where
  "posted a h h' = (if fst (ho_peer h') = a
     then drop (length (gs_out (sys_socket (ho_system h)))) (gs_out (sys_socket (ho_system h'))) else [])"

section \<open>The network\<close>

record gbn_net =
  nt_client :: gbn_host
  nt_server :: gbn_host
  nt_to_server :: "byte list list"
  nt_to_client :: "byte list list"

datatype net_event = AtClient gbn_event | AtServer gbn_event | ToServer | ToClient | LoseToServer | LoseToClient

definition net_of :: "gbn_host \<Rightarrow> gbn_host \<Rightarrow> gbn_net" where
  "net_of c s = \<lparr>nt_client = c, nt_server = s, nt_to_server = [], nt_to_client = []\<rparr>"

definition client_becomes :: "gbn_host \<Rightarrow> gbn_net \<Rightarrow> gbn_net" where
  "client_becomes c net = net\<lparr>nt_client := c,
     nt_to_server := nt_to_server net @ posted (ho_addr (nt_server net)) (nt_client net) c\<rparr>"

definition server_becomes :: "gbn_host \<Rightarrow> gbn_net \<Rightarrow> gbn_net" where
  "server_becomes s net = net\<lparr>nt_server := s,
     nt_to_client := nt_to_client net @ posted (ho_addr (nt_client net)) (nt_server net) s\<rparr>"

definition net_step :: "net_event \<Rightarrow> gbn_net \<Rightarrow> gbn_net result" where
  "net_step e net =
     (case e of
        AtClient e \<Rightarrow> bindR (host_does e (nt_client net)) (\<lambda>c. Inr (client_becomes c net))
      | AtServer e \<Rightarrow> bindR (host_does e (nt_server net)) (\<lambda>s. Inr (server_becomes s net))
      | ToServer \<Rightarrow>
          (case nt_to_server net of [] \<Rightarrow> Inr net
           | d # ds \<Rightarrow> bindR (host_receives (ho_addr (nt_client net)) d (nt_server net)) (\<lambda>s.
               Inr (server_becomes s (net\<lparr>nt_to_server := ds\<rparr>))))
      | ToClient \<Rightarrow>
          (case nt_to_client net of [] \<Rightarrow> Inr net
           | d # ds \<Rightarrow> bindR (host_receives (ho_addr (nt_server net)) d (nt_client net)) (\<lambda>c.
               Inr (client_becomes c (net\<lparr>nt_to_client := ds\<rparr>))))
      | LoseToServer \<Rightarrow> Inr (net\<lparr>nt_to_server := tl (nt_to_server net)\<rparr>)
      | LoseToClient \<Rightarrow> Inr (net\<lparr>nt_to_client := tl (nt_to_client net)\<rparr>))"

fun net_run :: "net_event list \<Rightarrow> gbn_net \<Rightarrow> gbn_net result" where
  "net_run [] net = Inr net"
| "net_run (e # es) net = bindR (net_step e net) (net_run es)"

lemma net_run_snoc: "net_run (es @ [e]) net = bindR (net_run es net) (net_step e)"
  by (induction es arbitrary: net) (auto simp: bindR_def split: sum.splits)

text \<open>
  A transfer in one direction: the client writes and closes, the server only receives.  What arrives
  comes from the network.
\<close>

fun one_way :: "net_event \<Rightarrow> bool" where
  "one_way (AtClient e) \<longleftrightarrow> (case e of WriterStep _ \<Rightarrow> True | Write _ \<Rightarrow> True | Close \<Rightarrow> True | _ \<Rightarrow> False)"
| "one_way (AtServer e) \<longleftrightarrow> (case e of WriterStep _ \<Rightarrow> True | _ \<Rightarrow> False)"
| "one_way _ \<longleftrightarrow> True"

text \<open>The blocks written before the client closes its socket, and the number of packets in all writes.\<close>

fun written_blocks :: "net_event list \<Rightarrow> byte list list" where
  "written_blocks [] = []"
| "written_blocks (AtClient Close # es) = []"
| "written_blocks (AtClient (Write bytes) # es) = chunks bytes @ written_blocks es"
| "written_blocks (_ # es) = written_blocks es"

definition accepted :: "net_event list \<Rightarrow> byte list" where
  "accepted es = concat (written_blocks es)"

definition packets :: "net_event list \<Rightarrow> nat" where
  "packets es = sum_list (map (\<lambda>e. case e of AtClient (Write bytes) \<Rightarrow> length (chunks bytes) | _ \<Rightarrow> 0) es)"

definition may_time_out :: "net_event list \<Rightarrow> bool" where
  "may_time_out es \<longleftrightarrow> AtClient (WriterStep True) \<in> set es"

lemma written_blocks_snoc:
  "written_blocks (es @ [e]) = (if AtClient Close \<in> set es then written_blocks es else written_blocks es @ written_blocks [e])"
  by (induction es rule: written_blocks.induct) auto

lemma packets_snoc [simp]: "packets [] = 0" "packets (es @ [e]) = packets es + packets [e]"
  by (simp_all add: packets_def)

text \<open>The calls of the client program: it writes its file and closes.\<close>

function client_calls :: "byte list \<Rightarrow> gbn_event list" where
  "client_calls content =
     (let buffer = take READ_SIZE content in
      if 0 < length buffer then Write buffer # client_calls (drop READ_SIZE content) else [Close])"
  by pat_completeness auto
termination
  by (relation "measure length") (auto simp: READ_SIZE_def)

declare client_calls.simps [simp del]

text \<open>They are what \<open>client_main\<close> does to the socket.\<close>

lemma client_calls_main:
  "map_sum id sys_socket (gbn_run (client_calls content) s) = client_main content (sys_socket s)"
proof (induction content arbitrary: s rule: client_calls.induct)
  case (1 content)
  show ?case
  proof (cases "content = []")
    case True
    then show ?thesis by (simp add: client_calls.simps client_loop.simps client_main_def gbn_step_def)
  next
    case False
    let ?w = "gbn_socket_write (sys_socket s) (take READ_SIZE content) (of_nat (length (take READ_SIZE content)))"
    have "0 < length (take READ_SIZE content)" using False by (simp add: READ_SIZE_def)
    then show ?thesis using 1 by (subst client_calls.simps, unfold client_main_def, subst client_loop.simps)
      (cases ?w; auto simp: gbn_step_def client_main_def id_def)
  qed
qed

text \<open>What the client's application does.\<close>

fun application :: "net_event \<Rightarrow> bool" where
  "application (AtClient (WriterStep _)) \<longleftrightarrow> False"
| "application (AtClient _) \<longleftrightarrow> True"
| "application _ \<longleftrightarrow> False"

lemma application_only: "written_blocks (filter application es) = written_blocks es" "packets (filter application es) = packets es"
proof -
  show "written_blocks (filter application es) = written_blocks es" by (induction es rule: written_blocks.induct) auto
  have "packets (filter application es) = packets es \<and> packets [e] = (if application e then packets [e] else 0)" for e
  proof (induction es)
    case (Cons e' es)
    then show ?case by (cases e' rule: application.cases) (simp_all add: packets_def)
  qed (cases e rule: application.cases; simp add: packets_def)
  then show "packets (filter application es) = packets es" by blast
qed

lemma client_calls_blocks:
  "written_blocks (map AtClient (client_calls content)) = chunks content \<and> packets (map AtClient (client_calls content)) = length (chunks content)"
proof (induction content rule: client_calls.induct)
  case (1 content)
  show ?case
  proof (cases "content = []")
    case True
    then show ?thesis by (simp add: client_calls.simps packets_def)
  next
    case False
    then have p: "0 < length (take READ_SIZE content)" by (simp add: READ_SIZE_def)
    have "chunks content = chunks (take READ_SIZE content) @ chunks (drop READ_SIZE content)"
    proof (cases "READ_SIZE \<le> length content")
      case True
      then have "DEFAULT_PACKET_SIZE dvd length (take READ_SIZE content)" by (simp add: READ_SIZE_def DEFAULT_PACKET_SIZE_def min_absorb2)
      from chunks_append [OF this] show ?thesis by (metis append_take_drop_id)
    qed simp
    then show ?thesis using p 1 by (subst client_calls.simps, subst (2) client_calls.simps) (simp add: packets_def)
  qed
qed

end
