(* ===== verification/GbnPrograms.thy ===== *)
theory GbnPrograms
  imports GbnOpen Complex_Main
begin

text \<open>
  The two transfer programs from their arguments on (\<^verbatim>\<open>PA2/GBNframework/gbn_client.c\<close>,
  \<^verbatim>\<open>gbn_server.c\<close>), and the network library that loses datagrams (\<^verbatim>\<open>sendto.c\<close>).  The parameter \<open>rd\<close>
  rounds an exact quotient or product to a \<^verbatim>\<open>double\<close>.
\<close>

section \<open>The lossy network\<close>

text \<open>What IEEE 754 says of it: it keeps the order, and integers up to \<open>2 ^ 53\<close> are exact.\<close>

definition double_rounding :: "(rat \<Rightarrow> rat) \<Rightarrow> bool" where
  "double_rounding rd \<longleftrightarrow> mono rd \<and> (\<forall>k. \<bar>k\<bar> \<le> 2 ^ 53 \<longrightarrow> rd (of_int k) = of_int k)"

text \<open>The conversion to \<^verbatim>\<open>int\<close> cuts the fraction off.\<close>

definition c_int :: "rat \<Rightarrow> int" where
  "c_int x = (if 0 \<le> x then \<lfloor>x\<rfloor> else \<lceil>x\<rceil>)"

text \<open>The threshold; \<open>None\<close>: the program exits, with status 0.\<close>

definition init_net_lib :: "(rat \<Rightarrow> rat) \<Rightarrow> rat \<Rightarrow> int option" where
  "init_net_lib rd f1 = (if f1 < 0 \<or> f1 > 1 then None else Some (c_int (rd (f1 * 1000))))"

text \<open>\<open>r\<close>: what \<^verbatim>\<open>rand()\<close> yields; \<open>rv\<close>: what \<^verbatim>\<open>sendto\<close> would return.  The datagrams sent, and the result.\<close>

definition rnd_of :: "(rat \<Rightarrow> rat) \<Rightarrow> int \<Rightarrow> int \<Rightarrow> int" where
  "rnd_of rd rand_max r = c_int (rd (rd (of_int r / of_int rand_max) * 1000))"

definition sendto_lossy :: "(rat \<Rightarrow> rat) \<Rightarrow> int \<Rightarrow> int \<Rightarrow> int \<Rightarrow> int \<Rightarrow> byte list \<Rightarrow> byte list list \<times> int" where
  "sendto_lossy rd rand_max p_threshold r rv d =
     (if rnd_of rd rand_max r > p_threshold then ([d], rv) else ([], int (length d)))"

lemma rounding_range:
  assumes "double_rounding rd" "0 \<le> x" "x \<le> of_int k" "0 \<le> k" "k \<le> 1000"
  shows "0 \<le> rd x \<and> rd x \<le> of_int k"
proof -
  have "mono rd" and e: "\<And>k. \<bar>k\<bar> \<le> 2 ^ 53 \<Longrightarrow> rd (of_int k) = of_int k" using assms(1) by (auto simp: double_rounding_def)
  then have "rd 0 \<le> rd x" "rd x \<le> rd (of_int k)" using assms(2,3) by (auto dest: monoD)
  then show ?thesis using e [of 0] e [of k] assms(4,5) by simp
qed

lemma c_int_range: "0 \<le> x \<Longrightarrow> x \<le> of_int k \<Longrightarrow> 0 \<le> c_int x \<and> c_int x \<le> k"
  by (simp add: c_int_def floor_le_iff le_floor_iff)

lemma threshold_range:
  assumes "double_rounding rd" "init_net_lib rd f1 = Some p"
  shows "0 \<le> p \<and> p \<le> 1000"
proof -
  have f: "0 \<le> f1 * 1000" "f1 * 1000 \<le> of_int 1000" "p = c_int (rd (f1 * 1000))"
    using assms(2) by (auto simp: init_net_lib_def split: if_splits)
  then show ?thesis using rounding_range [OF assms(1) f(1,2)] c_int_range [of "rd (f1 * 1000)" 1000] by simp
qed

lemma rnd_range:
  assumes "double_rounding rd" "0 \<le> r" "r \<le> rand_max" "0 < rand_max"
  shows "0 \<le> rnd_of rd rand_max r \<and> rnd_of rd rand_max r \<le> 1000"
proof -
  have "0 \<le> (of_int r / of_int rand_max :: rat)" "(of_int r / of_int rand_max :: rat) \<le> of_int 1" using assms(2-4) by simp_all
  from rounding_range [OF assms(1) this] have q: "0 \<le> rd (of_int r / of_int rand_max)" "rd (of_int r / of_int rand_max) \<le> 1" by simp_all
  then have "0 \<le> rd (of_int r / of_int rand_max) * 1000" "rd (of_int r / of_int rand_max) * 1000 \<le> of_int 1000" by simp_all
  from rounding_range [OF assms(1) this] c_int_range [of _ 1000] show ?thesis by (simp add: rnd_of_def)
qed

text \<open>
  The threshold and the random number lie between 0 and 1000, however the \<^verbatim>\<open>double\<close> arithmetic
  rounds.  With an error rate of 1 nothing is ever sent; a datagram that is lost with some error rate is
  lost with every higher one; and one draw is lost even with an error rate of 0.
\<close>

lemma loss_rate:
  assumes "double_rounding rd" "init_net_lib rd f1 = Some p" "0 \<le> r" "r \<le> rand_max" "0 < rand_max"
  shows "0 \<le> p \<and> p \<le> 1000 \<and> 0 \<le> rnd_of rd rand_max r \<and> rnd_of rd rand_max r \<le> 1000 \<and>
    (f1 = 1 \<longrightarrow> sendto_lossy rd rand_max p r rv d = ([], int (length d))) \<and>
    (\<forall>f2 p2. f1 \<le> f2 \<and> init_net_lib rd f2 = Some p2 \<and> fst (sendto_lossy rd rand_max p r rv d) = [] \<longrightarrow>
       fst (sendto_lossy rd rand_max p2 r rv d) = []) \<and>
    sendto_lossy rd rand_max p 0 rv d = ([], int (length d))"
proof -
  have m: "mono rd" and e: "rd 0 = 0" "rd 1000 = 1000" using assms(1) by (auto simp: double_rounding_def dest: spec [of _ 0] spec [of _ 1000])
  have p: "p = c_int (rd (f1 * 1000))" "0 \<le> f1 * 1000" using assms(2) by (auto simp: init_net_lib_def split: if_splits)
  have le: "p \<le> p2" if "f1 \<le> f2" "init_net_lib rd f2 = Some p2" for f2 p2
  proof -
    have "rd (f1 * 1000) \<le> rd (f2 * 1000)" using that(1) by (intro monoD [OF m]) simp
    moreover have "p2 = c_int (rd (f2 * 1000))" using that(2) by (auto simp: init_net_lib_def split: if_splits)
    moreover have "0 \<le> rd (f1 * 1000)" using monoD [OF m p(2)] e(1) by simp
    ultimately show ?thesis unfolding p(1) c_int_def by (simp add: floor_mono)
  qed
  have lost: "fst (sendto_lossy rd rand_max p r rv d) = [] \<longleftrightarrow> rnd_of rd rand_max r \<le> p" for p
    by (simp add: sendto_lossy_def)
  have one: "p = 1000" if "f1 = 1" using that e by (simp add: p(1) c_int_def)
  have "rnd_of rd rand_max 0 = 0" by (simp add: rnd_of_def e c_int_def)
  moreover note t = threshold_range [OF assms(1,2)] rnd_range [OF assms(1,3-5)]
  ultimately have "sendto_lossy rd rand_max p 0 rv d = ([], int (length d))" by (simp add: sendto_lossy_def)
  moreover have "f1 = 1 \<longrightarrow> sendto_lossy rd rand_max p r rv d = ([], int (length d))" using one t by (auto simp: sendto_lossy_def)
  ultimately show ?thesis unfolding lost using t le by (meson order.trans)
qed

lemma loss_rate_example:
  "init_net_lib (\<lambda>x. x) (1 / 4) = Some 250 \<and> sendto_lossy (\<lambda>x. x) 2147483647 250 0 4 [1, 2, 3, 4] = ([], 4)"
proof -
  have "double_rounding (\<lambda>x. x)" by (simp add: double_rounding_def mono_def)
  moreover have i: "init_net_lib (\<lambda>x. x) (1 / 4) = Some 250" by (simp add: init_net_lib_def c_int_def)
  ultimately show ?thesis using loss_rate [of "\<lambda>x. x" "1 / 4" 250 0 2147483647 4 "[1, 2, 3, 4]"] by simp
qed

section \<open>The programs\<close>

text \<open>
  What the programs get from their surroundings: the library functions on strings, the results of the
  socket calls, and the files.
\<close>

record program_env =
  env_round :: "rat \<Rightarrow> rat"
  env_atof :: "byte list \<Rightarrow> rat"
  env_atoi :: "byte list \<Rightarrow> int"
  env_host :: "byte list \<Rightarrow> byte list option"
  env_socket :: int
  env_bind :: int
  env_file :: "byte list \<Rightarrow> byte list option"
  env_writable :: "byte list \<Rightarrow> bool"
  env_errno :: int

text \<open>
  The program exits with a status before anything is transferred, waits for ever, or is done: the
  threshold, what was written to the file, and the socket, closed.
\<close>

datatype outcome = Exits int | Hangs | Done int "byte list" gbn_socket

text \<open>\<^verbatim>\<open>argv[argc]\<close> is the null pointer, which none of its uses allows.\<close>

definition argv_at :: "byte list list \<Rightarrow> nat \<Rightarrow> byte list result" where
  "argv_at argv k = (if k < length argv then Inr (argv ! k) else if k = length argv then Inl NullDeref else Inl OutOfBounds)"

definition client_program :: "program_env \<Rightarrow> byte list list \<Rightarrow> outcome result" where
  "client_program env argv =
     (if length argv < 6 then Inr (Exits 1)
      else
        bindR (argv_at argv 6) (\<lambda>log.
        bindR (argv_at argv 3) (\<lambda>rate.
        case init_net_lib (env_round env) (env_atof env rate) of None \<Rightarrow> Inr (Exits 0)
        | Some p_threshold \<Rightarrow>
            bindR (argv_at argv 1) (\<lambda>host.
            bindR (argv_at argv 2) (\<lambda>port.
            let sock = gbn_socket_open_client (env_socket env) (env_host env host) (word_of_int (env_atoi env port)) in
            bindR (argv_at argv 5) (\<lambda>path.
            case env_file env path of None \<Rightarrow> Inr (Exits (env_errno env))
            | Some content \<Rightarrow>
                (case sock of None \<Rightarrow> Inl NullDeref
                 | Some ep \<Rightarrow> bindR (client_main content (ep_socket ep)) (\<lambda>sock. Inr (Done p_threshold [] sock)))))))))"

text \<open>
  \<open>q\<close>: what the reader thread puts into the queue.  That the output file cannot be opened is not
  checked; it is used at the first read that returns.
\<close>

definition server_program :: "program_env \<Rightarrow> data_block list \<Rightarrow> byte list list \<Rightarrow> outcome result" where
  "server_program env q argv =
     (if length argv < 5 then Inr (Exits 1)
      else
        bindR (argv_at argv 5) (\<lambda>log.
        bindR (argv_at argv 1) (\<lambda>port.
        let sock = gbn_socket_open_server (env_socket env) (env_bind env) in
        bindR (argv_at argv 2) (\<lambda>rate.
        case init_net_lib (env_round env) (env_atof env rate) of None \<Rightarrow> Inr (Exits 0)
        | Some p_threshold \<Rightarrow>
            (case sock of None \<Rightarrow> Inr (Exits 1)
             | Some ep \<Rightarrow>
                 let sock = (ep_socket ep)\<lparr>gs_receive_buffer := q\<rparr> in
                 bindR (argv_at argv 4) (\<lambda>path.
                 if env_writable env path then
                   (case server_loop sock [] of None \<Rightarrow> Inr Hangs
                    | Some (out, sock) \<Rightarrow> Inr (Done p_threshold out (gbn_socket_close sock)))
                 else (case gbn_socket_read sock DEFAULT_BUF_SIZE of Blocked _ \<Rightarrow> Inr Hangs | ReadBytes _ _ \<Rightarrow> Inl NullDeref)))))))"

text \<open>
  How the client program ends, for all arguments: with six arguments in \<^verbatim>\<open>argv\<close>, which its check
  accepts, it opens a log file without a name; a wrong error rate ends it with status 0; a socket that
  could not be opened is used; otherwise the socket has exactly the blocks of the file and the end
  mark to send.
\<close>

lemma client_program_outcome:
  "client_program env argv =
    (if length argv < 6 then Inr (Exits 1)
     else if length argv = 6 then Inl NullDeref
     else case init_net_lib (env_round env) (env_atof env (argv ! 3)) of None \<Rightarrow> Inr (Exits 0)
     | Some p \<Rightarrow> (case env_file env (argv ! 5) of None \<Rightarrow> Inr (Exits (env_errno env))
       | Some content \<Rightarrow> if env_socket env \<le> 0 then Inl NullDeref
           else Inr (Done p [] (init_gbn_socket\<lparr>gs_sending_buffer := blocks_of content @ [closing_block]\<rparr>))))"
proof -
  have "client_main content init_gbn_socket = Inr (init_gbn_socket\<lparr>gs_sending_buffer := blocks_of content @ [closing_block]\<rparr>)" for content
    by (simp add: client_main_def client_loop_queues gbn_socket_close_def init_gbn_socket_def push_block_def closing_block_def)
  then show ?thesis
    by (simp add: client_program_def argv_at_def Let_def gbn_socket_open_client_def split: option.splits)
qed


end
