(* ===== verification/GbnNetworkInv.thy ===== *)
theory GbnNetworkInv
  imports GbnNetwork GbnPrograms
begin

text \<open>
  What the transfer of \<open>GbnNetwork\<close> promises.  The invariant \<open>net_ok\<close> says what the two sockets and the
  datagrams under way have in common: packet numbers on the way to the server increase, and an
  acknowledgement on its way to the client was sent for a packet that the client still holds.
\<close>

section \<open>The client\<close>

definition finished :: "writer_state option \<Rightarrow> bool" where
  "finished st \<longleftrightarrow> st = None \<or> st = Some State_close_connection"

text \<open>The blocks that are still to be sent: those before the end mark.\<close>

definition to_send :: "writer_state option \<Rightarrow> gbn_socket \<Rightarrow> data_block list" where
  "to_send st sock = (if finished st then [] else takeWhile (\<lambda>b. \<not> db_closing b) (gs_sending_buffer sock))"

text \<open>\<open>c\<close> packets were sent, with the payloads \<open>data 0\<close>, \<open>data 1\<close>, and the first \<open>b\<close> are acknowledged.\<close>

definition client_at :: "(nat \<Rightarrow> byte list) \<Rightarrow> nat \<Rightarrow> nat \<Rightarrow> net_event list \<Rightarrow> writer_state option \<Rightarrow> gbn_socket \<Rightarrow> bool" where
  "client_at data c b es st sock \<longleftrightarrow>
     unat (gs_seq_number sock) = c \<and> window_ok c (c - b) (gs_sending_window sock) \<and> b \<le> c \<and>
     queue_ok (gs_sending_buffer sock) \<and> \<not> gs_closed sock \<and>
     (st = Some State_send_packet \<longrightarrow> c - b < 6) \<and> (st = Some State_block_on_queue \<longrightarrow> c = b) \<and>
     (st = Some State_retransmit \<longrightarrow> may_time_out es) \<and> (\<forall>k. length (data k) \<le> DEFAULT_PACKET_SIZE) \<and>
     map data [0..<c] @ map db_data (to_send st sock) = written_blocks es \<and>
     c + length (to_send st sock) \<le> packets es \<and>
     (AtClient Close \<in> set es \<longleftrightarrow> finished st \<or> (\<exists>b \<in> set (gs_sending_buffer sock). db_closing b))"

lemma no_input:
  assumes "\<forall>bytes. e \<noteq> AtClient (Write bytes)" "e \<noteq> AtClient Close"
  shows "written_blocks [e] = []" "packets [e] = 0"
proof -
  have "written_blocks [e] = [] \<and> packets [e] = 0"
  proof (cases e)
    case (AtClient g)
    then show ?thesis using assms by (cases g) (simp_all add: packets_def)
  qed (simp_all add: packets_def)
  then show "written_blocks [e] = []" "packets [e] = 0" by simp_all
qed

lemma client_at_other:
  assumes "client_at data c b es st sock" "\<forall>bytes. e \<noteq> AtClient (Write bytes)" "e \<noteq> AtClient Close"
  shows "client_at data c b (es @ [e]) st sock"
  using assms(1,3) no_input [OF assms(2,3)] unfolding client_at_def by (auto simp: written_blocks_snoc may_time_out_def)

text \<open>One state of the writer thread: it fails, sends the next packet or the end mark, or sends nothing.\<close>

definition sends :: "(nat \<Rightarrow> byte list) \<Rightarrow> nat \<Rightarrow> writer_state option \<Rightarrow> byte list list \<Rightarrow> (nat \<Rightarrow> byte list) \<Rightarrow> nat \<Rightarrow> bool" where
  "sends data c st new data' c' \<longleftrightarrow>
     (\<exists>x. data' = data(c := x) \<and> c' = Suc c \<and> new = [data_datagram data' c] \<and> st \<noteq> None) \<or>
     data' = data \<and> c' = c \<and> new = (if st = None then [eof_datagram] else [])"

lemma client_writer_send:
  assumes "client_at data c b es (Some State_send_packet) sock" "packets es \<le> 255"
  shows "\<exists>st' sock' new data' c'. send_packet sock = Inr (st', sock') \<and> client_at data' c' b es st' sock' \<and>
    gs_out sock' = gs_out sock @ new \<and> gs_read_closed sock' = gs_read_closed sock \<and> sends data c st' new data' c'"
proof (cases "gs_sending_buffer sock")
  case Nil
  then show ?thesis using assms(1) by (auto simp: send_packet_def sends_def)
next
  case (Cons x q)
  note cl = assms(1)[unfolded client_at_def]
  show ?thesis
  proof (cases "db_closing x")
    case True
    then have "send_packet sock = Inr (Some State_close_connection, sock\<lparr>gs_sending_buffer := q\<rparr>)"
      using Cons by (simp add: send_packet_def)
    moreover have "client_at data c b es (Some State_close_connection) (sock\<lparr>gs_sending_buffer := q\<rparr>)"
      using cl Cons True by (auto simp: client_at_def finished_def to_send_def)
    ultimately show ?thesis by (auto simp: sends_def)
  next
    case False
    have le: "Suc c \<le> packets es" and t: "to_send (Some State_send_packet) sock = x # takeWhile (\<lambda>b. \<not> db_closing b) q"
      using cl Cons False by (auto simp: to_send_def finished_def)
    have c: "unat (gs_seq_number sock) = c" "c < 4294967000" "db_data x \<noteq> []" "length (db_data x) \<le> DEFAULT_PACKET_SIZE" "c - b < 6"
      using cl le assms(2) Cons False by auto
    obtain w where w: "send_packet sock = Inr (Some State_is_win_full_q, send_datagram (data_datagram (\<lambda>_. db_data x) c)
          (sock\<lparr>gs_sending_buffer := q, gs_seq_number := gs_seq_number sock + 1, gs_sending_window := w\<rparr>))"
      "window_ok (Suc c) (Suc (c - b)) w"
      using send_packet_sends [of sock "c - b" x q] cl c Cons False by auto
    let ?sock = "send_datagram (data_datagram (\<lambda>_. db_data x) c)
          (sock\<lparr>gs_sending_buffer := q, gs_seq_number := gs_seq_number sock + 1, gs_sending_window := w\<rparr>)"
    let ?data = "data(c := db_data x)"
    have d: "data_datagram (\<lambda>_. db_data x) c = data_datagram ?data c" by (rule data_datagram_cong) simp
    have m: "map ?data [0..<Suc c] = map data [0..<c] @ [db_data x]" by simp
    have "unat (gs_seq_number sock + 1) = Suc c" using c(1,2) by (simp add: unat_word_ariths)
    moreover have "Suc (c - b) = Suc c - b" using cl by (simp only: Suc_diff_le)
    ultimately have "client_at ?data (Suc c) b es (Some State_is_win_full_q) ?sock"
      using cl c w(2) le Cons False t m unfolding client_at_def send_datagram_def
      by (simp add: to_send_def finished_def del: upt_Suc)
    then show ?thesis using w(1) d unfolding sends_def by (auto simp: send_datagram_def)
  qed
qed

lemma client_writer_step:
  assumes "client_at data c b es (Some st) sock" "packets es \<le> 255"
  shows "writer_step t st sock = Inl UseAfterFree \<and> may_time_out es \<or>
    (\<exists>st' sock' new data' c'. writer_step t st sock = Inr (st', sock') \<and>
      client_at data' c' b (es @ [AtClient (WriterStep t)]) st' sock' \<and>
      gs_out sock' = gs_out sock @ new \<and> gs_read_closed sock' = gs_read_closed sock \<and> sends data c st' new data' c')"
proof -
  note cl = assms(1)[unfolded client_at_def]
  have o: "client_at d c' b es st' s \<Longrightarrow> client_at d c' b (es @ [AtClient (WriterStep t)]) st' s" for d c' st' s
    by (rule client_at_other) simp_all
  have size: "unat (gw_size (gs_sending_window sock)) = c - b" using cl by (simp add: window_ok_def)
  then have zero: "gw_size (gs_sending_window sock) = 0 \<longleftrightarrow> c = b" using cl word_of_unat [of "gw_size (gs_sending_window sock)" 0] by auto
  show ?thesis
  proof (cases st)
    case State_send_packet
    then show ?thesis using client_writer_send [OF assms(1)[unfolded State_send_packet] assms(2)] o
      by (simp add: writer_step_def) blast
  next
    case State_close_connection
    then have "writer_step t st sock = Inr (None, send_datagram eof_datagram sock)" by (simp add: writer_step_def close_connection_sends)
    moreover have "client_at data c b es None (send_datagram eof_datagram sock)"
      using cl State_close_connection by (auto simp: client_at_def send_datagram_def to_send_def finished_def)
    ultimately show ?thesis using o by (auto simp: sends_def send_datagram_def)
  next
    case State_retransmit
    show ?thesis
    proof (cases "c = b")
      case True
      then have "writer_step t st sock = Inr (Some State_wait_on_read, sock)"
        using State_retransmit zero by (simp add: writer_step_def retransmit_def)
      moreover have "client_at data c b es (Some State_wait_on_read) sock"
        using cl State_retransmit by (auto simp: client_at_def to_send_def finished_def)
      ultimately show ?thesis using o by (auto simp: sends_def)
    next
      case False
      then show ?thesis using retransmit_freed [of c "c - b" sock] cl State_retransmit by (auto simp: writer_step_def)
    qed
  next
    case State_wait_on_read
    let ?st = "if t then State_retransmit else State_window_empty_q"
    have "writer_step t st sock = Inr (Some ?st, sock)" using State_wait_on_read by (simp add: writer_step_def wait_on_read_def)
    moreover have "client_at data c b (es @ [AtClient (WriterStep t)]) (Some ?st) sock"
      using cl o [OF assms(1)] State_wait_on_read by (auto simp: client_at_def to_send_def finished_def may_time_out_def)
    ultimately show ?thesis by (auto simp: sends_def)
  next
    case State_window_empty_q
    let ?st = "if c = b then State_block_on_queue else State_is_win_full_q"
    have "writer_step t st sock = Inr (Some ?st, sock)" using State_window_empty_q zero by (simp add: writer_step_def window_empty_q_def)
    moreover have "client_at data c b es (Some ?st) sock"
      using cl State_window_empty_q by (auto simp: client_at_def to_send_def finished_def)
    ultimately show ?thesis using o by (auto simp: sends_def)
  next
    case State_block_on_queue
    let ?st = "if gs_sending_buffer sock = [] then State_block_on_queue else State_send_packet"
    have "writer_step t st sock = Inr (Some ?st, sock)" using State_block_on_queue by (simp add: writer_step_def block_on_queue_def)
    moreover have "client_at data c b es (Some ?st) sock"
      using cl State_block_on_queue by (auto simp: client_at_def to_send_def finished_def)
    ultimately show ?thesis using o by (auto simp: sends_def)
  next
    case State_is_win_full_q
    let ?st = "if c - b < 6 \<and> gs_sending_buffer sock \<noteq> [] then State_send_packet else State_wait_on_read"
    have "writer_step t st sock = Inr (Some ?st, sock)"
      using State_is_win_full_q size by (simp add: writer_step_def is_win_full_q_def DEFAULT_QUEUE_SIZE_def)
    moreover have "client_at data c b es (Some ?st) sock"
      using cl State_is_win_full_q by (auto simp: client_at_def to_send_def finished_def)
    ultimately show ?thesis using o by (auto simp: sends_def)
  qed
qed

text \<open>What the application does.\<close>

lemma length_chunks: "length bytes \<le> length (chunks bytes) * DEFAULT_PACKET_SIZE"
proof -
  have "sum_list (map length (chunks bytes)) \<le> sum_list (map (\<lambda>_. DEFAULT_PACKET_SIZE) (chunks bytes))"
    by (rule sum_list_mono) (simp add: chunks_length_le)
  then show ?thesis using length_concat [of "chunks bytes"] by (simp add: sum_list_triv)
qed

lemma blocks_of_simps: "map db_data (blocks_of bytes) = chunks bytes" "length (blocks_of bytes) = length (chunks bytes)"
  "b \<in> set (blocks_of bytes) \<Longrightarrow> \<not> db_closing b" "queue_ok (blocks_of bytes)"
  by (auto simp: blocks_of_def comp_def queue_ok_def dest: chunks_length_le)

lemma client_write:
  assumes "client_at data c b es st sock" "packets (es @ [AtClient (Write bytes)]) \<le> 255"
  shows "\<exists>n sock'. gbn_socket_write sock bytes (of_nat (length bytes)) = Inr (n, sock') \<and>
    client_at data c b (es @ [AtClient (Write bytes)]) st sock' \<and> gs_out sock' = gs_out sock \<and> gs_read_closed sock' = gs_read_closed sock"
proof -
  note cl = assms(1)[unfolded client_at_def]
  let ?s = "sock\<lparr>gs_sending_buffer := gs_sending_buffer sock @ blocks_of bytes\<rparr>" and ?e = "AtClient (Write bytes)"
  have "length (chunks bytes) \<le> 255" using assms(2) by (simp add: packets_def)
  then have "length bytes < 2 ^ 32" using length_chunks [of bytes] by (simp add: DEFAULT_PACKET_SIZE_def)
  then have w: "gbn_socket_write sock bytes (of_nat (length bytes)) = Inr (of_nat (length bytes), ?s)" by (rule gbn_socket_write_chunks)
  have cs: "AtClient Close \<in> set es \<longleftrightarrow> finished st \<or> (\<exists>b \<in> set (gs_sending_buffer sock). db_closing b)" using cl by blast
  have t: "to_send st ?s = to_send st sock @ (if AtClient Close \<in> set es then [] else blocks_of bytes)"
  proof (cases "AtClient Close \<in> set es")
    case True
    then show ?thesis using cs by (auto simp: to_send_def)
  next
    case False
    then have "\<not> finished st" "\<forall>b \<in> set (gs_sending_buffer sock). \<not> db_closing b" using cs by auto
    then show ?thesis using False by (simp add: to_send_def blocks_of_simps takeWhile_append2 takeWhile_eq_all_conv [THEN iffD2])
  qed
  have "written_blocks (es @ [?e]) = written_blocks es @ (if AtClient Close \<in> set es then [] else chunks bytes)" by (simp add: written_blocks_snoc)
  moreover have "packets (es @ [?e]) = packets es + length (chunks bytes)" by (simp add: packets_def)
  ultimately have "client_at data c b (es @ [?e]) st ?s"
    using cl cs unfolding client_at_def t by (auto simp: blocks_of_simps may_time_out_def)
  then show ?thesis using w by auto
qed

lemma client_close:
  assumes "client_at data c b es st sock"
  shows "client_at data c b (es @ [AtClient Close]) st (gbn_socket_close sock) \<and> gs_out (gbn_socket_close sock) = gs_out sock \<and>
    gs_read_closed (gbn_socket_close sock) = gs_read_closed sock"
proof -
  note cl = assms[unfolded client_at_def]
  have "written_blocks (es @ [AtClient Close]) = written_blocks es" "packets (es @ [AtClient Close]) = packets es"
    by (simp_all add: written_blocks_snoc packets_def)
  moreover have "gbn_socket_close sock = sock\<lparr>gs_sending_buffer := gs_sending_buffer sock @ [closing_block]\<rparr>"
    using cl by (simp add: gbn_socket_close_def push_block_def closing_block_def)
  moreover have "to_send st (sock\<lparr>gs_sending_buffer := gs_sending_buffer sock @ [closing_block]\<rparr>) = to_send st sock"
    by (simp add: to_send_def takeWhile_tail closing_block_def)
  ultimately show ?thesis using cl by (auto simp: client_at_def may_time_out_def closing_block_def)
qed

text \<open>An acknowledgement that was sent for a packet \<open>k\<close> that is not acknowledged yet.\<close>

lemma ack_wire: "gbn_socket_deserialize (ack_of a @ junk) (length (ack_of a)) =
    Inr \<lparr>gp_type = gbn_packet_type_ack, gp_seq_number = of_nat a - 1, gp_size = 0, gp_payload = Some []\<rparr>"
proof -
  let ?p = "\<lparr>gp_type = gbn_packet_type_ack, gp_seq_number = of_nat a - 1, gp_size = 0, gp_payload = Some []\<rparr>"
  have "gbn_socket_serialize ?p SERIALIZE_SIZE = Inr (12, ack_of a)"
    by (simp add: gbn_socket_serialize_def copy_from_def ack_of_def SERIALIZE_SIZE_def SERIALIZE_OVERHEAD_def)
  then show ?thesis using packet_wire [of ?p "[]" junk] by auto
qed

lemma handle_ack_none:
  assumes "window_ok c n w" "c \<le> 255" "n \<noteq> 0"
  shows "handle_ack (- 1) w = Inr w"
proof -
  from assms(1) have w: "n \<le> 6" "n \<le> c" "unat (gw_head w) = (c - n) mod 6" "length (gw_packet_buffer w) = 6"
    and fr: "\<And>k. c \<le> k + 6 \<Longrightarrow> k < c \<Longrightarrow> unat (gp_seq_number (gw_packet_buffer w ! (k mod 6))) = k"
    by (auto simp: window_ok_def frame_sent_def)
  let ?h = "gp_seq_number (gw_packet_buffer w ! ((c - n) mod 6))"
  have "unat ?h = c - n" using fr [of "c - n"] w assms(3) by simp
  then have "unat (?h + of_nat DEFAULT_QUEUE_SIZE) = c - n + 6" using assms(2) by (simp add: unat_word_ariths DEFAULT_QUEUE_SIZE_def)
  moreover have "unat (- 1 :: u32) = 4294967295" by (simp add: unsigned_minus_1_eq_mask mask_eq_exp_minus_1)
  ultimately have "\<not> - 1 < ?h + of_nat DEFAULT_QUEUE_SIZE" using assms(2) by (simp add: word_less_nat_alt)
  then show ?thesis using w by (simp add: handle_ack_def GET_SEND_FRAME_id_delta_def DEFAULT_QUEUE_SIZE_def)
qed

lemma client_ack:
  assumes "client_at data c b es st sock" "c \<le> 255" "b \<le> k" "k < c" "a \<le> Suc k" "\<not> gs_read_closed sock"
  shows "\<exists>buf' sock'. read_thread_round (Some (ack_of a)) buf sock = Inr (True, buf', sock') \<and>
    client_at data c (max b a) es st sock' \<and> gs_out sock' = gs_out sock \<and> gs_read_closed sock' = gs_read_closed sock"
proof -
  note cl = assms(1)[unfolded client_at_def]
  let ?w = "gs_sending_window sock"
  have n: "window_ok c (c - b) ?w" "c - (c - b) = b" "c - b \<noteq> 0" "c \<le> 4294967000" using cl assms(2-4) by auto
  obtain w where w: "handle_ack (of_nat a - 1) ?w = Inr w" "window_ok c (c - max b a) w"
  proof (cases a)
    case 0
    then show ?thesis using that handle_ack_none [OF n(1) assms(2) n(3)] n(1) by simp
  next
    case (Suc a')
    have u: "unat (of_nat a' :: u32) = a'" using assms Suc by (simp add: unat_of_nat take_bit_nat_eq_self)
    have e: "of_nat a - 1 = (of_nat a' :: u32)" using Suc by simp
    show ?thesis
    proof (cases "b \<le> a'")
      case True
      then have "max b a = Suc a'" using Suc by simp
      then show ?thesis using that handle_ack_outstanding [OF n(1,4), of "of_nat a'"] True assms Suc unfolding e n(2) u by auto
    next
      case False
      then have "max b a = b" using Suc by simp
      then show ?thesis using that handle_ack_old [OF n(1,4,3), of "of_nat a'"] False n(1) unfolding e n(2) u by auto
    qed
  qed
  let ?s = "sock\<lparr>gs_sending_window := w\<rparr>"
  have "client_at data c (max b a) es st ?s"
    using cl w(2) assms by (auto simp: client_at_def to_send_def)
  moreover have "read_thread_round (Some (ack_of a)) buf sock = Inr (True, ack_of a @ drop (length (ack_of a)) buf, ?s)"
    using assms(6) w(1) by (simp add: read_thread_round_def Let_def ack_wire handle_packet_def)
  ultimately show ?thesis by auto
qed

section \<open>The server\<close>

definition server_end :: "(nat \<Rightarrow> byte list) \<Rightarrow> nat \<Rightarrow> nat set \<Rightarrow> bool \<Rightarrow> writer_state option \<Rightarrow> gbn_socket \<Rightarrow> bool" where
  "server_end data n B ended st sock \<longleftrightarrow>
     gs_sending_window sock = init_gbn_window \<and> (\<forall>b \<in> set (gs_sending_buffer sock). db_closing b) \<and>
     (st = Some State_close_connection \<longrightarrow> ended) \<and>
     (if ended then gs_receive_buffer sock = map (data_block_of data) [0..<n] @ [closing_block] \<and> \<not> gs_closed sock \<and> gs_current_block_ptr sock = 0
      else receiving data (n, B) sock \<and> gs_sending_buffer sock = [])"

lemma server_end_start: "server_end data 0 {} False (Some State_window_empty_q) init_gbn_socket"
  using receiving_init by (simp add: server_end_def init_gbn_socket_def)

lemma receiving_cong:
  assumes "receiving data (n, B) sock" "n \<le> c" "\<forall>x \<in> B. x < c" "\<forall>k < c. data' k = data k"
  shows "receiving data' (n, B) sock"
proof -
  have "data_packet data' k = data_packet data k" if "k < c" for k using assms(4) that by (simp add: data_packet_def)
  moreover have "map (data_block_of data') [0..<n] = map (data_block_of data) [0..<n]" using assms(2,4) by (auto simp: data_block_of_def)
  ultimately show ?thesis using assms(1,3) unfolding receiving_def window_holds_def by (auto simp: Let_def)
qed

lemma server_end_cong:
  assumes "server_end data n B ended st sock" "n \<le> c" "\<forall>x \<in> B. x < c" "\<forall>k < c. data' k = data k"
  shows "server_end data' n B ended st sock"
proof -
  have "map (data_block_of data') [0..<n] = map (data_block_of data) [0..<n]" using assms(2,4) by (auto simp: data_block_of_def)
  then show ?thesis using assms receiving_cong [OF _ assms(2-4)] by (auto simp: server_end_def split: if_splits)
qed

lemma server_data:
  assumes "server_end data n B False st sock" "k < 255" "\<forall>k. length (data k) \<le> DEFAULT_PACKET_SIZE" "sr_step k (n, B) = (n', B')"
  shows "\<exists>buf' sock'. read_thread_round (Some (data_datagram data k)) buf sock = Inr (True, buf', sock') \<and>
    server_end data n' B' False st sock' \<and> gs_out sock' = gs_out sock @ [ack_of n']"
proof -
  have r: "receiving data (n, B) sock" using assms(1) by (simp add: server_end_def)
  obtain sock' where h: "handle_packet (data_packet data k) sock = Inr (True, sock')" "receiving data (n', B') sock'"
    "gs_out sock' = gs_out sock @ [ack_of n']"
    using handle_data_receiving [OF r assms(2,3)] assms(4) by auto
  have "\<not> gs_read_closed sock" using r by (simp add: receiving_def)
  then have "read_thread_round (Some (data_datagram data k)) buf sock =
      Inr (True, data_datagram data k @ drop (length (data_datagram data k)) buf, sock')"
    using h(1) assms(3) by (simp add: read_thread_round_def Let_def data_datagram_wire)
  moreover have "handle_data (data_packet data k) sock = Inr sock'"
    using h(1) by (auto simp: handle_packet_def bindR_eq_Inr)
  then have "server_end data n' B' False st sock'" using assms(1) h(2) by (auto simp: server_end_def dest!: handle_data_sender)
  ultimately show ?thesis using h(3) by blast
qed

definition ack_eof_datagram :: "byte list" where
  "ack_eof_datagram = store_u32 (htonl gbn_packet_type_ack_EOF) @ store_u32 (htonl 0) @ store_u32 (htonl 0)"

text \<open>The end mark, or its acknowledgement, ends the reader thread.\<close>

lemma empty_wire:
  "gbn_socket_deserialize ((store_u32 (htonl type) @ store_u32 (htonl 0) @ store_u32 (htonl 0)) @ junk) 12 =
     Inr \<lparr>gp_type = type, gp_seq_number = 0, gp_size = 0, gp_payload = Some []\<rparr>"
proof -
  let ?p = "\<lparr>gp_type = type, gp_seq_number = 0, gp_size = 0, gp_payload = Some []\<rparr>"
  have "gbn_socket_serialize ?p SERIALIZE_SIZE = Inr (12, store_u32 (htonl type) @ store_u32 (htonl 0) @ store_u32 (htonl 0))"
    by (simp add: gbn_socket_serialize_def copy_from_def SERIALIZE_SIZE_def SERIALIZE_OVERHEAD_def)
  then show ?thesis using packet_wire [of ?p "[]" junk] by auto
qed

lemma length_eof: "length eof_datagram = 12" "length ack_eof_datagram = 12"
  by (simp_all add: eof_datagram_def ack_eof_datagram_def)

lemma receive_eof:
  assumes "\<not> gs_read_closed sock"
  shows "\<exists>buf'. read_thread_round (Some eof_datagram) buf sock = Inr (False, buf', send_datagram ack_eof_datagram
    (sock\<lparr>gs_read_closed := True, gs_sending_buffer := gs_sending_buffer sock @ [closing_block],
          gs_receive_buffer := gs_receive_buffer sock @ [closing_block]\<rparr>))"
proof -
  have "gbn_socket_deserialize (eof_datagram @ r) 12 = Inr \<lparr>gp_type = gbn_packet_type_EOF, gp_seq_number = 0, gp_size = 0, gp_payload = Some []\<rparr>" for r
    unfolding eof_datagram_def by (rule empty_wire)
  then show ?thesis using assms
    by (simp add: read_thread_round_def Let_def length_eof handle_packet_def ack_datagram_def gbn_socket_serialize_def copy_from_def
      ack_eof_datagram_def gbn_packet_type_EOF_def gbn_packet_type_ack_def gbn_packet_type_data_def gbn_packet_type_ack_EOF_def
      SERIALIZE_SIZE_def SERIALIZE_OVERHEAD_def send_datagram_def push_block_def closing_block_def)
qed

lemma receive_ack_eof:
  assumes "\<not> gs_read_closed sock"
  shows "\<exists>buf'. read_thread_round (Some ack_eof_datagram) buf sock = Inr (False, buf', sock)"
proof -
  have "gbn_socket_deserialize (ack_eof_datagram @ r) 12 = Inr \<lparr>gp_type = gbn_packet_type_ack_EOF, gp_seq_number = 0, gp_size = 0, gp_payload = Some []\<rparr>" for r
    unfolding ack_eof_datagram_def by (rule empty_wire)
  then show ?thesis using assms
    by (simp add: read_thread_round_def Let_def length_eof handle_packet_def
      gbn_packet_type_ack_def gbn_packet_type_data_def gbn_packet_type_ack_EOF_def)
qed

lemma server_eof:
  assumes "server_end data n B False st sock"
  shows "\<exists>buf' sock'. read_thread_round (Some eof_datagram) buf sock = Inr (False, buf', sock') \<and>
    server_end data n B True st sock' \<and> gs_out sock' = gs_out sock @ [ack_eof_datagram]"
proof -
  have r: "\<not> gs_read_closed sock" using assms by (simp add: server_end_def receiving_def)
  then show ?thesis using receive_eof [OF r, of buf] assms
    by (auto simp: server_end_def receiving_def send_datagram_def closing_block_def)
qed

lemma server_writer_step:
  assumes "server_end data n B ended (Some st) sock"
  shows "\<exists>st' sock' new. writer_step t st sock = Inr (st', sock') \<and> server_end data n B ended st' sock' \<and>
    gs_out sock' = gs_out sock @ new \<and> set new \<subseteq> {eof_datagram} \<and> (\<not> ended \<longrightarrow> new = [])"
proof -
  note sv = assms[unfolded server_end_def]
  have z: "gw_size (gs_sending_window sock) = 0" using sv by (simp add: init_gbn_window_def)
  have same: "?thesis" if "writer_step t st sock = Inr (Some st', sock)" "st' \<noteq> State_close_connection" for st'
    using that sv by (auto simp: server_end_def)
  show ?thesis
  proof (cases st)
    case State_send_packet
    show ?thesis
    proof (cases "gs_sending_buffer sock")
      case Nil
      then show ?thesis using same State_send_packet by (simp add: writer_step_def send_packet_def)
    next
      case (Cons b q)
      then have "ended" "db_closing b" "\<forall>b \<in> set q. db_closing b" using sv by (auto split: if_splits)
      then have "writer_step t st sock = Inr (Some State_close_connection, sock\<lparr>gs_sending_buffer := q\<rparr>)"
        using State_send_packet Cons by (simp add: writer_step_def send_packet_def)
      then show ?thesis using sv \<open>ended\<close> \<open>\<forall>b \<in> set q. db_closing b\<close> by (auto simp: server_end_def)
    qed
  next
    case State_close_connection
    then have "writer_step t st sock = Inr (None, send_datagram eof_datagram sock)" by (simp add: writer_step_def close_connection_sends)
    then show ?thesis using sv State_close_connection by (auto simp: server_end_def send_datagram_def)
  qed (use same z in \<open>auto simp: writer_step_def window_empty_q_def block_on_queue_def is_win_full_q_def wait_on_read_def retransmit_def\<close>)
qed

text \<open>Packets that come in the order of their numbers: \<open>m\<close> is above all that came before.\<close>

lemma sr_step_bounds:
  assumes "sr_step k (n, B) = (n', B')" "n \<le> m" "m \<le> k" "\<forall>x \<in> B. x < m"
  shows "n \<le> n'" "n' \<le> Suc k" "\<forall>x \<in> B'. x < Suc k" "n = m \<Longrightarrow> k = m \<Longrightarrow> n' = Suc m"
proof -
  have B: "\<forall>x \<in> insert k B. x < Suc k" using assms(3,4) by auto
  have adv: "sr_advance n (insert k B) \<le> Suc k" by (rule sr_advance_bound [OF _ B]) (use assms in simp)
  show "n \<le> n'" using assms(1) by (auto simp: sr_step_def sr_advance_def split: if_splits)
  show "n' \<le> Suc k" "\<forall>x \<in> B'. x < Suc k" using assms adv B by (auto simp: sr_step_def split: if_splits)
  assume e: "n = m" "k = m"
  then have "n' = sr_advance m (insert m B)" using assms(1) by (auto simp: sr_step_def DEFAULT_QUEUE_SIZE_def split: if_splits)
  moreover have "m < sr_advance m (insert m B)" by (simp add: sr_advance_def DEFAULT_QUEUE_SIZE_def upt_conv_Cons)
  ultimately show "n' = Suc m" using adv e by simp
qed

section \<open>The datagrams under way\<close>

text \<open>
  To the server: the packets from \<open>m\<close> on, in order, perhaps the end mark behind them; all of them, and all
  before \<open>m\<close> delivered, if nothing was lost (\<open>safe\<close>).
\<close>

definition to_server_ok :: "(nat \<Rightarrow> byte list) \<Rightarrow> nat \<Rightarrow> nat \<Rightarrow> nat \<Rightarrow> writer_state option \<Rightarrow> bool \<Rightarrow> byte list list \<Rightarrow> bool" where
  "to_server_ok data n m c st safe ds \<longleftrightarrow>
     (\<exists>ks eofs. ds = map (data_datagram data) ks @ eofs \<and> sorted_wrt (<) ks \<and> (\<forall>k \<in> set ks. m \<le> k \<and> k < c) \<and>
        (eofs = [] \<or> eofs = [eof_datagram] \<and> st = None) \<and>
        (safe \<longrightarrow> ks = [m..<c] \<and> n = m \<and> (st = None \<longrightarrow> eofs = [eof_datagram])))"

text \<open>
  To the client: acknowledgements \<open>a\<close>, each sent for a packet \<open>k\<close> that the client holds, and not for the first one;
  at the end what ends the client's reader.  All of them, if nothing was lost in either direction.
\<close>

definition to_client_ok :: "nat \<Rightarrow> nat \<Rightarrow> nat \<Rightarrow> bool \<Rightarrow> bool \<Rightarrow> byte list list \<Rightarrow> bool" where
  "to_client_ok b n m ended safe ds \<longleftrightarrow>
     (\<exists>acks rest. ds = map (ack_of \<circ> snd) acks @ rest \<and> sorted_wrt (<) (map fst acks) \<and>
        (\<forall>(k, a) \<in> set acks. b \<le> k \<and> 1 \<le> k \<and> k < m \<and> a \<le> Suc k \<and> a \<le> n) \<and>
        set rest \<subseteq> {ack_eof_datagram, eof_datagram} \<and> (\<not> ended \<longrightarrow> rest = []) \<and>
        (safe \<longrightarrow> acks = map (\<lambda>k. (k, Suc k)) [max 1 b..<m]))"

lemma to_server_okE:
  assumes "to_server_ok data n m c st safe ds"
  obtains ks eofs where "ds = map (data_datagram data) ks @ eofs" "sorted_wrt (<) ks" "\<forall>k \<in> set ks. m \<le> k \<and> k < c"
    "eofs = [] \<or> eofs = [eof_datagram] \<and> st = None" "safe \<longrightarrow> ks = [m..<c] \<and> n = m \<and> (st = None \<longrightarrow> eofs = [eof_datagram])"
  using assms unfolding to_server_ok_def by (elim exE conjE) (rule that)

lemma to_server_sends:
  assumes "to_server_ok data n m c (Some st) safe ds" "sends data c st' new data' c'" "m \<le> c"
  shows "to_server_ok data' n m c' st' safe (ds @ new)"
proof -
  from assms(1) obtain ks where ks: "ds = map (data_datagram data) ks" "sorted_wrt (<) ks" "\<forall>k \<in> set ks. m \<le> k \<and> k < c"
    "safe \<longrightarrow> ks = [m..<c] \<and> n = m"
    by (auto simp: to_server_ok_def)
  from assms(2) consider x where "data' = data(c := x)" "c' = Suc c" "new = [data_datagram data' c]" "st' \<noteq> None"
    | "data' = data" "c' = c" "new = (if st' = None then [eof_datagram] else [])" by (auto simp: sends_def)
  then show ?thesis
  proof cases
    case 1
    have "map (data_datagram data') ks = map (data_datagram data) ks" using ks(3) 1(1) by (auto intro!: data_datagram_cong)
    then have "ds @ new = map (data_datagram data') (ks @ [c]) @ []" using ks(1) 1(3) by simp
    moreover have "sorted_wrt (<) (ks @ [c])" using ks(2,3) by (simp add: sorted_wrt_append)
    moreover have "safe \<longrightarrow> ks @ [c] = [m..<c'] \<and> n = m" using ks(4) 1(2) assms(3) by simp
    ultimately show ?thesis using ks(3) assms(3) 1(2,4) unfolding to_server_ok_def
      by (intro exI [of _ "ks @ [c]"] exI [of _ "[]"]) auto
  next
    case 2
    then show ?thesis using ks unfolding to_server_ok_def by (intro exI [of _ ks] exI [of _ new]) auto
  qed
qed

lemma to_server_lost: "to_server_ok data n m c st safe ds \<Longrightarrow> to_server_ok data n m c st False (tl ds)"
proof -
  assume "to_server_ok data n m c st safe ds"
  then obtain ks eofs where k: "ds = map (data_datagram data) ks @ eofs" "sorted_wrt (<) ks" "\<forall>k \<in> set ks. m \<le> k \<and> k < c"
    "eofs = [] \<or> eofs = [eof_datagram] \<and> st = None" by (auto simp: to_server_ok_def)
  show "to_server_ok data n m c st False (tl ds)"
  proof (cases ks)
    case Nil
    then show ?thesis using k unfolding to_server_ok_def by (intro exI [of _ "[]"] exI [of _ "tl eofs"]) auto
  next
    case (Cons k' ks')
    then show ?thesis using k unfolding to_server_ok_def by (intro exI [of _ ks'] exI [of _ eofs]) auto
  qed
qed

lemma to_client_unsafe: "to_client_ok b n m ended safe ds \<Longrightarrow> to_client_ok b n m ended False ds"
  unfolding to_client_ok_def by blast

lemma to_client_lost: "to_client_ok b n m ended safe ds \<Longrightarrow> to_client_ok b n m ended False (tl ds)"
proof -
  assume "to_client_ok b n m ended safe ds"
  then obtain acks rest where k: "ds = map (ack_of \<circ> snd) acks @ rest" "sorted_wrt (<) (map fst acks)"
    "\<forall>(k, a) \<in> set acks. b \<le> k \<and> 1 \<le> k \<and> k < m \<and> a \<le> Suc k \<and> a \<le> n" "set rest \<subseteq> {ack_eof_datagram, eof_datagram}" "\<not> ended \<longrightarrow> rest = []"
    unfolding to_client_ok_def by blast
  show "to_client_ok b n m ended False (tl ds)"
  proof (cases acks)
    case Nil
    moreover have "set (tl rest) \<subseteq> {ack_eof_datagram, eof_datagram}" "\<not> ended \<longrightarrow> tl rest = []" using k(4,5) by (cases rest; auto)+
    ultimately show ?thesis using k(1) unfolding to_client_ok_def by (intro exI [of _ "[]"] exI [of _ "tl rest"]) simp
  next
    case (Cons k' ks')
    then show ?thesis using k unfolding to_client_ok_def by (intro exI [of _ ks'] exI [of _ rest]) auto
  qed
qed

lemma to_client_acks:
  assumes "to_client_ok b n m False safe ds" "b \<le> n" "n \<le> m" "m \<le> k" "1 \<le> k" "n \<le> n'" "n' \<le> Suc k" "safe \<longrightarrow> k = m \<and> n' = Suc m"
  shows "to_client_ok b n' (Suc k) False safe (ds @ [ack_of n'])"
proof -
  from assms(1) obtain acks where a: "ds = map (ack_of \<circ> snd) acks" "sorted_wrt (<) (map fst acks)"
    "\<forall>(k, a) \<in> set acks. b \<le> k \<and> 1 \<le> k \<and> k < m \<and> a \<le> Suc k \<and> a \<le> n" "safe \<longrightarrow> acks = map (\<lambda>k. (k, Suc k)) [max 1 b..<m]"
    unfolding to_client_ok_def by auto
  have "sorted_wrt (<) (map fst (acks @ [(k, n')]))" using a(2,3) assms(4) by (auto simp: sorted_wrt_append)
  moreover have "\<forall>(k', a) \<in> set (acks @ [(k, n')]). b \<le> k' \<and> 1 \<le> k' \<and> k' < Suc k \<and> a \<le> Suc k' \<and> a \<le> n'" using a(3) assms by auto
  moreover have "safe \<longrightarrow> acks @ [(k, n')] = map (\<lambda>k. (k, Suc k)) [max 1 b..<Suc k]"
    using a(4) assms(2,3,5,8) by (auto simp del: One_nat_def)
  ultimately show ?thesis using a(1) unfolding to_client_ok_def by (intro exI [of _ "acks @ [(k, n')]"] exI [of _ "[]"]) simp
qed

lemma to_client_weaken:
  assumes "to_client_ok b n m ended safe ds" "m \<le> m'" "n \<le> n'" "set new \<subseteq> {ack_eof_datagram, eof_datagram}" "ended \<longrightarrow> ended'" "\<not> ended' \<longrightarrow> new = []"
    "safe \<longrightarrow> [max 1 b..<m'] = [max 1 b..<m]"
  shows "to_client_ok b n' m' ended' safe (ds @ new)"
proof -
  from assms(1) obtain acks rest where a: "ds = map (ack_of \<circ> snd) acks @ rest" "sorted_wrt (<) (map fst acks)"
    "\<forall>(k, a) \<in> set acks. b \<le> k \<and> 1 \<le> k \<and> k < m \<and> a \<le> Suc k \<and> a \<le> n" "set rest \<subseteq> {ack_eof_datagram, eof_datagram}" "\<not> ended \<longrightarrow> rest = []"
    "safe \<longrightarrow> acks = map (\<lambda>k. (k, Suc k)) [max 1 b..<m]"
    unfolding to_client_ok_def by blast
  have "\<forall>(k, a) \<in> set acks. b \<le> k \<and> 1 \<le> k \<and> k < m' \<and> a \<le> Suc k \<and> a \<le> n'" using a(3) assms(2,3) by fastforce
  moreover have "safe \<longrightarrow> acks = map (\<lambda>k. (k, Suc k)) [max 1 b..<m']" using a(6) assms(7) by metis
  moreover have "\<not> ended' \<longrightarrow> rest @ new = []" "set (rest @ new) \<subseteq> {ack_eof_datagram, eof_datagram}" using a(4,5) assms(4-6) by auto
  ultimately show ?thesis using a(1,2) unfolding to_client_ok_def by (intro exI [of _ acks] exI [of _ "rest @ new"]) simp
qed

section \<open>The invariant\<close>

definition client_host :: "byte list \<Rightarrow> byte list \<Rightarrow> gbn_host \<Rightarrow> bool" where
  "client_host ca sa h \<longleftrightarrow> ho_addr h = ca \<and> fst (ho_peer h) = sa \<and> snd (ho_peer h) \<in> {0, 16} \<and>
     (sys_reading (ho_system h) \<longrightarrow> \<not> gs_read_closed (sys_socket (ho_system h)))"

text \<open>The first answer goes to the null address.\<close>

definition server_host :: "byte list \<Rightarrow> byte list \<Rightarrow> nat \<Rightarrow> bool \<Rightarrow> gbn_host \<Rightarrow> bool" where
  "server_host ca sa m ended h \<longleftrightarrow> ho_addr h = sa \<and> (sys_reading (ho_system h) \<longleftrightarrow> \<not> ended) \<and>
     (\<not> ended \<longrightarrow> ho_peer h = (null_addr, 0) \<and> m = 0 \<or> 0 < m \<and> (ho_peer h = (null_addr, 16) \<or> ho_peer h = (ca, 16)))"

text \<open>
  \<open>c\<close> packets sent, \<open>b\<close> of them acknowledged, \<open>n\<close> delivered; the server has stored \<open>B\<close> and seen numbers below
  \<open>m\<close>; \<open>ended\<close>: it has received the end mark.
\<close>

definition net_inv :: "byte list \<Rightarrow> byte list \<Rightarrow> net_event list \<Rightarrow> gbn_net \<Rightarrow> (nat \<Rightarrow> byte list) \<Rightarrow> nat \<Rightarrow> nat \<Rightarrow> nat \<Rightarrow> nat set \<Rightarrow> nat \<Rightarrow> bool \<Rightarrow> bool" where
  "net_inv ca sa es net data c b n B m ended \<longleftrightarrow>
     client_host ca sa (nt_client net) \<and>
     client_at data c b es (sys_writer (ho_system (nt_client net))) (sys_socket (ho_system (nt_client net))) \<and>
     server_host ca sa m ended (nt_server net) \<and>
     server_end data n B ended (sys_writer (ho_system (nt_server net))) (sys_socket (ho_system (nt_server net))) \<and>
     (if ended then sys_writer (ho_system (nt_client net)) = None \<and> (LoseToServer \<notin> set es \<longrightarrow> n = c)
      else to_server_ok data n m c (sys_writer (ho_system (nt_client net))) (LoseToServer \<notin> set es) (nt_to_server net)) \<and>
     (sys_reading (ho_system (nt_client net)) \<longrightarrow>
       to_client_ok b n m ended (LoseToServer \<notin> set es \<and> LoseToClient \<notin> set es) (nt_to_client net)) \<and>
     b \<le> n \<and> n \<le> m \<and> m \<le> c \<and> (\<forall>x \<in> B. x < m) \<and> (0 < b \<longrightarrow> 2 \<le> c)"

definition net_ok :: "byte list \<Rightarrow> byte list \<Rightarrow> net_event list \<Rightarrow> gbn_net \<Rightarrow> bool" where
  "net_ok ca sa es net \<longleftrightarrow> (\<exists>data c b n B m ended. net_inv ca sa es net data c b n B m ended)"

lemma net_okI: "net_inv ca sa es net data c b n B m ended \<Longrightarrow> net_ok ca sa es net"
  unfolding net_ok_def by blast

lemma recv_address_sized: "length from = 16 \<Longrightarrow> length a = 16 \<Longrightarrow> recv_address from (a, 16) = (from, 16)"
  by (simp add: recv_address_def)

lemma recv_address_first: "length from = 16 \<Longrightarrow> recv_address from (a, 0) = (a, 16)"
  by (simp add: recv_address_def)

lemma length_null_addr: "length null_addr = 16"
  by (simp add: null_addr_def)

lemma posted_new:
  "gs_out (sys_socket (ho_system h')) = gs_out (sys_socket (ho_system h)) @ new \<Longrightarrow>
     posted a h h' = (if fst (ho_peer h') = a then new else [])"
  by (simp add: posted_def)

text \<open>A step of the client that is not about datagrams.\<close>

lemma net_client_input:
  assumes "net_inv ca sa es net data c b n B m ended" "AtClient e \<noteq> AtClient (WriterStep t)"
    "client_at data c b (es @ [AtClient e]) (sys_writer (ho_system (nt_client net))) sock'"
    "gs_out sock' = gs_out (sys_socket (ho_system (nt_client net)))" "gs_read_closed sock' = gs_read_closed (sys_socket (ho_system (nt_client net)))"
    "gbn_step e (ho_system (nt_client net)) = Inr ((ho_system (nt_client net))\<lparr>sys_socket := sock'\<rparr>)"
  shows "\<exists>net'. net_step (AtClient e) net = Inr net' \<and> net_ok ca sa (es @ [AtClient e]) net'"
proof -
  let ?h = "(nt_client net)\<lparr>ho_system := (ho_system (nt_client net))\<lparr>sys_socket := sock'\<rparr>\<rparr>"
  let ?net = "client_becomes ?h net"
  have "net_step (AtClient e) net = Inr ?net" using assms(6) by (simp add: net_step_def host_does_def)
  moreover have "posted (ho_addr (nt_server net)) (nt_client net) ?h = []" using assms(4) by (simp add: posted_def)
  then have "net_inv ca sa (es @ [AtClient e]) ?net data c b n B m ended"
    using assms(1,3,5) by (simp add: net_inv_def client_becomes_def client_host_def)
  ultimately show ?thesis by (auto intro: net_okI)
qed

lemma net_client_writer:
  assumes "net_inv ca sa es net data c b n B m ended" "packets es \<le> 255"
  shows "net_step (AtClient (WriterStep t)) net = Inl UseAfterFree \<and> may_time_out es \<or>
    (\<exists>net'. net_step (AtClient (WriterStep t)) net = Inr net' \<and> net_ok ca sa (es @ [AtClient (WriterStep t)]) net')"
proof -
  let ?h = "nt_client net" let ?e = "AtClient (WriterStep t)" let ?sock = "sys_socket (ho_system ?h)"
  note inv = assms(1)[unfolded net_inv_def]
  show ?thesis
  proof (cases "sys_writer (ho_system ?h)")
    case None
    have e: "net_step ?e net = Inr (client_becomes ?h net)"
      using None by (simp add: net_step_def host_does_def gbn_step_def)
    have "posted (ho_addr (nt_server net)) ?h ?h = []" by (simp add: posted_def)
    then have "net_inv ca sa (es @ [?e]) (client_becomes ?h net) data c b n B m ended"
      using inv client_at_other [of data c b es _ _ ?e] by (simp add: net_inv_def client_becomes_def)
    then show ?thesis using e by (auto intro: net_okI)
  next
    case (Some st)
    then have ne: "\<not> ended" and cl: "client_at data c b es (Some st) ?sock" using inv by (auto split: if_splits)
    from client_writer_step [OF cl assms(2), of t] show ?thesis
    proof (elim disjE exE conjE)
      fix st' sock' new data' c'
      assume w: "writer_step t st ?sock = Inr (st', sock')" "client_at data' c' b (es @ [?e]) st' sock'"
        "gs_out sock' = gs_out ?sock @ new" "gs_read_closed sock' = gs_read_closed ?sock" "sends data c st' new data' c'"
      let ?h' = "?h\<lparr>ho_system := (ho_system ?h)\<lparr>sys_writer := st', sys_socket := sock'\<rparr>\<rparr>" let ?net = "client_becomes ?h' net"
      have e: "net_step ?e net = Inr ?net" using Some w(1) by (simp add: net_step_def host_does_def gbn_step_def)
      have p: "posted (ho_addr (nt_server net)) ?h ?h' = new"
        using posted_new [of ?h' ?h new] w(3) inv by (simp add: client_host_def server_host_def)
      have d: "\<forall>k < c. data' k = data k" "c \<le> c'" using w(5) by (auto simp: sends_def)
      have "\<forall>x \<in> B. x < c" "n \<le> c" using inv by auto
      then have sv: "server_end data' n B ended (sys_writer (ho_system (nt_server net))) (sys_socket (ho_system (nt_server net)))"
        using inv server_end_cong d(1) by blast
      have "to_server_ok data' n m c' st' (LoseToServer \<notin> set es) (nt_to_server net @ new)"
        using to_server_sends w(5) inv ne Some by auto
      then have "net_inv ca sa (es @ [?e]) ?net data' c' b n B m ended"
        using inv w(2,4) sv p ne d(2) unfolding net_inv_def by (simp add: client_becomes_def client_host_def) auto
      then show ?thesis using e by (auto intro: net_okI)
    qed (use Some in \<open>simp add: net_step_def host_does_def gbn_step_def\<close>)
  qed
qed

lemma net_server_writer:
  assumes "net_inv ca sa es net data c b n B m ended"
  shows "\<exists>net'. net_step (AtServer (WriterStep t)) net = Inr net' \<and> net_ok ca sa (es @ [AtServer (WriterStep t)]) net'"
proof -
  let ?h = "nt_server net" let ?e = "AtServer (WriterStep t)" let ?safe = "LoseToServer \<notin> set es \<and> LoseToClient \<notin> set es" let ?sock = "sys_socket (ho_system ?h)"
  note inv = assms[unfolded net_inv_def]
  have cl: "client_at data c b (es @ [?e]) (sys_writer (ho_system (nt_client net))) (sys_socket (ho_system (nt_client net)))"
    using inv client_at_other [of data c b es _ _ ?e] by simp
  obtain st' sock' new where w: "gbn_step (WriterStep t) (ho_system ?h) = Inr ((ho_system ?h)\<lparr>sys_writer := st', sys_socket := sock'\<rparr>)"
    "server_end data n B ended st' sock'" "gs_out sock' = gs_out ?sock @ new" "set new \<subseteq> {eof_datagram}" "\<not> ended \<longrightarrow> new = []"
  proof (cases "sys_writer (ho_system ?h)")
    case None
    then have "gbn_step (WriterStep t) (ho_system ?h) = Inr ((ho_system ?h)\<lparr>sys_writer := None, sys_socket := ?sock\<rparr>)"
      by (cases "ho_system ?h") (simp add: gbn_step_def)
    then show ?thesis using that [of ?sock None "[]"] inv None by simp
  next
    case (Some st)
    then have "server_end data n B ended (Some st) ?sock" using inv by simp
    from server_writer_step [OF this, of t] obtain st1 sock1 new1 where w: "writer_step t st ?sock = Inr (st1, sock1)"
      "server_end data n B ended st1 sock1" "gs_out sock1 = gs_out ?sock @ new1" "set new1 \<subseteq> {eof_datagram}" "\<not> ended \<longrightarrow> new1 = []"
      by blast
    then show ?thesis using that [of sock1 st1 new1] Some by (simp add: gbn_step_def)
  qed
  let ?h' = "?h\<lparr>ho_system := (ho_system ?h)\<lparr>sys_writer := st', sys_socket := sock'\<rparr>\<rparr>" let ?net = "server_becomes ?h' net"
  let ?new = "posted (ho_addr (nt_client net)) ?h ?h'"
  have "?new = (if fst (ho_peer ?h') = ho_addr (nt_client net) then new else [])"
    using posted_new [of ?h' ?h new] w(3) by simp
  then have new: "set ?new \<subseteq> {ack_eof_datagram, eof_datagram}" "\<not> ended \<longrightarrow> ?new = []" using w(4,5) by auto
  have e: "net_step ?e net = Inr ?net" using w(1) by (simp add: net_step_def host_does_def)
  have "sys_reading (ho_system (nt_client net)) \<longrightarrow> to_client_ok b n m ended ?safe (nt_to_client net @ ?new)"
    using inv to_client_weaken [of b n m ended ?safe "nt_to_client net" m n ?new ended] new by auto
  then have "net_inv ca sa (es @ [?e]) ?net data c b n B m ended"
    using inv cl w(2) unfolding net_inv_def server_becomes_def by (simp add: server_host_def)
  then show ?thesis using e by (auto intro: net_okI)
qed

lemma to_server_first:
  assumes "to_server_ok data n m c st safe (d # ds)" "m \<le> c"
  obtains (packet) k where "d = data_datagram data k" "m \<le> k" "k < c" "safe \<longrightarrow> n = m \<and> k = m"
      "\<And>n'. safe \<longrightarrow> n' = Suc k \<Longrightarrow> to_server_ok data n' (Suc k) c st safe ds"
    | (ending) "d = eof_datagram" "st = None" "safe \<longrightarrow> n = c"
proof -
  obtain ks eofs where ks: "d # ds = map (data_datagram data) ks @ eofs" "sorted_wrt (<) ks" "\<forall>k \<in> set ks. m \<le> k \<and> k < c"
    "eofs = [] \<or> eofs = [eof_datagram] \<and> st = None" "safe \<longrightarrow> ks = [m..<c] \<and> n = m \<and> (st = None \<longrightarrow> eofs = [eof_datagram])"
    using assms(1) by (rule to_server_okE)
  show ?thesis
  proof (cases ks)
    case Nil
    have "safe \<longrightarrow> [m..<c] = [] \<and> n = m" using ks(5) Nil by metis
    then have "safe \<longrightarrow> n = c" using assms(2) by auto
    then show ?thesis using ending ks(1,4) Nil by auto
  next
    case (Cons k ks')
    then have k: "m \<le> k" "k < c" using ks(3) by auto
    have line: "n = m \<and> k = m \<and> ks' = [Suc k..<c]" if safe
    proof -
      have "[m..<c] = k # ks'" "n = m" using ks(5) Cons that by metis+
      moreover have "[m..<c] = m # [Suc m..<c]" using k by (intro upt_conv_Cons) simp
      ultimately show ?thesis by (metis list.inject)
    qed
    have "to_server_ok data n' (Suc k) c st safe ds" if "safe \<longrightarrow> n' = Suc k" for n'
      using ks Cons that line unfolding to_server_ok_def by (intro exI [of _ ks'] exI [of _ eofs]) auto
    then show ?thesis using packet [of k] ks(1) Cons k line by simp
  qed
qed

text \<open>What the server answers to a packet, if the address is known.\<close>

lemma to_client_answer:
  assumes "to_client_ok b n m False safe ds" "b \<le> n" "n \<le> m" "m \<le> k" "n \<le> n'" "n' \<le> Suc k" "safe \<longrightarrow> k = m \<and> n' = Suc m"
  shows "to_client_ok b n' (Suc k) False safe (ds @ (if m = 0 then [] else [ack_of n']))"
proof (cases "m = 0")
  case True
  then have "safe \<longrightarrow> [max 1 b..<Suc k] = [max 1 b..<m]" using assms(7) by auto
  then show ?thesis using True to_client_weaken [OF assms(1), of "Suc k" n' "[]" False] assms(5) by simp
next
  case False
  then show ?thesis using to_client_acks [OF assms(1-4) _ assms(5,6,7)] assms(4) by simp
qed

lemma server_peer:
  assumes "server_host ca sa m False h" "length ca = 16"
  shows "recv_address ca (ho_peer h) = (if m = 0 then (null_addr, 16) else (ca, 16))"
  using assms by (auto simp: server_host_def recv_address_sized recv_address_first length_null_addr)

lemma net_to_server_data:
  assumes "net_inv ca sa es net data c b n B m False" "c \<le> 255" "length ca = 16" "ca \<noteq> null_addr"
    "nt_to_server net = data_datagram data k # ds" "m \<le> k" "k < c" "LoseToServer \<notin> set es \<longrightarrow> n = m \<and> k = m"
    "\<And>n'. LoseToServer \<notin> set es \<longrightarrow> n' = Suc k \<Longrightarrow>
       to_server_ok data n' (Suc k) c (sys_writer (ho_system (nt_client net))) (LoseToServer \<notin> set es) ds"
  shows "\<exists>net'. net_step ToServer net = Inr net' \<and> net_ok ca sa (es @ [ToServer]) net'"
proof -
  let ?h = "nt_server net" let ?s = "ho_system ?h" let ?sock = "sys_socket ?s" let ?d = "data_datagram data k"
  let ?safe = "LoseToServer \<notin> set es \<and> LoseToClient \<notin> set es"
  note inv = assms(1)[unfolded net_inv_def]
  have cl: "client_at data c b (es @ [ToServer]) (sys_writer (ho_system (nt_client net))) (sys_socket (ho_system (nt_client net)))"
    using inv client_at_other [of data c b es _ _ ToServer] by simp
  have sv: "server_end data n B False (sys_writer ?s) ?sock" "sys_reading ?s" "server_host ca sa m False ?h" "ho_addr (nt_client net) = ca"
    and le: "b \<le> n" "n \<le> m" "m \<le> c" "\<forall>x \<in> B. x < m" and dl: "\<forall>k. length (data k) \<le> DEFAULT_PACKET_SIZE"
    using inv by (simp_all add: server_host_def client_host_def client_at_def)
  note peer = server_peer [OF sv(3) assms(3)]
  obtain n' B' where sr: "sr_step k (n, B) = (n', B')" by fastforce
  note bounds = sr_step_bounds [OF sr le(2) assms(6) le(4)]
  have n': "LoseToServer \<notin> set es \<longrightarrow> n' = Suc k" using assms(8) bounds(4) by blast
  have "k < 255" using assms(2,7) by simp
  from server_data [OF sv(1) this dl sr] obtain buf' sock' where r: "read_thread_round (Some ?d) (ho_buf ?h) ?sock = Inr (True, buf', sock')"
    "server_end data n' B' False (sys_writer ?s) sock'" "gs_out sock' = gs_out ?sock @ [ack_of n']" by blast
  let ?h' = "?h\<lparr>ho_peer := recv_address ca (ho_peer ?h), ho_buf := buf', ho_system := ?s\<lparr>sys_reading := True, sys_socket := sock'\<rparr>\<rparr>"
  let ?net = "server_becomes ?h' (net\<lparr>nt_to_server := ds\<rparr>)" let ?new = "posted ca ?h ?h'"
  have e: "net_step ToServer net = Inr ?net" using assms(5) sv(2,4) r(1) by (simp add: net_step_def host_receives_def)
  have new: "?new = (if m = 0 then [] else [ack_of n'])" using posted_new [of ?h' ?h "[ack_of n']" ca] r(3) assms(4) peer by auto
  have "?safe \<longrightarrow> k = m \<and> n' = Suc m" using assms(8) n' by auto
  then have tc: "sys_reading (ho_system (nt_client net)) \<longrightarrow> to_client_ok b n' (Suc k) False ?safe (nt_to_client net @ ?new)"
    unfolding new using inv to_client_answer [OF _ le(1,2) assms(6) bounds(1,2)] by auto
  have "server_host ca sa (Suc k) False ?h'" using sv(2,3) peer by (auto simp: server_host_def)
  then have "net_inv ca sa (es @ [ToServer]) ?net data c b n' B' (Suc k) False"
    using inv cl r(2) tc assms(7) assms(9) [OF n'] le bounds unfolding net_inv_def server_becomes_def by (simp add: client_host_def)
  then show ?thesis using e by (auto intro: net_okI)
qed

lemma net_to_server_eof:
  assumes "net_inv ca sa es net data c b n B m False" "nt_to_server net = eof_datagram # ds"
    "sys_writer (ho_system (nt_client net)) = None" "LoseToServer \<notin> set es \<longrightarrow> n = c"
  shows "\<exists>net'. net_step ToServer net = Inr net' \<and> net_ok ca sa (es @ [ToServer]) net'"
proof -
  let ?h = "nt_server net" let ?s = "ho_system ?h" let ?sock = "sys_socket ?s"
  let ?safe = "LoseToServer \<notin> set es \<and> LoseToClient \<notin> set es"
  note inv = assms(1)[unfolded net_inv_def]
  have cl: "client_at data c b (es @ [ToServer]) None (sys_socket (ho_system (nt_client net)))"
    using inv client_at_other [of data c b es _ _ ToServer] assms(3) by simp
  have sv: "server_end data n B False (sys_writer ?s) ?sock" "sys_reading ?s" "ho_addr (nt_client net) = ca"
    using inv by (simp_all add: server_host_def client_host_def)
  obtain buf' sock' where r: "read_thread_round (Some eof_datagram) (ho_buf ?h) ?sock = Inr (False, buf', sock')"
    "server_end data n B True (sys_writer ?s) sock'" "gs_out sock' = gs_out ?sock @ [ack_eof_datagram]"
    using server_eof [OF sv(1)] by blast
  let ?h' = "?h\<lparr>ho_peer := recv_address ca (ho_peer ?h), ho_buf := buf', ho_system := ?s\<lparr>sys_reading := False, sys_socket := sock'\<rparr>\<rparr>"
  let ?net = "server_becomes ?h' (net\<lparr>nt_to_server := ds\<rparr>)" let ?new = "posted ca ?h ?h'"
  have e: "net_step ToServer net = Inr ?net" using assms(2) sv(2,3) r(1) by (simp add: net_step_def host_receives_def)
  have "set ?new \<subseteq> {ack_eof_datagram, eof_datagram}" using posted_new [of ?h' ?h "[ack_eof_datagram]" ca] r(3) by auto
  then have "sys_reading (ho_system (nt_client net)) \<longrightarrow> to_client_ok b n m True ?safe (nt_to_client net @ ?new)"
    using inv to_client_weaken [of b n m False ?safe "nt_to_client net" m n ?new True] by auto
  then have "net_inv ca sa (es @ [ToServer]) ?net data c b n B m True"
    using inv cl r(2) assms(3,4) unfolding net_inv_def server_becomes_def by (simp add: server_host_def client_host_def)
  then show ?thesis using e by (auto intro: net_okI)
qed

lemma net_to_server:
  assumes "net_inv ca sa es net data c b n B m ended" "c \<le> 255" "length ca = 16" "ca \<noteq> null_addr"
  shows "\<exists>net'. net_step ToServer net = Inr net' \<and> net_ok ca sa (es @ [ToServer]) net'"
proof (cases "nt_to_server net")
  case Nil
  have "net_inv ca sa (es @ [ToServer]) net data c b n B m ended"
    using assms(1) client_at_other [of data c b es _ _ ToServer] by (simp add: net_inv_def)
  then show ?thesis using Nil by (auto simp: net_step_def intro: net_okI)
next
  case (Cons d ds)
  note inv = assms(1)[unfolded net_inv_def]
  have cl: "client_at data c b (es @ [ToServer]) (sys_writer (ho_system (nt_client net))) (sys_socket (ho_system (nt_client net)))"
    using inv client_at_other [of data c b es _ _ ToServer] by simp
  show ?thesis
  proof (cases ended)
    case True
    let ?net = "server_becomes (nt_server net) (net\<lparr>nt_to_server := ds\<rparr>)"
    have "net_step ToServer net = Inr ?net" using inv Cons True by (simp add: net_step_def host_receives_def server_host_def)
    moreover have "net_inv ca sa (es @ [ToServer]) ?net data c b n B m ended"
      using inv cl True by (simp add: net_inv_def server_becomes_def posted_def)
    ultimately show ?thesis by (auto intro: net_okI)
  next
    case False
    then have w: "to_server_ok data n m c (sys_writer (ho_system (nt_client net))) (LoseToServer \<notin> set es) (d # ds)" "m \<le> c"
      and i: "net_inv ca sa es net data c b n B m False" using inv assms(1) Cons by simp_all
    from w show ?thesis
    proof (cases rule: to_server_first)
      case (packet k)
      then show ?thesis using net_to_server_data [OF i assms(2-4) _ packet(2-5)] Cons by simp
    next
      case ending
      then show ?thesis using net_to_server_eof [OF i _ ending(2,3)] Cons by simp
    qed
  qed
qed

lemma to_client_first:
  assumes "to_client_ok b n m ended safe (d # ds)" "m \<le> c"
  obtains (ack) k a where "d = ack_of a" "b \<le> k" "1 \<le> k" "k < c" "a \<le> Suc k" "a \<le> n" "to_client_ok (max b a) n m ended safe ds"
    | (ending) "d = ack_eof_datagram \<or> d = eof_datagram" "ended"
proof -
  from assms(1) obtain acks rest where a: "d # ds = map (ack_of \<circ> snd) acks @ rest" "sorted_wrt (<) (map fst acks)"
    "\<forall>(k, a) \<in> set acks. b \<le> k \<and> 1 \<le> k \<and> k < m \<and> a \<le> Suc k \<and> a \<le> n" "set rest \<subseteq> {ack_eof_datagram, eof_datagram}" "\<not> ended \<longrightarrow> rest = []"
    "safe \<longrightarrow> acks = map (\<lambda>k. (k, Suc k)) [max 1 b..<m]"
    unfolding to_client_ok_def by blast
  show ?thesis
  proof (cases acks)
    case Nil
    then show ?thesis using a ending by auto
  next
    case (Cons p ps)
    obtain k x where p: "p = (k, x)" by fastforce
    have "\<forall>(k', a') \<in> set ps. max b x \<le> k' \<and> 1 \<le> k' \<and> k' < m \<and> a' \<le> Suc k' \<and> a' \<le> n" using a(2,3) Cons p by fastforce
    moreover have "ps = map (\<lambda>k. (k, Suc k)) [max 1 (max b x)..<m]" if "safe"
    proof -
      have e: "map (\<lambda>k. (k, Suc k)) [max 1 b..<m] = (k, x) # ps" using a(6) Cons p that by simp
      then have "max 1 b < m" by (metis list.distinct(1) list.simps(8) not_less upt_conv_Nil)
      then have "[max 1 b..<m] = max 1 b # [Suc (max 1 b)..<m]" by (rule upt_conv_Cons)
      then have "k = max 1 b" "x = Suc k" "ps = map (\<lambda>k. (k, Suc k)) [Suc (max 1 b)..<m]" using e by auto
      moreover from this have "max 1 (max b x) = Suc (max 1 b)" by auto
      ultimately show ?thesis by simp
    qed
    ultimately have "to_client_ok (max b x) n m ended safe ds"
      using a(1,2,4,5) Cons p unfolding to_client_ok_def by (intro exI [of _ ps] exI [of _ rest]) simp
    then show ?thesis using ack [of x k] a Cons p assms(2) by auto
  qed
qed

lemma net_to_client:
  assumes "net_inv ca sa es net data c b n B m ended" "c \<le> 255" "length sa = 16"
  shows "\<exists>net'. net_step ToClient net = Inr net' \<and> net_ok ca sa (es @ [ToClient]) net'"
proof -
  let ?h = "nt_client net" let ?s = "ho_system ?h" let ?st = "sys_writer ?s" let ?sock = "sys_socket ?s"
  note inv = assms(1)[unfolded net_inv_def]
  have o: "client_at data c b' es st' s \<Longrightarrow> client_at data c b' (es @ [ToClient]) st' s" for b' st' s
    by (rule client_at_other) simp_all
  have cl: "client_at data c b es ?st ?sock" using inv by simp
  have addr: "ho_addr ?h = ca" "ho_addr (nt_server net) = sa" using inv by (simp_all add: client_host_def server_host_def)
  show ?thesis
  proof (cases "nt_to_client net")
    case Nil
    have "net_inv ca sa (es @ [ToClient]) net data c b n B m ended" using inv o [OF cl] by (simp add: net_inv_def)
    then show ?thesis using Nil by (auto simp: net_step_def intro: net_okI)
  next
    case (Cons d ds)
    show ?thesis
    proof (cases "sys_reading ?s")
      case False
      then have "net_step ToClient net = Inr (client_becomes ?h (net\<lparr>nt_to_client := ds\<rparr>))"
        using Cons by (simp add: net_step_def host_receives_def)
      moreover have "net_inv ca sa (es @ [ToClient]) (client_becomes ?h (net\<lparr>nt_to_client := ds\<rparr>)) data c b n B m ended"
        using inv o [OF cl] False by (simp add: net_inv_def client_becomes_def posted_def)
      ultimately show ?thesis by (auto intro: net_okI)
    next
      case True
      have rc: "\<not> gs_read_closed ?sock" and tc: "to_client_ok b n m ended (LoseToServer \<notin> set es \<and> LoseToClient \<notin> set es) (d # ds)" using inv True Cons by (simp_all add: client_host_def)
      have peer: "fst (recv_address sa (ho_peer ?h)) = sa" "snd (recv_address sa (ho_peer ?h)) = 16"
        using inv assms(3) by (cases "ho_peer ?h"; auto simp: client_host_def recv_address_sized recv_address_first)+
      have le: "b \<le> n" "n \<le> m" "m \<le> c" using inv by auto
      from tc le(3) show ?thesis
      proof (cases rule: to_client_first)
        case (ack k a)
        obtain buf' sock' where r: "read_thread_round (Some d) (ho_buf ?h) ?sock = Inr (True, buf', sock')"
          "client_at data c (max b a) es ?st sock'" "gs_out sock' = gs_out ?sock" "gs_read_closed sock' = gs_read_closed ?sock"
          using client_ack [OF cl assms(2) ack(2,4,5) rc] ack(1) by blast
        let ?h' = "?h\<lparr>ho_peer := recv_address sa (ho_peer ?h), ho_buf := buf', ho_system := ?s\<lparr>sys_reading := True, sys_socket := sock'\<rparr>\<rparr>"
        let ?net = "client_becomes ?h' (net\<lparr>nt_to_client := ds\<rparr>)"
        have "net_step ToClient net = Inr ?net" using Cons True r(1) addr by (simp add: net_step_def host_receives_def)
        moreover have "posted sa ?h ?h' = []" using r(3) by (simp add: posted_def)
        then have "net_inv ca sa (es @ [ToClient]) ?net data c (max b a) n B m ended"
          using inv o [OF r(2)] r(4) rc peer ack(3,4,6,7) le addr unfolding net_inv_def client_becomes_def by (simp add: client_host_def)
        ultimately show ?thesis by (auto intro: net_okI)
      next
        case ending
        obtain buf' sock' where r: "read_thread_round (Some d) (ho_buf ?h) ?sock = Inr (False, buf', sock')" "client_at data c b es ?st sock'"
        proof (cases "d = ack_eof_datagram")
          case True
          then show ?thesis using that receive_ack_eof [OF rc] cl by blast
        next
          case False
          have "finished ?st" using inv ending(2) by (simp add: finished_def)
          then show ?thesis using that receive_eof [OF rc, of "ho_buf ?h"] ending(1) False cl
            by (auto simp: client_at_def send_datagram_def to_send_def closing_block_def)
        qed
        let ?h' = "?h\<lparr>ho_peer := recv_address sa (ho_peer ?h), ho_buf := buf', ho_system := ?s\<lparr>sys_reading := False, sys_socket := sock'\<rparr>\<rparr>"
        let ?net = "client_becomes ?h' (net\<lparr>nt_to_client := ds\<rparr>)"
        have "net_step ToClient net = Inr ?net" using Cons True r(1) addr by (simp add: net_step_def host_receives_def)
        moreover have "net_inv ca sa (es @ [ToClient]) ?net data c b n B m ended"
          using inv o [OF r(2)] peer ending(2) unfolding net_inv_def client_becomes_def by (simp add: client_host_def)
        ultimately show ?thesis by (auto intro: net_okI)
      qed
    qed
  qed
qed

lemma net_lost:
  assumes "net_inv ca sa es net data c b n B m ended" "e = LoseToServer \<or> e = LoseToClient"
  shows "\<exists>net'. net_step e net = Inr net' \<and> net_ok ca sa (es @ [e]) net'"
proof -
  note inv = assms(1)[unfolded net_inv_def]
  have cl: "client_at data c b (es @ [e]) (sys_writer (ho_system (nt_client net))) (sys_socket (ho_system (nt_client net)))"
    using inv client_at_other [of data c b es _ _ e] assms(2) by auto
  from assms(2) show ?thesis
  proof
    assume e: "e = LoseToServer"
    have "net_inv ca sa (es @ [e]) (net\<lparr>nt_to_server := tl (nt_to_server net)\<rparr>) data c b n B m ended"
      using inv cl to_server_lost [of data n m c _ "LoseToServer \<notin> set es" "nt_to_server net"] to_client_unsafe unfolding net_inv_def
      by (simp add: e split: if_splits) blast+
    then show ?thesis by (auto simp: e net_step_def intro: net_okI)
  next
    assume e: "e = LoseToClient"
    have "net_inv ca sa (es @ [e]) (net\<lparr>nt_to_client := tl (nt_to_client net)\<rparr>) data c b n B m ended"
      using inv cl to_client_lost [of b n m ended "LoseToServer \<notin> set es \<and> LoseToClient \<notin> set es" "nt_to_client net"] unfolding net_inv_def by (simp add: e)
    then show ?thesis by (auto simp: e net_step_def intro: net_okI)
  qed
qed

section \<open>Every run\<close>

lemma net_step_ok:
  assumes "net_ok ca sa es net" "one_way e" "packets (es @ [e]) \<le> 255" "length ca = 16" "length sa = 16" "ca \<noteq> null_addr"
  shows "net_step e net = Inl UseAfterFree \<and> may_time_out es \<or> (\<exists>net'. net_step e net = Inr net' \<and> net_ok ca sa (es @ [e]) net')"
proof -
  obtain data c b n B m ended where inv: "net_inv ca sa es net data c b n B m ended" using assms(1) unfolding net_ok_def by blast
  then have cl: "client_at data c b es (sys_writer (ho_system (nt_client net))) (sys_socket (ho_system (nt_client net)))" by (simp add: net_inv_def)
  have p: "packets es \<le> 255" using assms(3) by simp
  then have c: "c \<le> 255" using cl by (simp add: client_at_def)
  show ?thesis
  proof (cases e)
    case (AtClient g)
    show ?thesis
    proof (cases g)
      case (WriterStep t)
      then show ?thesis using net_client_writer [OF inv p, of t] AtClient by simp
    next
      case (Write bytes)
      obtain n sock' where w: "gbn_socket_write (sys_socket (ho_system (nt_client net))) bytes (of_nat (length bytes)) = Inr (n, sock')"
          "client_at data c b (es @ [AtClient (Write bytes)]) (sys_writer (ho_system (nt_client net))) sock'"
          "gs_out sock' = gs_out (sys_socket (ho_system (nt_client net)))" "gs_read_closed sock' = gs_read_closed (sys_socket (ho_system (nt_client net)))"
        using client_write [OF cl, of bytes] assms(3) AtClient Write by auto
      then show ?thesis using net_client_input [OF inv _ w(2-4), of True] AtClient Write by (simp add: gbn_step_def)
    next
      case Close
      then show ?thesis using net_client_input [OF inv, of Close "True" "gbn_socket_close (sys_socket (ho_system (nt_client net)))"] client_close [OF cl] AtClient
        by (auto simp: gbn_step_def)
    qed (use assms(2) AtClient in simp_all)
  next
    case (AtServer g)
    then show ?thesis using assms(2) net_server_writer [OF inv] by (cases g) auto
  next
    case ToServer
    then show ?thesis using net_to_server [OF inv c assms(4,6)] by simp
  next
    case ToClient
    then show ?thesis using net_to_client [OF inv c assms(5)] by simp
  qed (use net_lost [OF inv] in auto)
qed

lemma net_run_ok:
  assumes "net_ok ca sa [] net" "\<forall>e \<in> set es. one_way e" "packets es \<le> 255" "length ca = 16" "length sa = 16" "ca \<noteq> null_addr"
  shows "net_run es net = Inl UseAfterFree \<and> may_time_out es \<or> (\<exists>net'. net_run es net = Inr net' \<and> net_ok ca sa es net')"
  using assms(2,3)
proof (induction es rule: rev_induct)
  case Nil
  then show ?case using assms(1) by simp
next
  case (snoc e es)
  have t: "may_time_out es \<Longrightarrow> may_time_out (es @ [e])" by (simp add: may_time_out_def)
  have IH: "net_run es net = Inl UseAfterFree \<and> may_time_out es \<or> (\<exists>net'. net_run es net = Inr net' \<and> net_ok ca sa es net')"
    using snoc by simp
  then show ?case
  proof (elim disjE exE conjE)
    fix net1 assume n1: "net_run es net = Inr net1" "net_ok ca sa es net1"
    from net_step_ok [OF n1(2) _ snoc.prems(2) assms(4-6)] snoc.prems(1) show ?case
      using n1(1) t by (auto simp: net_run_snoc simp del: net_run.simps)
  qed (use t in \<open>simp add: net_run_snoc\<close>)
qed

text \<open>Client and server as the programs open them.\<close>

definition net_start :: "byte list \<Rightarrow> byte list \<Rightarrow> u16 \<Rightarrow> gbn_net" where
  "net_start ca host port =
     net_of (host_of ca [] (the (gbn_socket_open_client 3 (Some host) port)))
       (host_of (sockaddr_in host port) [] (the (gbn_socket_open_server 3 0)))"

lemma net_start_ok: "net_ok ca (sockaddr_in host port) [] (net_start ca host port)"
proof -
  have w: "window_ok 0 0 init_gbn_window" by (simp add: window_ok_def init_gbn_window_def DEFAULT_QUEUE_SIZE_def empty_packet_def)
  have "client_at (\<lambda>_. []) 0 0 [] (Some State_window_empty_q) init_gbn_socket"
    using w by (simp add: client_at_def init_gbn_socket_def to_send_def finished_def may_time_out_def)
  moreover have "to_server_ok (\<lambda>_. []) 0 0 0 (Some State_window_empty_q) True []" by (simp add: to_server_ok_def)
  moreover have "to_client_ok 0 0 0 False True []" by (simp add: to_client_ok_def)
  ultimately have "net_inv ca (sockaddr_in host port) [] (net_start ca host port) (\<lambda>_. []) 0 0 0 {} 0 False"
    using server_end_start by (simp add: net_inv_def net_start_def net_of_def host_of_def gbn_socket_open_client_def
      gbn_socket_open_server_def gethost_def client_host_def server_host_def gbn_start_def init_gbn_socket_def)
  then show ?thesis by (rule net_okI)
qed

lemma net_runs:
  assumes "length host = 4" "length ca = 16" "ca \<noteq> null_addr" "\<forall>e \<in> set es. one_way e" "packets es \<le> 255"
  shows "net_run es (net_start ca host port) = Inl UseAfterFree \<and> may_time_out es \<or>
    (\<exists>net. net_run es (net_start ca host port) = Inr net \<and> net_ok ca (sockaddr_in host port) es net)"
  using net_run_ok [OF net_start_ok assms(4,5,2) _ assms(3)] assms(1) by simp

abbreviation client_socket :: "gbn_net \<Rightarrow> gbn_socket" where
  "client_socket net \<equiv> sys_socket (ho_system (nt_client net))"

abbreviation server_socket :: "gbn_net \<Rightarrow> gbn_socket" where
  "server_socket net \<equiv> sys_socket (ho_system (nt_server net))"

text \<open>What the server has received: a part of what was written, and all of it at the end mark if nothing was lost on the way to it.\<close>

lemma net_inv_received:
  assumes "net_inv ca sa es net data c b n B m ended"
  shows "map db_data (filter (\<lambda>b. \<not> db_closing b) (gs_receive_buffer (server_socket net))) = take n (written_blocks es)"
    "n \<le> length (written_blocks es)"
    "closing_block \<in> set (gs_receive_buffer (server_socket net)) \<longleftrightarrow> ended"
    "ended \<Longrightarrow> LoseToServer \<notin> set es \<Longrightarrow> n = length (written_blocks es)"
proof -
  note inv = assms[unfolded net_inv_def]
  let ?st = "sys_writer (ho_system (nt_client net))"
  have w: "written_blocks es = map data [0..<c] @ map db_data (to_send ?st (client_socket net))" and n: "n \<le> c"
    using inv by (simp_all add: client_at_def)
  have "gs_receive_buffer (server_socket net) = map (data_block_of data) [0..<n] @ (if ended then [closing_block] else [])"
    using inv by (auto simp: server_end_def receiving_def split: if_splits)
  then show "map db_data (filter (\<lambda>b. \<not> db_closing b) (gs_receive_buffer (server_socket net))) = take n (written_blocks es)"
    "closing_block \<in> set (gs_receive_buffer (server_socket net)) \<longleftrightarrow> ended"
    using n unfolding w by (auto simp: data_block_of_def closing_block_def comp_def filter_map take_map take_upt)
  show "n \<le> length (written_blocks es)" using n unfolding w by simp
  assume "ended" "LoseToServer \<notin> set es"
  then have "?st = None" "n = c" using inv by (auto split: if_splits)
  then show "n = length (written_blocks es)" unfolding w by (simp add: to_send_def finished_def)
qed

end
