(* ===== verification/GbnNetworkSchedule.thy ===== *)
theory GbnNetworkSchedule
  imports GbnNetworkInv
begin

text \<open>
  A transfer that comes to its end: the schedule \<open>schedule\<close> of a file, in which nothing is lost and each packet is
  answered before the next, runs from the open of the two sockets to the end mark in the server's queue.
\<close>

section \<open>A transfer that comes to its end\<close>

text \<open>The writer thread has the next block before it, nothing is under way, and at most one packet is not acknowledged.\<close>

definition calm :: "byte list \<Rightarrow> byte list \<Rightarrow> net_event list \<Rightarrow> data_block list \<Rightarrow> gbn_net \<Rightarrow> bool" where
  "calm ca sa es q net \<longleftrightarrow> net_ok ca sa es net \<and> LoseToServer \<notin> set es \<and> LoseToClient \<notin> set es \<and>
     sys_writer (ho_system (nt_client net)) = Some State_send_packet \<and> gs_sending_buffer (client_socket net) = q \<and>
     sys_reading (ho_system (nt_client net)) \<and> nt_to_server net = [] \<and> nt_to_client net = []"

text \<open>What the invariant says of a client that has not sent the end mark yet.\<close>

lemma net_ok_open:
  assumes "net_ok ca sa es net" "sys_writer (ho_system (nt_client net)) = Some st" "LoseToServer \<notin> set es" "LoseToClient \<notin> set es"
    "sys_reading (ho_system (nt_client net))" "nt_to_server net = []"
  obtains c b where "unat (gs_seq_number (client_socket net)) = c" "window_ok c (c - b) (gs_sending_window (client_socket net))" "b \<le> c" "c \<le> packets es"
    "nt_to_client net = map (ack_of \<circ> Suc) [max 1 b..<c]" "\<not> gs_read_closed (client_socket net)"
    "fst (ho_peer (nt_client net)) = ho_addr (nt_server net)" "queue_ok (gs_sending_buffer (client_socket net))"
proof -
  obtain data c b n B m ended where inv: "net_inv ca sa es net data c b n B m ended" using assms(1) unfolding net_ok_def by blast
  note i = inv[unfolded net_inv_def]
  have ne: "\<not> ended" using i assms(2) by (auto split: if_splits)
  have "to_server_ok data n m c (Some st) True []" using i ne assms(2,3,6) by auto
  then have "c \<le> m" by (rule to_server_okE) auto
  then have "m = c" using i by simp
  moreover have "to_client_ok b n m False True (nt_to_client net)" using i ne assms(3-5) by simp
  ultimately have "nt_to_client net = map (ack_of \<circ> Suc) [max 1 b..<c]" unfolding to_client_ok_def by (auto simp: comp_def)
  then show ?thesis using that [of c b] i assms(5) by (auto simp: client_at_def client_host_def server_host_def)
qed

text \<open>One block: it is sent, received and, if it is not the first, acknowledged.\<close>

definition one_block :: "net_event list" where
  "one_block = [AtClient (WriterStep False), ToServer, ToClient, AtClient (WriterStep False)]"

lemma net_step_writer:
  assumes "sys_writer (ho_system (nt_client net)) = Some st" "writer_step t st (client_socket net) = Inr (st', sock')"
    "gs_out sock' = gs_out (client_socket net) @ new" "fst (ho_peer (nt_client net)) = ho_addr (nt_server net)"
  shows "net_step (AtClient (WriterStep t)) net = Inr (net\<lparr>nt_client := (nt_client net)\<lparr>ho_system :=
    (ho_system (nt_client net))\<lparr>sys_writer := st', sys_socket := sock'\<rparr>\<rparr>, nt_to_server := nt_to_server net @ new\<rparr>)"
  using assms by (simp add: net_step_def host_does_def gbn_step_def client_becomes_def posted_def)

lemma net_step_to_server:
  "net_step ToServer net = Inr net' \<Longrightarrow> nt_client net' = nt_client net \<and> nt_to_server net' = tl (nt_to_server net)"
  by (auto simp: net_step_def server_becomes_def bindR_eq_Inr split: list.splits)

lemma net_step_ack:
  assumes "net_step ToClient net = Inr net'" "nt_to_client net = map ack_of as" "sys_reading (ho_system (nt_client net))" "\<not> gs_read_closed (client_socket net)"
  shows "nt_to_client net' = tl (nt_to_client net) \<and> nt_to_server net' = nt_to_server net \<and>
    sys_writer (ho_system (nt_client net')) = sys_writer (ho_system (nt_client net)) \<and> sys_reading (ho_system (nt_client net')) \<and>
    gs_sending_buffer (client_socket net') = gs_sending_buffer (client_socket net)"
proof (cases as)
  case Nil
  then show ?thesis using assms by (auto simp: net_step_def)
next
  case (Cons a as')
  then show ?thesis using assms(1,2) assms(3,4)
    by (auto simp: net_step_def host_receives_def read_thread_round_def Let_def ack_wire handle_packet_def bindR_eq_Inr client_becomes_def posted_def)
qed

lemma net_deliver:
  assumes "net_ok ca sa es net" "packets es \<le> 255" "length ca = 16" "length sa = 16" "ca \<noteq> null_addr" "e = ToServer \<or> e = ToClient"
  shows "\<exists>net'. net_step e net = Inr net' \<and> net_ok ca sa (es @ [e]) net'"
proof -
  obtain data c b n B m ended where inv: "net_inv ca sa es net data c b n B m ended" using assms(1) unfolding net_ok_def by blast
  then have "c \<le> 255" using assms(2) by (simp add: net_inv_def client_at_def)
  then show ?thesis using net_to_server [OF inv] net_to_client [OF inv] assms(3-6) by blast
qed

lemma net_writer_ok:
  assumes "net_ok ca sa es net" "packets es \<le> 255" "net_step (AtClient (WriterStep t)) net = Inr net'"
  shows "net_ok ca sa (es @ [AtClient (WriterStep t)]) net'"
proof -
  obtain data c b n B m ended where "net_inv ca sa es net data c b n B m ended" using assms(1) unfolding net_ok_def by blast
  then show ?thesis using net_client_writer [of ca sa es net data c b n B m ended t] assms(2,3) by auto
qed

lemma packets_append: "packets (es @ fs) = packets es + packets fs"
  by (simp add: packets_def)

lemma packets_quiet [simp]: "packets (ToServer # es) = packets es" "packets (ToClient # es) = packets es"
  "packets (AtClient (WriterStep t) # es) = packets es"
  by (simp_all add: packets_def)

lemma calm_sent:
  assumes "calm ca sa es (x # q) net" "\<not> db_closing x" "packets es \<le> 255" "length ca = 16" "length sa = 16" "ca \<noteq> null_addr"
  shows "\<exists>net'. net_run [AtClient (WriterStep False), ToServer] net = Inr net' \<and> net_ok ca sa (es @ [AtClient (WriterStep False), ToServer]) net' \<and>
    sys_writer (ho_system (nt_client net')) = Some State_is_win_full_q \<and> gs_sending_buffer (client_socket net') = q \<and>
    sys_reading (ho_system (nt_client net')) \<and> nt_to_server net' = [] \<and> tl (nt_to_client net') = []"
proof -
  let ?w = "AtClient (WriterStep False)" let ?h = "nt_client net"
  from assms(1) have k: "net_ok ca sa es net" "LoseToServer \<notin> set es" "LoseToClient \<notin> set es" "sys_writer (ho_system ?h) = Some State_send_packet"
    "gs_sending_buffer (client_socket net) = x # q" "sys_reading (ho_system ?h)" "nt_to_server net = []" "nt_to_client net = []" by (simp_all add: calm_def)
  from net_ok_open [OF k(1,4,2,3,6,7)] obtain c b where c: "unat (gs_seq_number (client_socket net)) = c" "window_ok c (c - b) (gs_sending_window (client_socket net))"
    "b \<le> c" "c \<le> packets es" "nt_to_client net = map (ack_of \<circ> Suc) [max 1 b..<c]" "\<not> gs_read_closed (client_socket net)"
    "fst (ho_peer ?h) = ho_addr (nt_server net)" "queue_ok (gs_sending_buffer (client_socket net))" by blast
  have cb: "c \<le> max 1 b" using c(5) k(8) by auto
  then have bounds: "c - b < 6" "c < 4294967000" "db_data x \<noteq> []" "length (db_data x) \<le> DEFAULT_PACKET_SIZE" using c(4,8) k(5) assms(2,3) by auto
  let ?d = "data_datagram (\<lambda>_. db_data x) c"
  obtain w where w: "send_packet (client_socket net) = Inr (Some State_is_win_full_q, send_datagram ?d
      ((client_socket net)\<lparr>gs_sending_buffer := q, gs_seq_number := gs_seq_number (client_socket net) + 1, gs_sending_window := w\<rparr>))"
    "window_ok (Suc c) (Suc (c - b)) w"
    using send_packet_sends [of "client_socket net" "c - b" x q] c bounds k(5) assms(2) by auto
  let ?sock = "send_datagram ?d ((client_socket net)\<lparr>gs_sending_buffer := q, gs_seq_number := gs_seq_number (client_socket net) + 1, gs_sending_window := w\<rparr>)"
  let ?h1 = "?h\<lparr>ho_system := (ho_system ?h)\<lparr>sys_writer := Some State_is_win_full_q, sys_socket := ?sock\<rparr>\<rparr>"
  let ?n1 = "net\<lparr>nt_client := ?h1, nt_to_server := nt_to_server net @ [?d]\<rparr>"
  have e1: "net_step ?w net = Inr ?n1"
    using w(1) c(7) by (intro net_step_writer [OF k(4)]) (simp_all add: writer_step_def send_datagram_def)
  from net_deliver [OF net_writer_ok [OF k(1) assms(3) e1] _ assms(4-6), of ToServer] assms(3) obtain n2 where
    n2: "net_step ToServer ?n1 = Inr n2" "net_ok ca sa ((es @ [?w]) @ [ToServer]) n2" by (auto simp: packets_append)
  have h2: "nt_client n2 = ?h1" "nt_to_server n2 = []" using net_step_to_server [OF n2(1)] k(7) by simp_all
  have st2: "sys_writer (ho_system (nt_client n2)) = Some State_is_win_full_q" "LoseToServer \<notin> set ((es @ [?w]) @ [ToServer])"
    "LoseToClient \<notin> set ((es @ [?w]) @ [ToServer])" "sys_reading (ho_system (nt_client n2))" using h2 k(2,3,6) by simp_all
  obtain c2 b2 where
    c2: "unat (gs_seq_number (client_socket n2)) = c2" "window_ok c2 (c2 - b2) (gs_sending_window (client_socket n2))" "b2 \<le> c2"
      "nt_to_client n2 = map (ack_of \<circ> Suc) [max 1 b2..<c2]"
    by (rule net_ok_open [OF n2(2) st2 h2(2)]) blast
  have "c2 = Suc c" using c2(1) h2(1) c(1) bounds(2) by (simp add: send_datagram_def unat_word_ariths)
  moreover have "c2 - b2 = Suc (c - b)" using c2(2) w(2) h2(1) by (simp add: window_ok_def send_datagram_def)
  ultimately have "b2 = b" "c2 = Suc c" using c(3) c2(3) by auto
  then have "tl (nt_to_client n2) = []" using c2(4) cb by (cases "max 1 b = c") auto
  then show ?thesis using e1 n2 st2(1,4) h2 by (auto simp: send_datagram_def)
qed

text \<open>The acknowledgement arrives, and the next block follows.\<close>

lemma calm_block:
  assumes "calm ca sa es (x # q) net" "\<not> db_closing x" "q \<noteq> []" "packets es \<le> 255" "length ca = 16" "length sa = 16" "ca \<noteq> null_addr"
  shows "\<exists>net'. net_run one_block net = Inr net' \<and> calm ca sa (es @ one_block) q net'"
proof -
  let ?w = "AtClient (WriterStep False)"
  have l: "LoseToServer \<notin> set es" "LoseToClient \<notin> set es" using assms(1) by (simp_all add: calm_def)
  obtain n2 where n2: "net_run [?w, ToServer] net = Inr n2" "net_ok ca sa (es @ [?w, ToServer]) n2"
    "sys_writer (ho_system (nt_client n2)) = Some State_is_win_full_q" "gs_sending_buffer (client_socket n2) = q"
    "sys_reading (ho_system (nt_client n2))" "nt_to_server n2 = []" "tl (nt_to_client n2) = []"
    using calm_sent [OF assms(1,2,4-7)] by blast
  obtain c2 b2 where c2: "nt_to_client n2 = map (ack_of \<circ> Suc) [max 1 b2..<c2]" "\<not> gs_read_closed (client_socket n2)"
    by (rule net_ok_open [OF n2(2,3) _ _ n2(5,6)]) (use l in auto)
  from net_deliver [OF n2(2) _ assms(5-7), of ToClient] assms(4) obtain n3 where
    n3: "net_step ToClient n2 = Inr n3" "net_ok ca sa ((es @ [?w, ToServer]) @ [ToClient]) n3" by (auto simp: packets_append)
  have "nt_to_client n2 = map ack_of (map Suc [max 1 b2..<c2])" using c2(1) by simp
  from net_step_ack [OF n3(1) this n2(5) c2(2)] n2 have h3: "nt_to_client n3 = []" "nt_to_server n3 = []"
    "sys_writer (ho_system (nt_client n3)) = Some State_is_win_full_q" "sys_reading (ho_system (nt_client n3))" "gs_sending_buffer (client_socket n3) = q"
    by simp_all
  obtain c3 b3 where c3: "window_ok c3 (c3 - b3) (gs_sending_window (client_socket n3))" "nt_to_client n3 = map (ack_of \<circ> Suc) [max 1 b3..<c3]"
      "fst (ho_peer (nt_client n3)) = ho_addr (nt_server n3)"
    by (rule net_ok_open [OF n3(2) h3(3) _ _ h3(4,2)]) (use l in auto)
  have "c3 - b3 < 6" using c3(2) h3(1) by auto
  then have "unat (gw_size (gs_sending_window (client_socket n3))) < 6" using c3(1) by (simp add: window_ok_def)
  then have "writer_step False State_is_win_full_q (client_socket n3) = Inr (Some State_send_packet, client_socket n3)"
    using h3(5) assms(3) by (simp add: writer_step_def is_win_full_q_def DEFAULT_QUEUE_SIZE_def)
  from net_step_writer [OF h3(3) this, of "[]"] c3(3) obtain n4 where n4: "net_step ?w n3 = Inr n4"
    "n4 = n3\<lparr>nt_client := (nt_client n3)\<lparr>ho_system := (ho_system (nt_client n3))\<lparr>sys_writer := Some State_send_packet, sys_socket := client_socket n3\<rparr>\<rparr>,
       nt_to_server := nt_to_server n3 @ []\<rparr>" by auto
  have "net_ok ca sa (es @ one_block) n4" using net_writer_ok [OF n3(2) _ n4(1)] assms(4) by (simp add: one_block_def packets_append)
  then have "calm ca sa (es @ one_block) q n4" using l h3 n4(2) by (auto simp: calm_def one_block_def)
  moreover have "net_run one_block net = Inr n4" using n2(1) n3(1) n4(1) by (auto simp: one_block_def bindR_eq_Inr)
  ultimately show ?thesis by blast
qed

lemma net_run_append: "net_run (es @ fs) net = bindR (net_run es net) (net_run fs)"
  by (induction es arbitrary: net) (auto simp: bindR_def split: sum.splits)

lemma calm_blocks:
  assumes "calm ca sa es (map (\<lambda>x. \<lparr>db_data = x, db_closing = False\<rparr>) xs @ [closing_block]) net"
    "packets es \<le> 255" "length ca = 16" "length sa = 16" "ca \<noteq> null_addr"
  shows "\<exists>net'. net_run (concat (replicate (length xs) one_block)) net = Inr net' \<and>
    calm ca sa (es @ concat (replicate (length xs) one_block)) [closing_block] net'"
  using assms(1,2)
proof (induction xs arbitrary: es net)
  case (Cons x xs)
  from calm_block [of ca sa es "\<lparr>db_data = x, db_closing = False\<rparr>" _ net] Cons.prems assms(3-5) obtain net1 where
    n1: "net_run one_block net = Inr net1" "calm ca sa (es @ one_block) (map (\<lambda>x. \<lparr>db_data = x, db_closing = False\<rparr>) xs @ [closing_block]) net1"
    by auto
  have "packets (es @ one_block) \<le> 255" using Cons.prems(2) by (simp add: packets_append one_block_def)
  from Cons.IH [OF n1(2) this] show ?case using n1(1) by (simp add: net_run_append)
qed simp

text \<open>The end mark.\<close>

lemma calm_end:
  assumes "calm ca sa es [closing_block] net" "packets es \<le> 255" "length ca = 16" "length sa = 16" "ca \<noteq> null_addr"
  shows "\<exists>net'. net_run [AtClient (WriterStep False), AtClient (WriterStep False), ToServer] net = Inr net' \<and>
    closing_block \<in> set (gs_receive_buffer (server_socket net'))"
proof -
  let ?w = "AtClient (WriterStep False)" let ?h = "nt_client net" let ?s = "client_socket net"
  from assms(1) have k: "net_ok ca sa es net" "LoseToServer \<notin> set es" "LoseToClient \<notin> set es" "sys_writer (ho_system ?h) = Some State_send_packet"
    "gs_sending_buffer ?s = [closing_block]" "sys_reading (ho_system ?h)" "nt_to_server net = []" by (simp_all add: calm_def)
  have peer: "fst (ho_peer ?h) = ho_addr (nt_server net)" by (rule net_ok_open [OF k(1,4,2,3,6,7)])
  let ?s1 = "?s\<lparr>gs_sending_buffer := []\<rparr>"
  let ?h1 = "?h\<lparr>ho_system := (ho_system ?h)\<lparr>sys_writer := Some State_close_connection, sys_socket := ?s1\<rparr>\<rparr>"
  let ?n1 = "net\<lparr>nt_client := ?h1, nt_to_server := nt_to_server net @ []\<rparr>"
  have e1: "net_step ?w net = Inr ?n1"
    using k(5) peer by (intro net_step_writer [OF k(4)]) (simp_all add: writer_step_def send_packet_def closing_block_def)
  let ?h2 = "?h1\<lparr>ho_system := (ho_system ?h1)\<lparr>sys_writer := None, sys_socket := send_datagram eof_datagram ?s1\<rparr>\<rparr>"
  let ?n2 = "?n1\<lparr>nt_client := ?h2, nt_to_server := nt_to_server ?n1 @ [eof_datagram]\<rparr>"
  have e2: "net_step ?w ?n1 = Inr ?n2"
    using net_step_writer [of ?n1 State_close_connection False None "send_datagram eof_datagram ?s1" "[eof_datagram]"] peer
    by (simp add: writer_step_def close_connection_sends send_datagram_def)
  obtain data c b n B m ended where inv: "net_inv ca sa es net data c b n B m ended" using k(1) unfolding net_ok_def by blast
  moreover have "\<not> ended" using inv k(4) by (auto simp: net_inv_def split: if_splits)
  ultimately have inv0: "net_inv ca sa es net data c b n B m False" by simp
  have rd: "sys_reading (ho_system (nt_server net))" "\<not> gs_read_closed (server_socket net)"
    using inv0 by (auto simp: net_inv_def server_host_def server_end_def receiving_def)
  obtain buf' where r: "read_thread_round (Some eof_datagram) (ho_buf (nt_server net)) (server_socket net) = Inr (False, buf', send_datagram ack_eof_datagram
    ((server_socket net)\<lparr>gs_read_closed := True, gs_sending_buffer := gs_sending_buffer (server_socket net) @ [closing_block],
          gs_receive_buffer := gs_receive_buffer (server_socket net) @ [closing_block]\<rparr>))"
    using receive_eof [OF rd(2)] by blast
  have "\<exists>n3. net_step ToServer ?n2 = Inr n3 \<and> closing_block \<in> set (gs_receive_buffer (server_socket n3))"
    using k(7) rd(1) r by (simp add: net_step_def host_receives_def server_becomes_def send_datagram_def Let_def)
  then show ?thesis using e1 e2 by (auto simp del: append_Nil2)
qed

text \<open>The client program writes its file and closes, then its writer thread sends all blocks and the end mark.\<close>

definition schedule :: "byte list \<Rightarrow> net_event list" where
  "schedule content = map AtClient (client_calls content) @ [AtClient (WriterStep False), AtClient (WriterStep False)] @
     concat (replicate (length (chunks content)) one_block) @ [AtClient (WriterStep False), AtClient (WriterStep False), ToServer]"

lemma client_calls_net:
  "gbn_run gs (ho_system (nt_client net)) = Inr s \<Longrightarrow> \<forall>g \<in> set gs. \<not> (\<exists>t. g = WriterStep t) \<and> (\<forall>p. g \<noteq> Arrival p) \<and> (\<forall>n. g \<noteq> Read n) \<Longrightarrow>
   net_run (map AtClient gs) net = Inr (net\<lparr>nt_client := (nt_client net)\<lparr>ho_system := s\<rparr>\<rparr>)"
proof (induction gs arbitrary: net)
  case (Cons g gs)
  then obtain s1 where s1: "gbn_step g (ho_system (nt_client net)) = Inr s1" "gbn_run gs s1 = Inr s" by (auto simp: bindR_eq_Inr)
  have "gs_out (sys_socket s1) = gs_out (client_socket net)"
    using s1(1) Cons.prems(2) by (cases g) (auto simp: gbn_step_def gbn_socket_close_def gbn_socket_write_def Let_def bindR_eq_Inr split: if_splits)
  then have "net_step (AtClient g) net = Inr (net\<lparr>nt_client := (nt_client net)\<lparr>ho_system := s1\<rparr>\<rparr>)"
    using s1(1) by (simp add: net_step_def host_does_def client_becomes_def posted_def)
  then show ?case using Cons.IH [of "net\<lparr>nt_client := (nt_client net)\<lparr>ho_system := s1\<rparr>\<rparr>"] s1(2) Cons.prems(2) by simp
qed simp

lemma client_calls_only:
  "g \<in> set (client_calls content) \<Longrightarrow> \<not> (\<exists>t. g = WriterStep t) \<and> (\<forall>p. g \<noteq> Arrival p) \<and> (\<forall>n. g \<noteq> Read n)"
proof (induction content rule: client_calls.induct)
  case (1 content)
  then show ?case by (subst (asm) client_calls.simps) (auto simp: Let_def split: if_splits)
qed

lemma schedule_shape:
  "\<forall>e \<in> set (schedule content). one_way e" "LoseToServer \<notin> set (schedule content)" "\<not> may_time_out (schedule content)"
  "filter application (schedule content) = map AtClient (client_calls content)"
proof -
  define rest where "rest = [AtClient (WriterStep False), AtClient (WriterStep False)] @
     concat (replicate (length (chunks content)) one_block) @ [AtClient (WriterStep False), AtClient (WriterStep False), ToServer]"
  have r: "\<forall>e \<in> set rest. one_way e \<and> \<not> application e \<and> e \<noteq> LoseToServer \<and> e \<noteq> AtClient (WriterStep True)"
    by (auto simp: rest_def one_block_def)
  have c: "\<forall>e \<in> set (map AtClient (client_calls content)). one_way e \<and> application e \<and> e \<noteq> LoseToServer \<and> e \<noteq> AtClient (WriterStep True)"
  proof
    fix e assume "e \<in> set (map AtClient (client_calls content))"
    then obtain g where g: "e = AtClient g" "g \<in> set (client_calls content)" by auto
    then show "one_way e \<and> application e \<and> e \<noteq> LoseToServer \<and> e \<noteq> AtClient (WriterStep True)"
      using client_calls_only [OF g(2)] by (cases g) auto
  qed
  have eq: "schedule content = map AtClient (client_calls content) @ rest" by (simp only: schedule_def rest_def)
  have "one_way e \<and> e \<noteq> LoseToServer \<and> e \<noteq> AtClient (WriterStep True)" if "e \<in> set (schedule content)" for e
  proof -
    from that have "e \<in> set (map AtClient (client_calls content)) \<or> e \<in> set rest" unfolding eq by simp
    then show ?thesis using r c by blast
  qed
  then show "\<forall>e \<in> set (schedule content). one_way e" "LoseToServer \<notin> set (schedule content)" "\<not> may_time_out (schedule content)"
    unfolding may_time_out_def by blast+
  have "filter application rest = []" using r unfolding filter_empty_conv by blast
  moreover have "filter application (map AtClient (client_calls content)) = map AtClient (client_calls content)" unfolding filter_id_conv using c by blast
  ultimately show "filter application (schedule content) = map AtClient (client_calls content)" unfolding eq filter_append by (metis append_Nil2)
qed

text \<open>After the calls everything is in the queue, and the writer thread has not moved.\<close>

lemma client_calls_queue:
  obtains s where "gbn_run (client_calls content) gbn_start = Inr s" "sys_writer s = Some State_window_empty_q" "sys_reading s"
    "sys_socket s = init_gbn_socket\<lparr>gs_sending_buffer := map (\<lambda>x. \<lparr>db_data = x, db_closing = False\<rparr>) (chunks content) @ [closing_block]\<rparr>"
proof -
  let ?q = "map (\<lambda>x. \<lparr>db_data = x, db_closing = False\<rparr>) (chunks content) @ [closing_block]"
  have "client_main content init_gbn_socket = Inr (init_gbn_socket\<lparr>gs_sending_buffer := ?q\<rparr>)"
    by (simp add: client_main_def client_loop_queues gbn_socket_close_def init_gbn_socket_def push_block_def closing_block_def blocks_of_def)
  moreover have "map_sum id sys_socket (gbn_run (client_calls content) gbn_start) = client_main content init_gbn_socket"
    using client_calls_main [of content gbn_start] by (simp add: gbn_start_def)
  ultimately obtain s where s: "gbn_run (client_calls content) gbn_start = Inr s" "sys_socket s = init_gbn_socket\<lparr>gs_sending_buffer := ?q\<rparr>"
    by (cases "gbn_run (client_calls content) gbn_start") auto
  have keep: "sys_writer s = sys_writer s0 \<and> sys_reading s = sys_reading s0" if "gbn_run gs s0 = Inr s" "set gs \<subseteq> set (client_calls content)" for gs s0
    using that
  proof (induction gs arbitrary: s0)
    case (Cons g gs)
    then obtain s1 where "gbn_step g s0 = Inr s1" "gbn_run gs s1 = Inr s" by (auto simp: bindR_eq_Inr)
    then show ?case using Cons.IH [of s1] Cons.prems(2) client_calls_only [of g content]
      by (cases g) (auto simp: gbn_step_def bindR_eq_Inr)
  qed simp
  have "sys_writer gbn_start = Some State_window_empty_q" "sys_reading gbn_start" by (simp_all add: gbn_start_def)
  then have "sys_writer s = Some State_window_empty_q" "sys_reading s" using keep [OF s(1) subset_refl] by auto
  with s show ?thesis using that by blast
qed

text \<open>The first two states of the writer thread.\<close>

lemma schedule_calm:
  assumes "length host = 4" "length ca = 16" "ca \<noteq> null_addr" "length (chunks content) \<le> 255"
  shows "\<exists>net. net_run (map AtClient (client_calls content) @ [AtClient (WriterStep False), AtClient (WriterStep False)]) (net_start ca host port) = Inr net \<and>
    calm ca (sockaddr_in host port) (map AtClient (client_calls content) @ [AtClient (WriterStep False), AtClient (WriterStep False)])
      (map (\<lambda>x. \<lparr>db_data = x, db_closing = False\<rparr>) (chunks content) @ [closing_block]) net"
proof -
  let ?n0 = "net_start ca host port" let ?cs = "map AtClient (client_calls content)" let ?w = "AtClient (WriterStep False)"
  obtain s where s: "gbn_run (client_calls content) gbn_start = Inr s" "sys_writer s = Some State_window_empty_q" "sys_reading s"
    "sys_socket s = init_gbn_socket\<lparr>gs_sending_buffer := map (\<lambda>x. \<lparr>db_data = x, db_closing = False\<rparr>) (chunks content) @ [closing_block]\<rparr>"
    by (rule client_calls_queue)
  have cl: "ho_system (nt_client ?n0) = gbn_start" "ho_addr (nt_server ?n0) = fst (ho_peer (nt_client ?n0))" "nt_to_server ?n0 = []" "nt_to_client ?n0 = []"
    by (simp_all add: net_start_def net_of_def host_of_def gbn_socket_open_client_def gbn_socket_open_server_def gethost_def gbn_start_def)
  let ?n1 = "?n0\<lparr>nt_client := (nt_client ?n0)\<lparr>ho_system := s\<rparr>\<rparr>"
  have e1: "net_run ?cs ?n0 = Inr ?n1" using client_calls_net [of "client_calls content" ?n0 s] s(1) cl(1) client_calls_only by simp
  have c: "\<forall>e \<in> set ?cs. one_way e" "packets ?cs \<le> 255" "\<not> may_time_out ?cs" "LoseToServer \<notin> set ?cs" "LoseToClient \<notin> set ?cs"
    using schedule_shape(1,3) [of content] client_calls_blocks [of content] assms(4) by (auto simp: schedule_def may_time_out_def)
  then have ok1: "net_ok ca (sockaddr_in host port) ?cs ?n1" using net_runs [OF assms(1-3), of ?cs port] e1 by auto
  let ?n2 = "?n1\<lparr>nt_client := (nt_client ?n1)\<lparr>ho_system := (ho_system (nt_client ?n1))\<lparr>sys_writer := Some State_block_on_queue, sys_socket := client_socket ?n1\<rparr>\<rparr>, nt_to_server := nt_to_server ?n1 @ []\<rparr>"
  have e2: "net_step ?w ?n1 = Inr ?n2"
  proof (rule net_step_writer)
    show "sys_writer (ho_system (nt_client ?n1)) = Some State_window_empty_q" using s(2) by simp
    show "writer_step False State_window_empty_q (client_socket ?n1) = Inr (Some State_block_on_queue, client_socket ?n1)"
      using s(4) by (simp add: writer_step_def window_empty_q_def init_gbn_socket_def init_gbn_window_def)
  qed (use cl(2) in simp_all)
  let ?n3 = "?n2\<lparr>nt_client := (nt_client ?n2)\<lparr>ho_system := (ho_system (nt_client ?n2))\<lparr>sys_writer := Some State_send_packet, sys_socket := client_socket ?n2\<rparr>\<rparr>, nt_to_server := nt_to_server ?n2 @ []\<rparr>"
  have e3: "net_step ?w ?n2 = Inr ?n3"
  proof (rule net_step_writer)
    show "sys_writer (ho_system (nt_client ?n2)) = Some State_block_on_queue" by simp
    show "writer_step False State_block_on_queue (client_socket ?n2) = Inr (Some State_send_packet, client_socket ?n2)"
      using s(4) by (simp add: writer_step_def block_on_queue_def)
  qed (use cl(2) in simp_all)
  have "packets (?cs @ [?w]) \<le> 255" using c(2) by (simp add: packets_append)
  from net_writer_ok [OF net_writer_ok [OF ok1 c(2) e2] this e3]
  have "calm ca (sockaddr_in host port) (?cs @ [?w, ?w]) (map (\<lambda>x. \<lparr>db_data = x, db_closing = False\<rparr>) (chunks content) @ [closing_block]) ?n3"
    using s c(4,5) cl(3,4) by (simp add: calm_def)
  moreover have "net_run [?w, ?w] ?n1 = Inr ?n3" using e2 e3 by (simp del: append_Nil2)
  then have "net_run (?cs @ [?w, ?w]) ?n0 = Inr ?n3" using e1 by (simp only: net_run_append bindR_Inr)
  ultimately show ?thesis by blast
qed

lemma schedule_ends:
  assumes "length host = 4" "length ca = 16" "ca \<noteq> null_addr" "length (chunks content) \<le> 255"
  shows "\<exists>net. net_run (schedule content) (net_start ca host port) = Inr net \<and> closing_block \<in> set (gs_receive_buffer (server_socket net))"
proof -
  let ?es = "map AtClient (client_calls content) @ [AtClient (WriterStep False), AtClient (WriterStep False)]"
  let ?blocks = "concat (replicate (length (chunks content)) one_block)"
  have p: "packets ?es \<le> 255" using client_calls_blocks [of content] assms(4) by (simp add: packets_append)
  have "packets (concat (replicate k one_block)) = 0" for k by (induction k) (simp_all add: packets_append one_block_def)
  then have p2: "packets (?es @ ?blocks) \<le> 255" using p by (simp only: packets_append)
  obtain n3 where n3: "net_run ?es (net_start ca host port) = Inr n3"
    "calm ca (sockaddr_in host port) ?es (map (\<lambda>x. \<lparr>db_data = x, db_closing = False\<rparr>) (chunks content) @ [closing_block]) n3"
    using schedule_calm [OF assms] by blast
  from calm_blocks [OF n3(2) p assms(2) _ assms(3)] assms(1) obtain n4 where
    n4: "net_run ?blocks n3 = Inr n4" "calm ca (sockaddr_in host port) (?es @ ?blocks) [closing_block] n4" by auto
  from calm_end [OF n4(2) p2 assms(2) _ assms(3)] assms(1) obtain n5 where
    n5: "net_run [AtClient (WriterStep False), AtClient (WriterStep False), ToServer] n4 = Inr n5"
      "closing_block \<in> set (gs_receive_buffer (server_socket n5))" by auto
  have "schedule content = ?es @ ?blocks @ [AtClient (WriterStep False), AtClient (WriterStep False), ToServer]" by (simp add: schedule_def)
  then have "net_run (schedule content) (net_start ca host port) = Inr n5"
    using n3(1) n4(1) n5(1) by (simp only: net_run_append bindR_Inr)
  then show ?thesis using n5(2) by blast
qed

end
