(* ===== verification/GbnNetworkProps.thy ===== *)
theory GbnNetworkProps
  imports GbnNetworkSchedule
begin

text \<open>
  The properties of the transfer of \<open>GbnNetwork\<close>: what every run of client, server and network does
  (\<open>GbnNetworkInv\<close>), and a run that delivers the file (\<open>GbnNetworkSchedule\<close>).
\<close>

section \<open>Properties\<close>

definition example_client :: "byte list" where
  "example_client = sockaddr_in [10, 0, 0, 2] 40000"

lemma example_client_addr: "length example_client = 16" "example_client \<noteq> null_addr"
  by (simp_all add: example_client_def sockaddr_in_def null_addr_def AF_INET_def numeral_eq_Suc)

lemma example_chunks: "chunks [7] = [[7]]"
  by (subst chunks.simps) (simp add: DEFAULT_PACKET_SIZE_def)



lemma net_file_received:
  assumes "length host = 4" "length ca = 16" "ca \<noteq> null_addr" "\<forall>e \<in> set es. one_way e" "length (chunks content) \<le> 255"
    "filter application es = map AtClient (client_calls content)"
    "LoseToServer \<notin> set es" "\<not> may_time_out es"
  shows "\<exists>net. net_run es (net_start ca host port) = Inr net \<and>
    (closing_block \<in> set (gs_receive_buffer (server_socket net)) \<longrightarrow>
       map_option fst (server_loop (server_socket net) []) = (if 8192 dvd length content then None else Some content))"
proof -
  have b: "written_blocks es = chunks content" "packets es \<le> 255"
    using assms(5) application_only [of es] client_calls_blocks [of content] unfolding assms(6) by simp_all
  from net_runs [OF assms(1-4) b(2), of port] assms(8) obtain net where
    run: "net_run es (net_start ca host port) = Inr net" "net_ok ca (sockaddr_in host port) es net" by auto
  then obtain data c b n B m ended where inv: "net_inv ca (sockaddr_in host port) es net data c b n B m ended" unfolding net_ok_def by blast
  note r = net_inv_received [OF inv, unfolded b(1)]
  have "server_at (server_socket net) False content" if "ended"
  proof -
    have sv: "gs_receive_buffer (server_socket net) = map (data_block_of data) [0..<n] @ [closing_block]" "\<not> gs_closed (server_socket net)"
      "gs_current_block_ptr (server_socket net) = 0" using inv that by (auto simp: net_inv_def server_end_def)
    then have "map data [0..<n] = chunks content" using r(1,4) that assms(7) by (simp add: data_block_of_def closing_block_def filter_map comp_def)
    then have "map (data_block_of data) [0..<n] = blocks_of content"
      unfolding blocks_of_def by (metis (no_types, lifting) data_block_of_def comp_apply map_eq_conv map_map)
    then show ?thesis using sv by (simp add: server_at_def)
  qed
  then show ?thesis using run(1) r(3) server_loop_fresh [of "server_socket net" content "[]"] by (auto simp: DEFAULT_PACKET_SIZE_def)
qed





text \<open>
  C24. A file of one packet is never acknowledged: the answer to the first datagram goes to the null
  address.  The packet stays in the client's window whatever happens, and if the client waits until its time is
  over, the retransmission uses freed memory.
\<close>

theorem single_packet_unacknowledged:
  assumes "length host = 4" "length ca = 16" "ca \<noteq> null_addr" "\<forall>e \<in> set es. one_way e" "packets es \<le> 1"
    "net_run es (net_start ca host port) = Inr net"
  shows "unat (gw_size (gs_sending_window (client_socket net))) = unat (gs_seq_number (client_socket net)) \<and>
    (gs_seq_number (client_socket net) \<noteq> 0 \<longrightarrow> writer_step t State_retransmit (client_socket net) = Inl UseAfterFree)"
proof -
  have "packets es \<le> 255" using assms(5) by simp
  from net_runs [OF assms(1-4) this, of port] assms(6) have "net_ok ca (sockaddr_in host port) es net" by auto
  then obtain data c b n B m ended where inv: "net_inv ca (sockaddr_in host port) es net data c b n B m ended" unfolding net_ok_def by blast
  then have w: "unat (gs_seq_number (client_socket net)) = c" "window_ok c (c - b) (gs_sending_window (client_socket net))" "c \<le> packets es" "0 < b \<longrightarrow> 2 \<le> c"
    by (simp_all add: net_inv_def client_at_def)
  then have b: "b = 0" using assms(5) by linarith
  have "retransmit (client_socket net) = Inl UseAfterFree" if "c \<noteq> 0" using retransmit_freed [OF w(2)] that b by simp
  moreover have "gs_seq_number (client_socket net) \<noteq> 0 \<longleftrightarrow> c \<noteq> 0" using w(1) by (metis unat_eq_zero)
  ultimately show ?thesis using w(1,2) b by (simp add: window_ok_def writer_step_def)
qed

theorem single_packet_unacknowledged_witness:
  "\<exists>net. net_run (schedule [7]) (net_start example_client [10, 0, 0, 1] 5000) = Inr net \<and>
     unat (gw_size (gs_sending_window (client_socket net))) = unat (gs_seq_number (client_socket net))"
proof -
  obtain net where n: "net_run (schedule [7]) (net_start example_client [10, 0, 0, 1] 5000) = Inr net"
    using schedule_ends [of "[10, 0, 0, 1]" example_client "[7]" 5000] by (auto simp: example_client_addr example_chunks)
  have "packets (schedule [7]) \<le> 1"
    using application_only(2) [of "schedule [7]"] client_calls_blocks [of "[7]"] unfolding schedule_shape(4) by (simp add: example_chunks)
  from single_packet_unacknowledged [OF _ _ _ schedule_shape(1) this n] show ?thesis using n by (auto simp: example_client_addr)
qed

end
