(* ===== verification/GbnTemplates.thy ===== *)
theory GbnTemplates
  imports GbnPrograms
begin

text \<open>
  The two programs of the course from which the transfer programs were made
  (\<^verbatim>\<open>PA2/GBNframework/GBNclient.c\<close>, \<^verbatim>\<open>GBNserver.c\<close>): one datagram from a client, one answer from a server,
  through the lossy network.  They include a header that is not part of the repository, and in the client the call of
  \<open>socket\<close> is a placeholder; its result is an argument here, as it is in the server.
\<close>

section \<open>What the programs get\<close>

text \<open>
  \<open>te_recv\<close>: the sender's address that \<open>recvfrom\<close> stores, \<open>None\<close> if it fails; \<open>te_stack\<close>: what the address on the
  stack holds before.
\<close>

record template_env =
  te_round :: "rat \<Rightarrow> rat"
  te_atof :: "byte list \<Rightarrow> rat"
  te_atoi :: "byte list \<Rightarrow> int"
  te_inet_addr :: "byte list \<Rightarrow> byte list"
  te_socket :: int
  te_bind :: "byte list \<Rightarrow> int"
  te_rand_max :: int
  te_rand :: int
  te_recv :: "byte list option"
  te_stack :: "byte list"

text \<open>The exit status, and the datagrams sent: payload, and the bytes of the address that \<open>sendto\<close> is told to use.\<close>

type_synonym template_outcome = "int \<times> (byte list \<times> byte list) list"

definition send_template :: "template_env \<Rightarrow> int \<Rightarrow> byte list \<Rightarrow> byte list \<Rightarrow> nat \<Rightarrow> (byte list \<times> byte list) list" where
  "send_template te p_threshold msg addr addr_len =
     map (\<lambda>d. (d, take addr_len addr))
       (fst (sendto_lossy (te_round te) (te_rand_max te) p_threshold (te_rand te) (int (length msg)) msg))"

section \<open>The client\<close>

definition template_client :: "template_env \<Rightarrow> byte list list \<Rightarrow> template_outcome result" where
  "template_client te argv =
     (if length argv < 7 then Inr (1, [])
      else
        bindR (argv_at argv 3) (\<lambda>rate.
        case init_net_lib (te_round te) (te_atof te rate) of None \<Rightarrow> Inr (0, [])
        | Some p_threshold \<Rightarrow>
            if te_socket te < 0 then Inr (1, [])
            else
              bindR (argv_at argv 2) (\<lambda>port.
              bindR (argv_at argv 1) (\<lambda>host.
              let remoteServAddr = sockaddr_in (te_inet_addr te host) (word_of_int (te_atoi te port))
              in Inr (0, send_template te p_threshold (ascii ''send this'') remoteServAddr (length remoteServAddr))))))"

section \<open>The server\<close>

text \<open>The size of the address in the last call is that of \<^verbatim>\<open>cliLen\<close>, an \<^verbatim>\<open>unsigned int\<close>.\<close>

definition template_server :: "template_env \<Rightarrow> byte list list \<Rightarrow> template_outcome result" where
  "template_server te argv =
     (if length argv < 6 then Inr (1, [])
      else
        bindR (argv_at argv 2) (\<lambda>rate.
        case init_net_lib (te_round te) (te_atof te rate) of None \<Rightarrow> Inr (0, [])
        | Some p_threshold \<Rightarrow>
            if te_socket te < 0 then Inr (1, [])
            else
              bindR (argv_at argv 1) (\<lambda>port.
              if te_bind te (sockaddr_in [0, 0, 0, 0] (word_of_int (te_atoi te port))) < 0 then Inr (1, [])
              else
                let cliAddr = (case te_recv te of None \<Rightarrow> te_stack te | Some from \<Rightarrow> from)
                in Inr (0, send_template te p_threshold (ascii ''respond this'') cliAddr 4))))"

section \<open>What they send\<close>

text \<open>
  The client sends its message to the whole address of the server; the answer of the server goes to the first
  four bytes of an address only, which do not name a host, and if nothing was received they are left over on the
  stack.
\<close>

lemma template_client_sends:
  assumes "7 \<le> length argv" "init_net_lib (te_round te) (te_atof te (argv ! 3)) = Some p" "0 \<le> te_socket te"
    "rnd_of (te_round te) (te_rand_max te) (te_rand te) > p"
  shows "template_client te argv =
    Inr (0, [(ascii ''send this'', sockaddr_in (te_inet_addr te (argv ! 1)) (word_of_int (te_atoi te (argv ! 2))))])"
proof -
  have "argv_at argv 1 = Inr (argv ! 1)" "argv_at argv 2 = Inr (argv ! 2)" "argv_at argv 3 = Inr (argv ! 3)"
    using assms(1) by (simp_all add: argv_at_def)
  then show ?thesis using assms by (simp add: template_client_def send_template_def sendto_lossy_def)
qed

lemma template_server_truncates:
  assumes "6 \<le> length argv" "init_net_lib (te_round te) (te_atof te (argv ! 2)) = Some p" "0 \<le> te_socket te" "\<And>a. 0 \<le> te_bind te a"
    "rnd_of (te_round te) (te_rand_max te) (te_rand te) > p"
  shows "template_server te argv = Inr (0, [(ascii ''respond this'', take 4 (case te_recv te of None \<Rightarrow> te_stack te | Some from \<Rightarrow> from))])"
    "te_recv te = Some (sockaddr_in host port) \<Longrightarrow> template_server (te\<lparr>te_recv := Some (sockaddr_in host' port)\<rparr>) argv = template_server te argv"
proof -
  have a: "argv_at argv 1 = Inr (argv ! 1)" "argv_at argv 2 = Inr (argv ! 2)" using assms(1) by (simp_all add: argv_at_def)
  then show s: "template_server te argv = Inr (0, [(ascii ''respond this'', take 4 (case te_recv te of None \<Rightarrow> te_stack te | Some from \<Rightarrow> from))])"
    using assms by (simp add: template_server_def send_template_def sendto_lossy_def Let_def not_less [symmetric])
  assume r: "te_recv te = Some (sockaddr_in host port)"
  have "template_server (te\<lparr>te_recv := Some (sockaddr_in host' port)\<rparr>) argv = Inr (0, [(ascii ''respond this'', take 4 (sockaddr_in host' port))])"
    using assms a by (simp add: template_server_def send_template_def sendto_lossy_def Let_def not_less [symmetric])
  then show "template_server (te\<lparr>te_recv := Some (sockaddr_in host' port)\<rparr>) argv = template_server te argv" unfolding s r by (simp add: sockaddr_in_def)
qed

end
