(* ===== verification/GbnThreads.thy ===== *)
theory GbnThreads
  imports GbnWriteProps Runs
begin

text \<open>
  The threads of a go-back-N socket as they run (\<^verbatim>\<open>PA2/GBNframework/gbn_socket.c\<close>, \<^verbatim>\<open>gbn_read.c\<close>,
  \<^verbatim>\<open>gbn_write.c\<close>): the writer thread, the reader thread and the application that closes the socket and
  frees it, with the mutex \<^verbatim>\<open>_m_mutex\<close> and the condition variable \<^verbatim>\<open>_m_wait_for_ack\<close>.  A step is what
  a thread does up to the next point at which another thread can change what it sees.

  \<^verbatim>\<open>init_gbn_socket\<close> locks \<^verbatim>\<open>_m_mutex\<close>, and the writer thread lives as its owner: only its wait for an
  acknowledgement releases it.  That the owner is another thread than the one that unlocks is undefined
  for POSIX; the mutex is taken as the default one of the systems the Makefile builds for, which does
  not look at the owner.
\<close>

section \<open>The state\<close>

text \<open>
  The writer thread is at the beginning of a state of its machine, or inside \<open>send_packet\<close>: it has
  taken a block and numbered its packet, or it has put the packet into a slot of the window and
  has yet to send it.  Or it is inside \<^verbatim>\<open>pthread_cond_timedwait\<close>, waiting or woken (after the time-out
  or before it).
\<close>

datatype writer_pc = WAt writer_state | WTaken data_block gbn_packet | WEntered data_block gbn_packet nat
  | WWaiting | WWoken bool | WEnded

text \<open>The reader thread is inside \<^verbatim>\<open>recvfrom\<close>, or about to signal the writer.\<close>

datatype reader_pc = RReceiving | RSignalling | REnded

text \<open>
  The application uses the socket, or is inside \<open>gbn_socket_close\<close>, in the join of the writer thread
  (\<open>True\<close>) or of the reader thread, or has freed the socket.
\<close>

datatype app_pc = AppRunning | AppJoining bool | AppFreed

record thr_system =
  th_writer :: writer_pc
  th_reader :: reader_pc
  th_app :: app_pc
  th_locked :: bool
  th_socket :: gbn_socket

text \<open>\<^verbatim>\<open>init_gbn_socket\<close>: the mutex is locked, the two threads start.\<close>

definition thr_start :: thr_system where
  "thr_start = \<lparr>th_writer = WAt State_window_empty_q, th_reader = RReceiving, th_app = AppRunning,
     th_locked = True, th_socket = init_gbn_socket\<rparr>"

section \<open>The writer thread\<close>

text \<open>The three parts of \<open>send_packet\<close>.  \<open>None\<close>: the thread has to wait.\<close>

definition take_packet :: "thr_system \<Rightarrow> thr_system option" where
  "take_packet s =
     (let sock = th_socket s in
      case gs_sending_buffer sock of [] \<Rightarrow> None
      | block # q \<Rightarrow>
          if db_closing block then
            Some (s\<lparr>th_writer := WAt State_close_connection, th_socket := sock\<lparr>gs_sending_buffer := q\<rparr>\<rparr>)
          else
            Some (s\<lparr>th_writer := WTaken block \<lparr>gp_type = gbn_packet_type_data, gp_seq_number = gs_seq_number sock,
                      gp_size = of_nat (length (db_data block)), gp_payload = Some (db_data block)\<rparr>,
                    th_socket := sock\<lparr>gs_sending_buffer := q, gs_seq_number := gs_seq_number sock + 1\<rparr>\<rparr>))"

definition enter_packet :: "data_block \<Rightarrow> gbn_packet \<Rightarrow> thr_system \<Rightarrow> thr_system result" where
  "enter_packet block packet s =
     (let tmp = gs_sending_window (th_socket s); slot = unat (gw_tail tmp) in
      bindR (arr_set (gw_packet_buffer tmp) (int slot) packet) (\<lambda>buf.
      Inr (s\<lparr>th_writer := WEntered block packet slot,
             th_socket := (th_socket s)\<lparr>gs_sending_window := tmp\<lparr>gw_packet_buffer := buf,
               gw_tail := of_nat ((unat (gw_tail tmp) + 1) mod DEFAULT_QUEUE_SIZE), gw_size := gw_size tmp + 1\<rparr>\<rparr>\<rparr>)))"

text \<open>\<^verbatim>\<open>free(block->_m_data)\<close>: the copy of the packet in the window points to it, too.\<close>

definition forget_payload :: "nat \<Rightarrow> gbn_window \<Rightarrow> gbn_window" where
  "forget_payload slot w =
     w\<lparr>gw_packet_buffer := (gw_packet_buffer w)[slot := (gw_packet_buffer w ! slot)\<lparr>gp_payload := None\<rparr>]\<rparr>"

definition transmit_packet :: "gbn_packet \<Rightarrow> nat \<Rightarrow> thr_system \<Rightarrow> thr_system result" where
  "transmit_packet packet slot s =
     bindR (gbn_socket_serialize packet SERIALIZE_SIZE) (\<lambda>(n, d).
     let sock = send_datagram (take n d) (th_socket s) in
     Inr (s\<lparr>th_writer := WAt State_is_win_full_q,
            th_socket := sock\<lparr>gs_sending_window := forget_payload slot (gs_sending_window sock)\<rparr>\<rparr>))"

text \<open>The other states of the machine are single steps.\<close>

definition run_state :: "bool \<Rightarrow> writer_state \<Rightarrow> thr_system \<Rightarrow> thr_system result" where
  "run_state timed_out st s =
     bindR (writer_step timed_out st (th_socket s)) (\<lambda>(st', sock).
     Inr (s\<lparr>th_writer := (case st' of None \<Rightarrow> WEnded | Some st \<Rightarrow> WAt st), th_socket := sock\<rparr>))"

definition writer_thread :: "thr_system \<Rightarrow> thr_system result option" where
  "writer_thread s =
     (case th_writer s of
        WAt State_send_packet \<Rightarrow> map_option Inr (take_packet s)
      | WAt State_block_on_queue \<Rightarrow>
          (if gs_sending_buffer (th_socket s) = [] then None else Some (run_state False State_block_on_queue s))
      | WAt State_wait_on_read \<Rightarrow> Some (Inr (s\<lparr>th_writer := WWaiting, th_locked := False\<rparr>))
      | WAt st \<Rightarrow> Some (run_state False st s)
      | WTaken block packet \<Rightarrow> Some (enter_packet block packet s)
      | WEntered block packet slot \<Rightarrow> Some (transmit_packet packet slot s)
      | WWaiting \<Rightarrow> None
      | WWoken timed_out \<Rightarrow>
          (if th_locked s then None else Some (run_state timed_out State_wait_on_read (s\<lparr>th_locked := True\<rparr>)))
      | WEnded \<Rightarrow> None)"

section \<open>The reader thread\<close>

text \<open>Whether the writer is poked after an acknowledgement.\<close>

definition pokes :: "gbn_packet \<Rightarrow> gbn_window \<Rightarrow> bool" where
  "pokes packet w \<longleftrightarrow> gp_type packet = gbn_packet_type_ack \<and> GET_SEND_FRAME_id_delta w (gp_seq_number packet) \<noteq> Inr (-2)"

definition reader_receives :: "gbn_packet \<Rightarrow> thr_system \<Rightarrow> thr_system result" where
  "reader_receives packet s =
     bindR (handle_packet packet (th_socket s)) (\<lambda>(go, sock).
     Inr (s\<lparr>th_reader := (if pokes packet (gs_sending_window (th_socket s)) then RSignalling
                          else if go then RReceiving else REnded),
            th_socket := sock\<rparr>))"

text \<open>Lock, signal, unlock.\<close>

definition reader_signals :: "thr_system \<Rightarrow> thr_system option" where
  "reader_signals s =
     (if th_locked s then None
      else Some (s\<lparr>th_writer := (if th_writer s = WWaiting then WWoken False else th_writer s), th_reader := RReceiving\<rparr>))"

section \<open>The end\<close>

definition close_begins :: "thr_system \<Rightarrow> thr_system" where
  "close_begins s =
     s\<lparr>th_app := AppJoining (\<not> gs_closed (th_socket s)), th_socket := gbn_socket_close (th_socket s)\<rparr>"

text \<open>The join returns when its thread has ended; the descriptor, the mutexes, the queues and the socket go.\<close>

definition close_ends :: "thr_system \<Rightarrow> thr_system option" where
  "close_ends s =
     (case th_app s of
        AppJoining True \<Rightarrow> (if th_writer s = WEnded then Some (s\<lparr>th_app := AppFreed\<rparr>) else None)
      | AppJoining False \<Rightarrow> (if th_reader s = REnded then Some (s\<lparr>th_app := AppFreed\<rparr>) else None)
      | _ \<Rightarrow> None)"

text \<open>
  A thread that is left then: where it waits inside a call that is a cancellation point it is
  cancelled, everywhere else it goes on and uses the freed socket.
\<close>

definition orphan_writer :: "thr_system \<Rightarrow> thr_system result option" where
  "orphan_writer s =
     (case th_writer s of WEnded \<Rightarrow> None
      | WWaiting \<Rightarrow> Some (Inr (s\<lparr>th_writer := WEnded\<rparr>))
      | WAt State_block_on_queue \<Rightarrow>
          Some (if gs_sending_buffer (th_socket s) = [] then Inr (s\<lparr>th_writer := WEnded\<rparr>) else Inl UseAfterFree)
      | _ \<Rightarrow> Some (Inl UseAfterFree))"

definition orphan_reader :: "thr_system \<Rightarrow> thr_system result option" where
  "orphan_reader s =
     (case th_reader s of REnded \<Rightarrow> None
      | RReceiving \<Rightarrow> Some (Inr (s\<lparr>th_reader := REnded\<rparr>))
      | RSignalling \<Rightarrow> Some (Inl UseAfterFree))"

section \<open>Steps\<close>

text \<open>\<open>TWake\<close>: the wait times out, or ends for no reason.\<close>

datatype thr_event = TWriter | TWake bool | TReader | TArrival gbn_packet
  | TWrite "byte list" | TRead nat | TClose | TFinish

text \<open>\<open>None\<close>: the step cannot be taken in this state.\<close>

definition thr_step :: "thr_event \<Rightarrow> thr_system \<Rightarrow> thr_system result option" where
  "thr_step e s =
     (case e of
        TWriter \<Rightarrow> if th_app s = AppFreed then orphan_writer s else writer_thread s
      | TWake timed_out \<Rightarrow>
          if th_writer s = WWaiting \<and> th_app s \<noteq> AppFreed then Some (Inr (s\<lparr>th_writer := WWoken timed_out\<rparr>)) else None
      | TReader \<Rightarrow>
          if th_app s = AppFreed then orphan_reader s
          else if th_reader s = RSignalling then map_option Inr (reader_signals s) else None
      | TArrival packet \<Rightarrow>
          if th_reader s = RReceiving \<and> th_app s \<noteq> AppFreed then Some (reader_receives packet s) else None
      | TWrite bytes \<Rightarrow>
          if th_app s = AppRunning then
            Some (bindR (gbn_socket_write (th_socket s) bytes (of_nat (length bytes))) (\<lambda>(_, sock). Inr (s\<lparr>th_socket := sock\<rparr>)))
          else None
      | TRead len \<Rightarrow>
          if th_app s = AppRunning then
            (case gbn_socket_read (th_socket s) len of
               ReadBytes _ sock \<Rightarrow> Some (Inr (s\<lparr>th_socket := sock\<rparr>)) | Blocked _ \<Rightarrow> None)
          else None
      | TClose \<Rightarrow> if th_app s = AppRunning then Some (Inr (close_begins s)) else None
      | TFinish \<Rightarrow> map_option Inr (close_ends s))"

definition thr_rel :: "thr_system \<Rightarrow> thr_event \<Rightarrow> thr_system \<Rightarrow> bool" where
  "thr_rel s e s' \<longleftrightarrow> thr_step e s = Some (Inr s')"

end
