(* ===== verification/GbnThreadsSim.thy ===== *)
theory GbnThreadsSim
  imports GbnThreads
begin

text \<open>
  The threads of a go-back-N socket come to the atomic steps of \<open>GbnWrite\<close>: a packet counts as sent from
  the moment it is in the window.  What the writer thread has in its hands at other moments (a block
  that is taken, a payload that is not freed yet, a datagram that is not sent yet) is the difference
  between the two, and the reader thread and the application do not see it.
\<close>

section \<open>The socket that a state of the threads stands for\<close>

text \<open>
  What another thread has not to see: blocks \<open>q\<close> taken from the sending buffer, the number \<open>k\<close> of the
  next packet, the payload in \<open>slot\<close> that is still needed, and datagrams that are not sent yet.
\<close>

fun freed_slot :: "nat option \<Rightarrow> gbn_window \<Rightarrow> gbn_window" where
  "freed_slot None w = w"
| "freed_slot (Some i) w = forget_payload i w"

definition patch :: "data_block list \<Rightarrow> u32 \<Rightarrow> nat option \<Rightarrow> byte list list \<Rightarrow> gbn_socket \<Rightarrow> gbn_socket" where
  "patch q k slot out sock = sock\<lparr>gs_sending_buffer := q @ gs_sending_buffer sock, gs_seq_number := k,
     gs_sending_window := freed_slot slot (gs_sending_window sock),
     gs_out := out\<rparr>"

lemma patch_simps [simp]:
  "gs_sending_buffer (patch q k slot out sock) = q @ gs_sending_buffer sock"
  "gs_seq_number (patch q k slot out sock) = k"
  "gs_sending_window (patch q k slot out sock) = freed_slot slot (gs_sending_window sock)"
  "gs_out (patch q k slot out sock) = out"
  "gs_closed (patch q k slot out sock) = gs_closed sock"
  "gs_receive_buffer (patch q k slot out sock) = gs_receive_buffer sock"
  "gs_current_block_ptr (patch q k slot out sock) = gs_current_block_ptr sock"
  "gs_receive_window (patch q k slot out sock) = gs_receive_window sock"
  by (simp_all add: patch_def)

lemma forget_payload_simps [simp]:
  "gw_head (forget_payload i w) = gw_head w" "gw_tail (forget_payload i w) = gw_tail w" "gw_size (forget_payload i w) = gw_size w"
  "length (gw_packet_buffer (forget_payload i w)) = length (gw_packet_buffer w)"
  by (simp_all add: forget_payload_def)

lemma forget_payload_number:
  "k < length (gw_packet_buffer w) \<Longrightarrow> gp_seq_number (gw_packet_buffer (forget_payload i w) ! k) = gp_seq_number (gw_packet_buffer w ! k)"
  by (cases "i = k") (simp_all add: forget_payload_def)

subsection \<open>The reader and the application do not see the difference\<close>

lemma handle_ack_forget:
  "handle_ack a (forget_payload i w) = mapR (forget_payload i) (handle_ack a w)"
proof -
  have "GET_SEND_FRAME_id_delta (forget_payload i w) a = GET_SEND_FRAME_id_delta w a"
    by (simp add: GET_SEND_FRAME_id_delta_def arr_get_def forget_payload_number)
  then show ?thesis unfolding handle_ack_def
    by (cases "GET_SEND_FRAME_id_delta w a") (simp_all add: Let_def forget_payload_def)
qed

text \<open>The datagrams of the writer thread; the others are acknowledgements.\<close>

definition writer_datagram :: "byte list \<Rightarrow> bool" where
  "writer_datagram d \<longleftrightarrow> take 4 d = store_u32 (htonl gbn_packet_type_data) \<or> take 4 d = store_u32 (htonl gbn_packet_type_EOF)"

lemma store_u32_inject [simp]: "store_u32 x = store_u32 y \<longleftrightarrow> x = y"
  using load_store_u32 [of x "[]"] load_store_u32 [of y "[]"] by (metis append_Nil2)

lemma serialized_datagram:
  "gbn_socket_serialize p n = Inr (m, d) \<Longrightarrow> take 4 (take m d) = store_u32 (htonl (gp_type p))"
  by (auto simp: gbn_socket_serialize_def bindR_eq_Inr SERIALIZE_OVERHEAD_def split: if_splits)

lemmas packet_types = gbn_packet_type_data_def gbn_packet_type_EOF_def gbn_packet_type_ack_def gbn_packet_type_ack_EOF_def

lemma ack_datagram_kind:
  "ack_datagram type n = Inr d \<Longrightarrow> type \<noteq> gbn_packet_type_data \<Longrightarrow> type \<noteq> gbn_packet_type_EOF \<Longrightarrow> \<not> writer_datagram d"
  by (auto simp: ack_datagram_def bindR_eq_Inr writer_datagram_def dest!: serialized_datagram)

lemma handle_packet_patch:
  assumes "handle_packet p sock = Inr (go, sock')"
  shows "\<exists>ds. gs_out sock' = gs_out sock @ ds \<and> (\<forall>d \<in> set ds. \<not> writer_datagram d) \<and> gs_seq_number sock' = gs_seq_number sock \<and>
    (\<forall>q k slot out. handle_packet p (patch q k slot out sock) = Inr (go, patch q k slot (out @ ds) sock'))"
proof -
  consider (ack) "gp_type p = gbn_packet_type_ack" | (data) "gp_type p = gbn_packet_type_data"
    | (eof) "gp_type p = gbn_packet_type_EOF"
    | (other) "gp_type p \<noteq> gbn_packet_type_ack" "gp_type p \<noteq> gbn_packet_type_data" "gp_type p \<noteq> gbn_packet_type_EOF" by blast
  then show ?thesis
  proof cases
    case ack
    then obtain w where w: "handle_ack (gp_seq_number p) (gs_sending_window sock) = Inr w" "sock' = sock\<lparr>gs_sending_window := w\<rparr>" "go"
      using assms by (auto simp: handle_packet_def bindR_eq_Inr)
    then have "handle_packet p (patch q k slot out sock) = Inr (go, patch q k slot out sock')" for q k slot out
      using ack by (cases slot) (simp_all add: handle_packet_def handle_ack_forget patch_def)
    then show ?thesis using w(2) by (intro exI [of _ "[]"]) simp
  next
    case data
    then obtain w w' q' d where d: "accept_data p (gs_receive_window sock) = Inr w" "deliver_loop w (gs_receive_buffer sock) = Inr (w', q')"
      "ack_datagram gbn_packet_type_ack (gw_recv_counter w' - 1) = Inr d" "go"
      "sock' = send_datagram d (sock\<lparr>gs_receive_window := w', gs_receive_buffer := q'\<rparr>)"
      using assms by (auto simp: handle_packet_def handle_data_def bindR_eq_Inr packet_types)
    then have "handle_packet p (patch q k slot out sock) = Inr (go, patch q k slot (out @ [d]) sock')" for q k slot out
      using data by (simp add: handle_packet_def handle_data_def packet_types patch_def send_datagram_def)
    then show ?thesis using d(5) ack_datagram_kind [OF d(3)] by (intro exI [of _ "[d]"]) (simp add: send_datagram_def packet_types)
  next
    case eof
    then obtain d where d: "ack_datagram gbn_packet_type_ack_EOF 0 = Inr d" using assms by (auto simp: handle_packet_def bindR_eq_Inr packet_types)
    let ?c = "\<lparr>db_data = [], db_closing = True\<rparr>"
    have s: "\<not> go" "sock' = sock\<lparr>gs_read_closed := True, gs_out := gs_out sock @ [d], gs_sending_buffer := gs_sending_buffer sock @ [?c],
        gs_receive_buffer := gs_receive_buffer sock @ [?c]\<rparr>"
      using assms d eof by (auto simp: handle_packet_def packet_types send_datagram_def push_block_def Let_def)
    then have "handle_packet p (patch q k slot out sock) = Inr (go, patch q k slot (out @ [d]) sock')" for q k slot out
      using d eof by (simp add: handle_packet_def packet_types patch_def send_datagram_def push_block_def Let_def)
    then show ?thesis using s(2) ack_datagram_kind [OF d] by (intro exI [of _ "[d]"]) (simp add: packet_types)
  next
    case other
    then have "sock' = sock" "go = (gp_type p \<noteq> gbn_packet_type_ack_EOF)"
      using assms by (auto simp: handle_packet_def split: if_splits)
    then show ?thesis using other by (intro exI [of _ "[]"]) (auto simp: handle_packet_def)
  qed
qed

lemma write_whole_blocks_prefix:
  "write_whole_blocks k cursor (p @ q) = mapR (\<lambda>(c, q). (c, p @ q)) (write_whole_blocks k cursor q)"
proof (induction k arbitrary: cursor q)
  case (Suc k)
  then show ?case by (cases "copy_from (Some cursor) DEFAULT_PACKET_SIZE") (simp_all add: push_block_def)
qed simp

lemma gbn_socket_write_patch:
  "gbn_socket_write (patch q k slot out sock) bytes len =
     mapR (\<lambda>(n, sock'). (n, patch q k slot out sock')) (gbn_socket_write sock bytes len)"
proof -
  let ?b = "unat len div DEFAULT_PACKET_SIZE"
  show ?thesis
  proof (cases "write_whole_blocks ?b bytes (gs_sending_buffer sock)")
    case (Inr r)
    obtain cursor q' where r: "r = (cursor, q')" by (cases r)
    show ?thesis using Inr unfolding r
      by (cases "copy_from (Some cursor) (unat len - ?b * DEFAULT_PACKET_SIZE)")
        (simp_all add: gbn_socket_write_def Let_def write_whole_blocks_prefix patch_def push_block_def)
  qed (simp add: gbn_socket_write_def Let_def write_whole_blocks_prefix)
qed

fun map_outcome :: "(gbn_socket \<Rightarrow> gbn_socket) \<Rightarrow> read_outcome \<Rightarrow> read_outcome" where
  "map_outcome f (ReadBytes bs sock) = ReadBytes bs (f sock)"
| "map_outcome f (Blocked sock) = Blocked (f sock)"

lemma read_loop_patch:
  "read_loop len b acc (patch q k slot out sock) = map_outcome (patch q k slot out) (read_loop len b acc sock)"
  by (induction len b acc sock rule: read_loop.induct) (simp_all, simp_all add: patch_def)

lemma gbn_socket_read_patch:
  "gbn_socket_read (patch q k slot out sock) len = map_outcome (patch q k slot out) (gbn_socket_read sock len)"
proof -
  have upd: "patch q k slot out sock\<lparr>gs_current_block_ptr := c\<rparr> = patch q k slot out (sock\<lparr>gs_current_block_ptr := c\<rparr>)" for c
    by (simp add: patch_def)
  show ?thesis by (auto simp: gbn_socket_read_def Let_def upd read_loop_patch split: list.splits)
qed

lemma gbn_socket_close_patch:
  "gbn_socket_close (patch q k slot out sock) = patch q k slot out (gbn_socket_close sock)"
  by (simp add: gbn_socket_close_def patch_def push_block_def)

section \<open>The simulation\<close>

fun pc_state :: "writer_pc \<Rightarrow> writer_state option" where
  "pc_state (WAt st) = Some st"
| "pc_state (WTaken block packet) = Some State_send_packet"
| "pc_state (WEntered block packet slot) = Some State_is_win_full_q"
| "pc_state WWaiting = Some State_wait_on_read"
| "pc_state (WWoken timed_out) = Some State_wait_on_read"
| "pc_state WEnded = None"

fun pc_taken :: "writer_pc \<Rightarrow> data_block list" where
  "pc_taken (WTaken block packet) = [block]"
| "pc_taken _ = []"

fun pc_number :: "writer_pc \<Rightarrow> u32 \<Rightarrow> u32" where
  "pc_number (WTaken block packet) k = gp_seq_number packet"
| "pc_number _ k = k"

fun pc_slot :: "writer_pc \<Rightarrow> nat option" where
  "pc_slot (WEntered block packet slot) = Some slot"
| "pc_slot _ = None"

definition packet_bytes :: "gbn_packet \<Rightarrow> byte list" where
  "packet_bytes p = (case gbn_socket_serialize p SERIALIZE_SIZE of Inl _ \<Rightarrow> [] | Inr (n, d) \<Rightarrow> take n d)"

fun pc_unsent :: "writer_pc \<Rightarrow> byte list list" where
  "pc_unsent (WEntered block packet slot) = [packet_bytes packet]"
| "pc_unsent _ = []"

text \<open>The socket of the atomic steps, but for the order in which the two threads send.\<close>

definition atomic_socket :: "byte list list \<Rightarrow> thr_system \<Rightarrow> gbn_socket" where
  "atomic_socket out s = patch (pc_taken (th_writer s)) (pc_number (th_writer s) (gs_seq_number (th_socket s)))
     (pc_slot (th_writer s)) out (th_socket s)"

definition same_datagrams :: "byte list list \<Rightarrow> byte list list \<Rightarrow> bool" where
  "same_datagrams os os' \<longleftrightarrow> filter writer_datagram os = filter writer_datagram os' \<and>
     filter (\<lambda>d. \<not> writer_datagram d) os = filter (\<lambda>d. \<not> writer_datagram d) os'"

definition block_packet :: "data_block \<Rightarrow> gbn_packet \<Rightarrow> bool" where
  "block_packet block packet \<longleftrightarrow> \<not> db_closing block \<and> gp_type packet = gbn_packet_type_data \<and>
     gp_size packet = of_nat (length (db_data block)) \<and> gp_payload packet = Some (db_data block) \<and>
     length (db_data block) \<le> DEFAULT_PACKET_SIZE"

fun pc_good :: "writer_pc \<Rightarrow> u32 \<Rightarrow> bool" where
  "pc_good (WTaken block packet) k \<longleftrightarrow> block_packet block packet \<and> k = gp_seq_number packet + 1 \<and> gp_seq_number packet < 4294967000"
| "pc_good (WEntered block packet slot) k \<longleftrightarrow> block_packet block packet"
| "pc_good _ k \<longleftrightarrow> True"

definition pc_ok :: "thr_system \<Rightarrow> bool" where
  "pc_ok s \<longleftrightarrow> pc_good (th_writer s) (gs_seq_number (th_socket s))"

definition threads_rel :: "thr_system \<Rightarrow> gbn_system \<Rightarrow> bool" where
  "threads_rel s t \<longleftrightarrow> gbn_reachable t \<and> (th_app s = AppFreed \<or>
     sys_writer t = pc_state (th_writer s) \<and> sys_reading t = (th_reader s \<noteq> REnded) \<and>
     sys_socket t = atomic_socket (gs_out (sys_socket t)) s \<and>
     same_datagrams (gs_out (sys_socket t)) (gs_out (th_socket s) @ pc_unsent (th_writer s)) \<and> pc_ok s)"

text \<open>The runs considered, as in \<open>timely\<close>: a packet counts as sent when it is in the window.\<close>

fun thr_timely :: "thr_event \<Rightarrow> thr_system \<Rightarrow> bool" where
  "thr_timely (TArrival p) s \<longleftrightarrow> timely (Arrival p) (atomic_socket [] s)"
| "thr_timely TWriter s \<longleftrightarrow> gs_seq_number (th_socket s) < 4294967000"
| "thr_timely (TWrite bytes) s \<longleftrightarrow> int (length bytes) < 4294967296"
| "thr_timely _ s \<longleftrightarrow> True"

definition timely_thr_step :: "thr_system \<Rightarrow> thr_event \<Rightarrow> thr_system \<Rightarrow> bool" where
  "timely_thr_step s e s' \<longleftrightarrow> thr_timely e s \<and> thr_rel s e s'"

text \<open>What happens outside the two threads happens in the same order.\<close>

fun outside :: "thr_event \<Rightarrow> gbn_event list" where
  "outside (TArrival p) = [Arrival p]"
| "outside (TWrite bytes) = [Write bytes]"
| "outside (TRead len) = [Read len]"
| "outside TClose = [Close]"
| "outside _ = []"

definition atomic_step :: "gbn_system \<Rightarrow> thr_event \<Rightarrow> gbn_system \<Rightarrow> bool" where
  "atomic_step t e t' \<longleftrightarrow> (outside e = [] \<and> t' = t) \<or>
     (\<exists>e'. (outside e = [e'] \<or> outside e = [] \<and> e' \<in> range WriterStep) \<and> timely e' (sys_socket t) \<and> gbn_step e' t = Inr t')"

lemma writer_event [simp]: "WriterStep b \<in> range WriterStep"
  by (rule rangeI)

lemma timely_cong:
  "gs_sending_window sock = gs_sending_window sock' \<Longrightarrow> gs_seq_number sock = gs_seq_number sock' \<Longrightarrow> timely e sock = timely e sock'"
  by (cases e) simp_all

lemma freed_rel:
  "th_app s = AppFreed \<Longrightarrow> gbn_reachable t \<Longrightarrow> threads_rel s t"
  by (simp add: threads_rel_def)

lemma relI:
  assumes "gbn_reachable t" "timely e (sys_socket t)" "gbn_step e t = Inr t'"
    "sys_writer t' = pc_state (th_writer s')" "sys_reading t' = (th_reader s' \<noteq> REnded)"
    "sys_socket t' = atomic_socket (gs_out (sys_socket t')) s'"
    "same_datagrams (gs_out (sys_socket t')) (gs_out (th_socket s') @ pc_unsent (th_writer s'))" "pc_ok s'"
  shows "threads_rel s' t'"
  using assms gbn_reachable.step by (auto simp: threads_rel_def)

lemma same_datagrams_append:
  "same_datagrams os os' \<Longrightarrow> same_datagrams (os @ ds) (os' @ ds)"
  by (simp add: same_datagrams_def)

lemma same_datagrams_between:
  "same_datagrams os (os' @ us) \<Longrightarrow> \<forall>d \<in> set ds. \<not> writer_datagram d \<Longrightarrow> \<forall>d \<in> set us. writer_datagram d \<Longrightarrow>
     same_datagrams (os @ ds) (os' @ ds @ us)"
  by (auto simp: same_datagrams_def filter_empty_conv)

subsection \<open>Steps of the writer thread\<close>

lemma retransmit_loop_out:
  "retransmit_loop fuel i sock = Inr r \<Longrightarrow> \<exists>ds. r \<in> {None, Some (sock\<lparr>gs_out := gs_out sock @ ds\<rparr>)} \<and>
     (\<forall>out. retransmit_loop fuel i (sock\<lparr>gs_out := out\<rparr>) = Inr (map_option (\<lambda>sock. sock\<lparr>gs_out := out @ ds\<rparr>) r))"
proof (induction fuel i sock arbitrary: r rule: retransmit_loop.induct)
  case (2 fuel i sock)
  then obtain packet n d where p: "arr_get (gw_packet_buffer (gs_sending_window sock)) (int i) = Inr packet"
    "gbn_socket_serialize packet SERIALIZE_SIZE = Inr (n, d)" by (auto simp: bindR_eq_Inr)
  let ?d = "take n d" and ?i = "(i + 1) mod DEFAULT_QUEUE_SIZE"
  show ?case
  proof (cases "?i = unat (gw_tail (gs_sending_window sock))")
    case True
    then show ?thesis using 2(2) p by (intro exI [of _ "[?d]"]) (auto simp: send_datagram_def)
  next
    case False
    then have rec: "retransmit_loop fuel ?i (send_datagram ?d sock) = Inr r" using 2(2) p by (simp add: send_datagram_def)
    from 2(1) [OF p refl refl refl _ rec] False obtain ds where ds: "r \<in> {None, Some (send_datagram ?d sock\<lparr>gs_out := gs_out (send_datagram ?d sock) @ ds\<rparr>)}"
      "\<And>out. retransmit_loop fuel ?i (send_datagram ?d sock\<lparr>gs_out := out\<rparr>) = Inr (map_option (\<lambda>sock. sock\<lparr>gs_out := out @ ds\<rparr>) r)"
      by (auto simp: send_datagram_def)
    have "retransmit_loop (Suc fuel) i (sock\<lparr>gs_out := out\<rparr>) = Inr (map_option (\<lambda>sock. sock\<lparr>gs_out := out @ ?d # ds\<rparr>) r)" for out
      using ds(2) [of "out @ [?d]"] False p by (simp add: send_datagram_def)
    then show ?thesis using ds(1) by (intro exI [of _ "?d # ds"]) (simp add: send_datagram_def)
  qed
qed simp

lemma writer_step_out:
  assumes "writer_step t st sock = Inr (st', sock')" "st \<noteq> State_send_packet"
  shows "\<exists>ds. sock' = sock\<lparr>gs_out := gs_out sock @ ds\<rparr> \<and>
    (\<forall>out. writer_step t st (sock\<lparr>gs_out := out\<rparr>) = Inr (st', sock\<lparr>gs_out := out @ ds\<rparr>))"
proof (cases st)
  case State_close_connection
  then show ?thesis using assms by (auto simp: writer_step_def close_connection_def bindR_eq_Inr send_datagram_def)
next
  case State_retransmit
  show ?thesis
  proof (cases "gw_size (gs_sending_window sock) = 0")
    case True
    then show ?thesis using assms State_retransmit by (intro exI [of _ "[]"]) (simp add: writer_step_def retransmit_def)
  next
    case False
    then obtain r where r: "retransmit_loop DEFAULT_QUEUE_SIZE (unat (gw_head (gs_sending_window sock))) sock = Inr r"
      "(st', sock') = (case r of None \<Rightarrow> (Some State_retransmit, sock) | Some sock \<Rightarrow> (Some State_wait_on_read, sock))"
      using assms State_retransmit by (auto simp: writer_step_def retransmit_def bindR_eq_Inr split: option.splits)
    from retransmit_loop_out [OF r(1)] obtain ds where ds: "r \<in> {None, Some (sock\<lparr>gs_out := gs_out sock @ ds\<rparr>)}"
      "\<And>out. retransmit_loop DEFAULT_QUEUE_SIZE (unat (gw_head (gs_sending_window sock))) (sock\<lparr>gs_out := out\<rparr>) =
         Inr (map_option (\<lambda>sock. sock\<lparr>gs_out := out @ ds\<rparr>) r)" by blast
    then show ?thesis using r(2) State_retransmit False
      by (intro exI [of _ "if r = None then [] else ds"]) (auto simp: writer_step_def retransmit_def)
  qed
qed (use assms in \<open>auto simp: writer_step_def window_empty_q_def block_on_queue_def is_win_full_q_def wait_on_read_def intro!: exI [of _ "[]"]\<close>)

lemma block_packet_sent:
  assumes "block_packet block packet"
  shows "gbn_socket_serialize packet SERIALIZE_SIZE = Inr (length (packet_bytes packet), packet_bytes packet)" "writer_datagram (packet_bytes packet)"
proof -
  have sz: "unat (of_nat (length (db_data block)) :: u32) = length (db_data block)"
    using assms by (simp add: block_packet_def unat_of_nat DEFAULT_PACKET_SIZE_def take_bit_nat_eq_self)
  then obtain d where d: "gbn_socket_serialize packet SERIALIZE_SIZE = Inr (length d, d)"
    using assms packet_wire [of packet "db_data block" "[]"] by (auto simp: block_packet_def)
  then have b: "packet_bytes packet = d" by (simp add: packet_bytes_def)
  show "gbn_socket_serialize packet SERIALIZE_SIZE = Inr (length (packet_bytes packet), packet_bytes packet)" using d b by simp
  show "writer_datagram (packet_bytes packet)" using serialized_datagram [OF d] assms b by (simp add: writer_datagram_def block_packet_def)
qed

lemma unsent_kind: "pc_ok s \<Longrightarrow> \<forall>d \<in> set (pc_unsent (th_writer s)). writer_datagram d"
  by (cases "th_writer s") (auto simp: pc_ok_def intro: block_packet_sent(2))

subsection \<open>Steps\<close>

lemma simI:
  assumes "outside e = [e'] \<or> outside e = [] \<and> e' \<in> range WriterStep"
    "gbn_reachable t" "timely e' (sys_socket t)" "gbn_step e' t = Inr t'"
    "sys_writer t' = pc_state (th_writer s')" "sys_reading t' = (th_reader s' \<noteq> REnded)"
    "sys_socket t' = atomic_socket (gs_out (sys_socket t')) s'"
    "same_datagrams (gs_out (sys_socket t')) (gs_out (th_socket s') @ pc_unsent (th_writer s'))" "pc_ok s'"
  shows "\<exists>t'. atomic_step t e t' \<and> threads_rel s' t'"
  using assms gbn_reachable.step [OF assms(2-4)] unfolding atomic_step_def threads_rel_def by blast

lemma simI_stutter: "outside e = [] \<Longrightarrow> threads_rel s' t \<Longrightarrow> \<exists>t'. atomic_step t e t' \<and> threads_rel s' t'"
  unfolding atomic_step_def by blast

lemma sim_arrival:
  assumes "thr_rel s (TArrival p) s'" "thr_timely (TArrival p) s" "threads_rel s t" "th_app s \<noteq> AppFreed"
  shows "\<exists>t'. atomic_step t (TArrival p) t' \<and> threads_rel s' t'"
proof -
  from assms(3,4) have t: "gbn_reachable t" "sys_writer t = pc_state (th_writer s)" "sys_reading t = (th_reader s \<noteq> REnded)"
    "sys_socket t = atomic_socket (gs_out (sys_socket t)) s"
    "same_datagrams (gs_out (sys_socket t)) (gs_out (th_socket s) @ pc_unsent (th_writer s))" "pc_ok s" by (auto simp: threads_rel_def)
  from assms(1) obtain go sock' where h: "th_reader s = RReceiving" "handle_packet p (th_socket s) = Inr (go, sock')"
    "s' = s\<lparr>th_reader := (if pokes p (gs_sending_window (th_socket s)) then RSignalling else if go then RReceiving else REnded), th_socket := sock'\<rparr>"
    by (auto simp: thr_rel_def thr_step_def reader_receives_def bindR_eq_Inr split: if_splits)
  have go: "go" if "pokes p (gs_sending_window (th_socket s))"
    using that h(2) by (auto simp: pokes_def handle_packet_def bindR_eq_Inr)
  obtain ds where ds: "gs_out sock' = gs_out (th_socket s) @ ds" "\<forall>d \<in> set ds. \<not> writer_datagram d" "gs_seq_number sock' = gs_seq_number (th_socket s)"
    "\<And>q k slot out. handle_packet p (patch q k slot out (th_socket s)) = Inr (go, patch q k slot (out @ ds) sock')"
    using handle_packet_patch [OF h(2)] by blast
  let ?t = "t\<lparr>sys_reading := go, sys_socket := atomic_socket (gs_out (sys_socket t) @ ds) s'\<rparr>"
  show ?thesis
  proof (rule simI [where e' = "Arrival p" and t' = ?t])
    show "timely (Arrival p) (sys_socket t)"
      using assms(2) by (subst t(4)) (simp add: atomic_socket_def)
    have "handle_packet p (sys_socket t) = Inr (go, atomic_socket (gs_out (sys_socket t) @ ds) s')"
      by (subst t(4)) (simp add: atomic_socket_def ds(3,4) h(3))
    then show "gbn_step (Arrival p) t = Inr ?t" using t(3) h(1) by (simp add: gbn_step_def)
    show "same_datagrams (gs_out (sys_socket ?t)) (gs_out (th_socket s') @ pc_unsent (th_writer s'))"
      using same_datagrams_between [OF t(5) ds(2) unsent_kind [OF t(6)]] by (simp add: h(3) ds(1) atomic_socket_def)
    show "pc_ok s'" using t(6) by (simp add: h(3) pc_ok_def ds(3))
  qed (use t h go in \<open>auto simp: atomic_socket_def\<close>)
qed

text \<open>The calls of the application.\<close>

lemma sim_application:
  assumes "outside e = [e']" "threads_rel s t" "th_app s \<noteq> AppFreed" "timely e' (sys_socket t)"
    "s' = s\<lparr>th_socket := sock', th_app := app\<rparr>" "gs_seq_number sock' = gs_seq_number (th_socket s)" "gs_out sock' = gs_out (th_socket s)"
    "\<And>q k slot out. sys_socket t = patch q k slot out (th_socket s) \<Longrightarrow> gbn_step e' t = Inr (t\<lparr>sys_socket := patch q k slot out sock'\<rparr>)"
  shows "\<exists>t'. atomic_step t e t' \<and> threads_rel s' t'"
proof -
  from assms(2,3) have t: "gbn_reachable t" "sys_writer t = pc_state (th_writer s)" "sys_reading t = (th_reader s \<noteq> REnded)"
    "sys_socket t = atomic_socket (gs_out (sys_socket t)) s"
    "same_datagrams (gs_out (sys_socket t)) (gs_out (th_socket s) @ pc_unsent (th_writer s))" "pc_ok s" by (auto simp: threads_rel_def)
  have s: "gbn_step e' t = Inr (t\<lparr>sys_socket := atomic_socket (gs_out (sys_socket t)) s'\<rparr>)"
    using assms(8) [OF t(4) [unfolded atomic_socket_def]] by (simp add: atomic_socket_def assms(5,6))
  show ?thesis
  proof (rule simI [OF _ t(1) assms(4) s])
    show "pc_ok s'" using t(6) by (simp add: assms(5,6) pc_ok_def)
  qed (use t assms in \<open>simp_all add: atomic_socket_def\<close>)
qed

lemma patch_nothing: "patch [] (gs_seq_number sock) None out sock = sock\<lparr>gs_out := out\<rparr>"
  by (simp add: patch_def)

lemma sim_run_state:
  assumes "run_state b st s = Inr s'" "threads_rel s t" "th_app s \<noteq> AppFreed" "gs_seq_number (th_socket s) < 4294967000"
    "th_writer s = WAt st \<or> th_writer s = WWoken b \<and> st = State_wait_on_read" "st \<noteq> State_send_packet" "outside e = []"
  shows "\<exists>t'. atomic_step t e t' \<and> threads_rel s' t'"
proof -
  have pc: "pc_taken (th_writer s) = []" "pc_number (th_writer s) k = k" "pc_slot (th_writer s) = None" "pc_unsent (th_writer s) = []"
    "pc_state (th_writer s) = Some st" for k using assms(5) by auto
  from assms(2,3) have t: "gbn_reachable t" "sys_writer t = Some st" "sys_reading t = (th_reader s \<noteq> REnded)"
    "sys_socket t = (th_socket s)\<lparr>gs_out := gs_out (sys_socket t)\<rparr>"
    "same_datagrams (gs_out (sys_socket t)) (gs_out (th_socket s))" by (auto simp: threads_rel_def pc atomic_socket_def patch_nothing)
  from assms(1) obtain st' sock' where w: "writer_step b st (th_socket s) = Inr (st', sock')"
    "s' = s\<lparr>th_writer := (case st' of None \<Rightarrow> WEnded | Some st \<Rightarrow> WAt st), th_socket := sock'\<rparr>"
    by (auto simp: run_state_def bindR_eq_Inr)
  from writer_step_out [OF w(1) assms(6)] obtain ds where ds: "sock' = (th_socket s)\<lparr>gs_out := gs_out (th_socket s) @ ds\<rparr>"
    "\<And>out. writer_step b st ((th_socket s)\<lparr>gs_out := out\<rparr>) = Inr (st', (th_socket s)\<lparr>gs_out := out @ ds\<rparr>)" by blast
  have pc': "pc_taken (th_writer s') = []" "pc_number (th_writer s') k = k" "pc_slot (th_writer s') = None" "pc_unsent (th_writer s') = []"
    "pc_state (th_writer s') = st'" "pc_ok s'" for k using w(2) by (auto simp: pc_ok_def split: option.splits)
  let ?t = "t\<lparr>sys_writer := st', sys_socket := (th_socket s)\<lparr>gs_out := gs_out (sys_socket t) @ ds\<rparr>\<rparr>"
  show ?thesis
  proof (rule simI [where e' = "WriterStep b" and t' = ?t])
    show "timely (WriterStep b) (sys_socket t)" by (subst t(4)) (simp add: assms(4))
    have "writer_step b st (sys_socket t) = Inr (st', (th_socket s)\<lparr>gs_out := gs_out (sys_socket t) @ ds\<rparr>)"
      by (subst t(4)) (rule ds(2))
    then show "gbn_step (WriterStep b) t = Inr ?t" by (simp add: gbn_step_def t(2))
    show "same_datagrams (gs_out (sys_socket ?t)) (gs_out (th_socket s') @ pc_unsent (th_writer s'))"
      using same_datagrams_append [OF t(5)] by (simp add: pc') (simp add: w(2) ds(1))
    show "sys_socket ?t = atomic_socket (gs_out (sys_socket ?t)) s'"
      by (simp add: atomic_socket_def pc' patch_nothing) (simp add: w(2) ds(1))
  qed (use t(1,3) assms(7) pc' w(2) in auto)
qed

lemma sim_take_packet:
  assumes "take_packet s = Some s'" "th_writer s = WAt State_send_packet" "threads_rel s t" "th_app s \<noteq> AppFreed"
    "gs_seq_number (th_socket s) < 4294967000"
  shows "\<exists>t'. atomic_step t TWriter t' \<and> threads_rel s' t'"
proof -
  from assms(2-4) have t: "gbn_reachable t" "sys_writer t = Some State_send_packet" "sys_reading t = (th_reader s \<noteq> REnded)"
    "sys_socket t = (th_socket s)\<lparr>gs_out := gs_out (sys_socket t)\<rparr>"
    "same_datagrams (gs_out (sys_socket t)) (gs_out (th_socket s))" by (auto simp: threads_rel_def atomic_socket_def patch_nothing)
  from assms(1) obtain block q where q: "gs_sending_buffer (th_socket s) = block # q"
    by (cases "gs_sending_buffer (th_socket s)") (auto simp: take_packet_def)
  show ?thesis
  proof (cases "db_closing block")
    case True
    then have s': "s' = s\<lparr>th_writer := WAt State_close_connection, th_socket := (th_socket s)\<lparr>gs_sending_buffer := q\<rparr>\<rparr>"
      using assms(1) q by (simp add: take_packet_def)
    let ?t = "t\<lparr>sys_writer := Some State_close_connection, sys_socket := (th_socket s)\<lparr>gs_sending_buffer := q, gs_out := gs_out (sys_socket t)\<rparr>\<rparr>"
    show ?thesis
    proof (rule simI [where e' = "WriterStep False" and t' = ?t])
      show "timely (WriterStep False) (sys_socket t)" by (subst t(4)) (simp add: assms(5))
      have "send_packet (sys_socket t) = Inr (Some State_close_connection, (th_socket s)\<lparr>gs_sending_buffer := q, gs_out := gs_out (sys_socket t)\<rparr>)"
        by (subst t(4)) (simp add: send_packet_def q True)
      then show "gbn_step (WriterStep False) t = Inr ?t" by (simp add: gbn_step_def t(2) writer_step_def)
    qed (use t in \<open>simp_all add: s' atomic_socket_def patch_def pc_ok_def\<close>)
  next
    case False
    have "gs_sending_buffer (sys_socket t) = block # q" by (subst t(4)) (simp add: q)
    then have "queue_ok (block # q)" using reachable_sender_ok [OF t(1)] by (simp add: sender_ok_def)
    then have "length (db_data block) \<le> DEFAULT_PACKET_SIZE" using False by simp
    then have "threads_rel s' t" using assms(1,3,5) False t
      by (auto simp: take_packet_def q Let_def threads_rel_def atomic_socket_def patch_def pc_ok_def block_packet_def assms(2))
    then show ?thesis by (rule simI_stutter [rotated]) simp
  qed
qed

lemma send_packet_patch:
  fixes sock :: gbn_socket and packet :: gbn_packet
  defines "w \<equiv> gs_sending_window sock"
  defines "i \<equiv> unat (gw_tail w)"
  assumes "block_packet block packet" "i < length (gw_packet_buffer w)"
  shows "send_packet (patch [block] (gp_seq_number packet) None out sock) =
    Inr (Some State_is_win_full_q, patch [] (gp_seq_number packet + 1) (Some i) (out @ [packet_bytes packet])
      (sock\<lparr>gs_sending_window := w\<lparr>gw_packet_buffer := (gw_packet_buffer w)[i := packet],
         gw_tail := of_nat ((i + 1) mod DEFAULT_QUEUE_SIZE), gw_size := gw_size w + 1\<rparr>\<rparr>))"
proof -
  have "\<lparr>gp_type = gbn_packet_type_data, gp_seq_number = gp_seq_number packet,
      gp_size = of_nat (length (db_data block)), gp_payload = Some (db_data block)\<rparr> = packet"
    "\<lparr>gp_type = gbn_packet_type_data, gp_seq_number = gp_seq_number packet,
      gp_size = of_nat (length (db_data block)), gp_payload = None\<rparr> = packet\<lparr>gp_payload := None\<rparr>"
    using assms(3) by (cases packet, simp add: block_packet_def)+
  moreover have "\<not> db_closing block" using assms(3) by (simp add: block_packet_def)
  ultimately show ?thesis using assms(4) block_packet_sent(1) [OF assms(3)] unfolding w_def i_def
    by (simp add: send_packet_def Let_def patch_def forget_payload_def send_datagram_def)
qed

lemma sim_enter_packet:
  assumes "enter_packet block packet s = Inr s'" "th_writer s = WTaken block packet" "threads_rel s t" "th_app s \<noteq> AppFreed"
  shows "\<exists>t'. atomic_step t TWriter t' \<and> threads_rel s' t'"
proof -
  let ?w = "gs_sending_window (th_socket s)" let ?i = "unat (gw_tail ?w)"
  from assms(2-4) obtain out where t: "gbn_reachable t" "sys_writer t = Some State_send_packet" "sys_reading t = (th_reader s \<noteq> REnded)"
    "sys_socket t = patch [block] (gp_seq_number packet) None out (th_socket s)"
    "same_datagrams out (gs_out (th_socket s))" and p: "block_packet block packet"
    "gs_seq_number (th_socket s) = gp_seq_number packet + 1" "gp_seq_number packet < 4294967000" by (auto simp: threads_rel_def atomic_socket_def pc_ok_def)
  let ?sock = "(th_socket s)\<lparr>gs_sending_window := ?w\<lparr>gw_packet_buffer := (gw_packet_buffer ?w)[?i := packet],
         gw_tail := of_nat ((?i + 1) mod DEFAULT_QUEUE_SIZE), gw_size := gw_size ?w + 1\<rparr>\<rparr>"
  from assms(1) have i: "?i < length (gw_packet_buffer ?w)" and s': "s' = s\<lparr>th_writer := WEntered block packet ?i, th_socket := ?sock\<rparr>"
    by (auto simp: enter_packet_def Let_def bindR_eq_Inr arr_set_eq_Inr)
  let ?out = "out @ [packet_bytes packet]"
  let ?t = "t\<lparr>sys_writer := Some State_is_win_full_q, sys_socket := patch [] (gp_seq_number packet + 1) (Some ?i) ?out ?sock\<rparr>"
  show ?thesis
  proof (rule simI [where e' = "WriterStep False" and t' = ?t])
    show "timely (WriterStep False) (sys_socket t)" by (simp add: t(4) p(3))
    show "gbn_step (WriterStep False) t = Inr ?t"
      by (simp add: gbn_step_def t(2,4) writer_step_def send_packet_patch [OF p(1) i])
  qed (use t p same_datagrams_append [OF t(5)] in \<open>simp_all add: s' atomic_socket_def pc_ok_def\<close>)
qed

lemma sim_transmit_packet:
  assumes "transmit_packet packet slot s = Inr s'" "th_writer s = WEntered block packet slot" "threads_rel s t" "th_app s \<noteq> AppFreed"
  shows "\<exists>t'. atomic_step t TWriter t' \<and> threads_rel s' t'"
proof -
  have p: "block_packet block packet" using assms(2-4) by (simp add: threads_rel_def pc_ok_def)
  then have "threads_rel s' t" using assms block_packet_sent(1) [OF p]
    by (auto simp: threads_rel_def transmit_packet_def send_datagram_def atomic_socket_def patch_def pc_ok_def)
  then show ?thesis by (rule simI_stutter [rotated]) simp
qed

lemma sim_writer:
  assumes "thr_rel s TWriter s'" "thr_timely TWriter s" "threads_rel s t" "th_app s \<noteq> AppFreed"
  shows "\<exists>t'. atomic_step t TWriter t' \<and> threads_rel s' t'"
proof -
  have w: "writer_thread s = Some (Inr s')" using assms(1,4) by (simp add: thr_rel_def thr_step_def)
  have seq: "gs_seq_number (th_socket s) < 4294967000" using assms(2) by simp
  show ?thesis
  proof (cases "th_writer s")
    case (WAt st)
    consider (send) "st = State_send_packet" | (wait) "st = State_wait_on_read"
      | (other) "st \<noteq> State_send_packet" "run_state False st s = Inr s'"
      using w WAt by (cases st) (auto simp: writer_thread_def split: if_splits)
    then show ?thesis
    proof cases
      case send
      then show ?thesis using w WAt sim_take_packet [OF _ _ assms(3,4) seq] by (auto simp: writer_thread_def)
    next
      case wait
      then have "threads_rel s' t" using w WAt assms(3,4) by (auto simp: writer_thread_def threads_rel_def atomic_socket_def pc_ok_def)
      then show ?thesis by (rule simI_stutter [rotated]) simp
    next
      case other
      show ?thesis by (rule sim_run_state [OF other(2) assms(3,4) seq _ other(1)]) (simp_all add: WAt)
    qed
  next
    case (WTaken block packet)
    then show ?thesis using w sim_enter_packet [OF _ WTaken assms(3,4)] by (simp add: writer_thread_def)
  next
    case (WEntered block packet slot)
    then show ?thesis using w sim_transmit_packet [OF _ WEntered assms(3,4)] by (simp add: writer_thread_def)
  next
    case (WWoken b)
    let ?s = "s\<lparr>th_locked := True\<rparr>"
    have "run_state b State_wait_on_read ?s = Inr s'" using w WWoken by (auto simp: writer_thread_def split: if_splits)
    moreover have "threads_rel ?s t" using assms(3) by (simp add: threads_rel_def atomic_socket_def pc_ok_def)
    ultimately show ?thesis using sim_run_state [of b State_wait_on_read ?s s' t TWriter] WWoken assms(4) seq by simp
  qed (use w in \<open>simp_all add: writer_thread_def\<close>)
qed

lemma gbn_socket_write_sender:
  assumes "gbn_socket_write sock bytes len = Inr (n, sock')"
  shows "gs_seq_number sock' = gs_seq_number sock \<and> gs_out sock' = gs_out sock"
  using assms by (auto simp: gbn_socket_write_def Let_def bindR_eq_Inr split: if_splits)

lemma gbn_socket_close_sender:
  "gs_seq_number (gbn_socket_close sock) = gs_seq_number sock" "gs_out (gbn_socket_close sock) = gs_out sock"
  by (simp_all add: gbn_socket_close_def)

lemma threads_sim:
  assumes "timely_thr_step s e s'" "threads_rel s t"
  shows "\<exists>t'. atomic_step t e t' \<and> threads_rel s' t'"
proof -
  have st: "thr_rel s e s'" "thr_timely e s" using assms(1) by (simp_all add: timely_thr_step_def)
  show ?thesis
  proof (cases "th_app s = AppFreed")
    case True
    then have "th_app s' = AppFreed" "outside e = []"
      using st(1) by (cases e; auto simp: thr_rel_def thr_step_def orphan_writer_def orphan_reader_def close_ends_def
        split: writer_pc.splits writer_state.splits reader_pc.splits if_splits)+
    then show ?thesis using freed_rel [of s' t] assms(2) by (intro simI_stutter) (simp_all add: threads_rel_def)
  next
    case False
    note rel = assms(2) False
    show ?thesis
    proof (cases e)
      case TWriter
      then show ?thesis using sim_writer st rel by simp
    next
      case (TArrival p)
      then show ?thesis using sim_arrival st rel by simp
    next
      case (TWake b)
      then have "threads_rel s' t" using st(1) rel
        by (auto simp: thr_rel_def thr_step_def threads_rel_def atomic_socket_def pc_ok_def split: if_splits)
      then show ?thesis using TWake by (intro simI_stutter) simp_all
    next
      case TReader
      then have "threads_rel s' t" using st(1) rel
        by (auto simp: thr_rel_def thr_step_def reader_signals_def threads_rel_def atomic_socket_def pc_ok_def split: if_splits)
      then show ?thesis using TReader by (intro simI_stutter) simp_all
    next
      case (TWrite bytes)
      then obtain n sock' where w: "gbn_socket_write (th_socket s) bytes (of_nat (length bytes)) = Inr (n, sock')"
        "s' = s\<lparr>th_socket := sock', th_app := th_app s\<rparr>"
        using st(1) by (auto simp: thr_rel_def thr_step_def bindR_eq_Inr split: if_splits)
      show ?thesis by (rule sim_application [where e' = "Write bytes", OF _ rel _ w(2)])
        (use TWrite st(2) w(1) gbn_socket_write_sender [OF w(1)] in \<open>simp_all add: gbn_step_def gbn_socket_write_patch\<close>)
    next
      case (TRead len)
      then obtain bs sock' where w: "gbn_socket_read (th_socket s) len = ReadBytes bs sock'" "s' = s\<lparr>th_socket := sock', th_app := th_app s\<rparr>"
        using st(1) by (auto simp: thr_rel_def thr_step_def split: if_splits read_outcome.splits)
      show ?thesis by (rule sim_application [where e' = "Read len", OF _ rel _ w(2)])
        (use TRead w(1) gbn_socket_read_sender [OF w(1)] in \<open>simp_all add: gbn_step_def gbn_socket_read_patch\<close>)
    next
      case TClose
      then have "s' = s\<lparr>th_socket := gbn_socket_close (th_socket s), th_app := AppJoining (\<not> gs_closed (th_socket s))\<rparr>"
        using st(1) by (auto simp: thr_rel_def thr_step_def close_begins_def split: if_splits)
      then show ?thesis by (rule sim_application [where e' = Close, OF _ rel, rotated 2])
        (use TClose in \<open>simp_all add: gbn_step_def gbn_socket_close_patch gbn_socket_close_sender\<close>)
    next
      case TFinish
      then have "th_app s' = AppFreed" using st(1)
        by (auto simp: thr_rel_def thr_step_def close_ends_def split: app_pc.splits bool.splits if_splits)
      then show ?thesis using TFinish freed_rel [of s' t] rel(1) by (intro simI_stutter) (simp_all add: threads_rel_def)
    qed
  qed
qed

interpretation socket_threads: forward_simulation timely_thr_step atomic_step threads_rel "\<lambda>_. True"
  by unfold_locales (rule threads_sim)

text \<open>The run of atomic steps as a list of events.\<close>

definition from_outside :: "gbn_event \<Rightarrow> bool" where
  "from_outside e \<longleftrightarrow> e \<notin> range WriterStep"

lemma outside_from: "filter from_outside (outside e) = outside e"
  by (cases e) (auto simp: from_outside_def)

lemma timely_run_snoc:
  "timely_run es s = Some t \<Longrightarrow> timely e (sys_socket t) \<Longrightarrow> gbn_step e t = Inr t' \<Longrightarrow> timely_run (es @ [e]) s = Some t'"
  by (induction es arbitrary: s) (auto split: if_splits sum.splits)

lemma atomic_steps_run:
  "runs atomic_step gbn_start es t \<Longrightarrow> \<exists>es'. timely_run es' gbn_start = Some t \<and> filter from_outside es' = concat (map outside es)"
proof (induction rule: runs.induct)
  case run_start
  then show ?case by (intro exI [of _ "[]"]) simp
next
  case (run_step es t e t')
  then obtain es' where es': "timely_run es' gbn_start = Some t" "filter from_outside es' = concat (map outside es)" by blast
  consider (same) "outside e = []" "t' = t" | (step) e' where "outside e = [e'] \<or> outside e = [] \<and> e' \<in> range WriterStep"
    "timely e' (sys_socket t)" "gbn_step e' t = Inr t'" using run_step.hyps(2) unfolding atomic_step_def by blast
  then show ?case
  proof cases
    case same
    then show ?thesis using es' by auto
  next
    case step
    have "timely_run (es' @ [e']) gbn_start = Some t'" by (rule timely_run_snoc [OF es'(1) step(2,3)])
    moreover have "filter from_outside [e'] = outside e" using step(1) outside_from [of e] by (auto simp: from_outside_def)
    ultimately show ?thesis using es'(2) by (intro exI [of _ "es' @ [e']"]) auto
  qed
qed

lemma threads_rel_start: "threads_rel thr_start gbn_start"
  by (simp add: threads_rel_def gbn_reachable.start) (simp add: thr_start_def gbn_start_def atomic_socket_def patch_def pc_ok_def same_datagrams_def)

lemma thr_atomic_run:
  assumes "runs timely_thr_step thr_start es s"
  obtains es' t where "timely_run es' gbn_start = Some t" "filter from_outside es' = concat (map outside es)" "threads_rel s t"
proof -
  from socket_threads.sim_runs [OF assms threads_rel_start] obtain t where "runs atomic_step gbn_start es t" "threads_rel s t"
    by (auto simp: list_all_iff)
  then show ?thesis using atomic_steps_run that by blast
qed

end
