(* ===== verification/GbnThreadsProps.thy ===== *)
theory GbnThreadsProps
  imports GbnThreadsSim GbnStream
begin

text \<open>
  What follows for the threads of a go-back-N socket: the invariant of the sending window and the
  stream of bytes under every interleaving.
\<close>

section \<open>Runs\<close>

fun timely_thr_run :: "thr_event list \<Rightarrow> thr_system \<Rightarrow> thr_system option" where
  "timely_thr_run [] s = Some s"
| "timely_thr_run (e # es) s =
     (if thr_timely e s then case thr_step e s of Some (Inr s') \<Rightarrow> timely_thr_run es s' | _ \<Rightarrow> None else None)"

lemma timely_thr_run_runs:
  "runs timely_thr_step s0 es s \<Longrightarrow> timely_thr_run es' s = Some s' \<Longrightarrow> runs timely_thr_step s0 (es @ es') s'"
proof (induction es' arbitrary: es s)
  case (Cons e es')
  then obtain s1 where "thr_timely e s" "thr_step e s = Some (Inr s1)" "timely_thr_run es' s1 = Some s'"
    by (auto split: if_splits option.splits sum.splits)
  then show ?case using Cons.IH [of "es @ [e]" s1] runs.run_step [OF Cons.prems(1), of e s1]
    by (simp add: timely_thr_step_def thr_rel_def)
qed simp

lemma timely_thr_run_start: "timely_thr_run es thr_start = Some s \<Longrightarrow> runs timely_thr_step thr_start es s"
  using timely_thr_run_runs [OF runs.run_start] by fastforce

text \<open>Two packets are written; while the second one is sent, the first one is acknowledged.\<close>

definition overlapping_run :: "thr_event list" where
  "overlapping_run = [TWrite [7], TWrite [8], TWriter, TWriter, TWriter, TWriter, TWriter, TWriter, TWriter, TArrival (ack_packet 0), TWriter]"

lemmas thr_run_defs = thr_step_def writer_thread_def take_packet_def enter_packet_def transmit_packet_def run_state_def
  reader_receives_def reader_signals_def pokes_def close_begins_def close_ends_def orphan_reader_def orphan_writer_def
  atomic_socket_def patch_def forget_payload_def thr_start_def gbn_socket_close_def gbn_socket_read_def
  ack_packet_def handle_packet_def handle_ack_def GET_SEND_FRAME_id_delta_def run_defs

lemma overlapping_run_result:
  "\<exists>s. timely_thr_run overlapping_run thr_start = Some s \<and> th_writer s = WEntered \<lparr>db_data = [8], db_closing = False\<rparr>
      \<lparr>gp_type = 2, gp_seq_number = 1, gp_size = 1, gp_payload = Some [8]\<rparr> 1 \<and>
     th_reader s = RSignalling \<and> th_app s = AppRunning \<and> gs_seq_number (th_socket s) = 2 \<and> length (gs_out (th_socket s)) = 1"
  unfolding overlapping_run_def by (simp add: thr_run_defs packet_types)

section \<open>The atomic steps\<close>



section \<open>The sending window\<close>

lemma ring_list_map: "map f xs = map f ys \<Longrightarrow> xs \<noteq> [] \<Longrightarrow> map f (ring_list xs i n) = map f (ring_list ys i n)"
proof -
  assume m: "map f xs = map f ys" and "xs \<noteq> []"
  then have l: "length ys = length xs" by (metis length_map)
  have "f (xs ! (k mod length xs)) = f (ys ! (k mod length xs))" for k
    using m l \<open>xs \<noteq> []\<close> by (metis length_greater_0_conv mod_less_divisor nth_map)
  then show ?thesis by (simp add: ring_list_def l)
qed

lemma freed_slot_numbers:
  "map gp_seq_number (gw_packet_buffer (freed_slot slot w)) = map gp_seq_number (gw_packet_buffer w)"
proof (cases slot)
  case (Some i)
  then show ?thesis by (intro nth_equalityI) (simp_all add: forget_payload_number)
qed simp

lemma freed_slot_simps [simp]:
  "gw_head (freed_slot slot w) = gw_head w" "gw_tail (freed_slot slot w) = gw_tail w" "gw_size (freed_slot slot w) = gw_size w"
  "length (gw_packet_buffer (freed_slot slot w)) = length (gw_packet_buffer w)"
  by (cases slot; simp)+

text \<open>
  C14. Under every interleaving of the two threads and the application, acknowledgements being timely, the
  sending window is sound at every moment: at most six packets are outstanding, they are the last ones
  that were entered in the order of their numbers, and the tail is behind them.
\<close>

theorem socket_threads_window:
  assumes "runs timely_thr_step thr_start es s" "th_app s \<noteq> AppFreed"
  defines "w \<equiv> gs_sending_window (th_socket s)" and "c \<equiv> unat (pc_number (th_writer s) (gs_seq_number (th_socket s)))"
  shows "unat (gw_size w) \<le> DEFAULT_QUEUE_SIZE \<and> unat (gw_size w) \<le> c \<and>
    map (unat \<circ> gp_seq_number) (outstanding w) = [c - unat (gw_size w)..<c] \<and>
    unat (gw_tail w) = (unat (gw_head w) + unat (gw_size w)) mod DEFAULT_QUEUE_SIZE"
proof -
  from thr_atomic_run [OF assms(1)] obtain t where "gbn_reachable t" "sys_socket t = atomic_socket (gs_out (sys_socket t)) s"
    using assms(2) by (auto simp: threads_rel_def)
  then have t: "gbn_reachable t" "gs_sending_window (sys_socket t) = freed_slot (pc_slot (th_writer s)) w" "unat (gs_seq_number (sys_socket t)) = c"
    by (simp_all add: w_def c_def) (metis atomic_socket_def patch_simps)+
  let ?w = "freed_slot (pc_slot (th_writer s)) w"
  from reachable_sender_ok [OF t(1)] t(2,3) obtain n where ok: "window_ok c n ?w" unfolding sender_ok_def by auto
  then have n: "unat (gw_size w) = n" "n \<le> 6" "n \<le> c" "unat (gw_tail w) = c mod 6" "unat (gw_head w) = (c - n) mod 6" "gw_packet_buffer w \<noteq> []"
    by (auto simp: window_ok_def)
  have "map gp_seq_number (outstanding ?w) = map gp_seq_number (outstanding w)"
    unfolding outstanding_def freed_slot_simps using n(6) by (intro ring_list_map freed_slot_numbers) (metis freed_slot_numbers map_is_Nil_conv)
  then have "map (unat \<circ> gp_seq_number) (outstanding w) = [c - n..<c]"
    using outstanding_numbers [OF ok] by (metis map_map)
  moreover have "unat (gw_tail w) = (unat (gw_head w) + n) mod 6" using n by (simp add: mod_add_left_eq)
  ultimately show ?thesis using n by (simp add: DEFAULT_QUEUE_SIZE_def)
qed

theorem socket_threads_window_witness:
  "\<exists>s. timely_thr_run overlapping_run thr_start = Some s \<and>
     unat (gw_size (gs_sending_window (th_socket s))) \<le> 2"
proof -
  obtain s where s: "timely_thr_run overlapping_run thr_start = Some s" "th_app s \<noteq> AppFreed"
    "pc_number (th_writer s) (gs_seq_number (th_socket s)) = 2"
    using overlapping_run_result by auto
  then show ?thesis using socket_threads_window [OF timely_thr_run_start [OF s(1)] s(2)] by auto
qed

section \<open>The stream of bytes\<close>

fun thr_sender_event :: "thr_event \<Rightarrow> bool" where
  "thr_sender_event (TArrival p) \<longleftrightarrow> gp_type p = gbn_packet_type_ack"
| "thr_sender_event TClose \<longleftrightarrow> False"
| "thr_sender_event _ \<longleftrightarrow> True"

definition thr_written :: "thr_event list \<Rightarrow> byte list" where
  "thr_written es = concat (map (\<lambda>e. case e of TWrite bytes \<Rightarrow> bytes | _ \<Rightarrow> []) es)"

lemma written_outside: "written (concat (map outside es)) = thr_written es"
proof (induction es)
  case (Cons e es)
  then show ?case by (cases e) (simp_all add: written_def thr_written_def)
qed (simp add: written_def thr_written_def)

lemma written_from_outside: "written (filter from_outside es) = written es"
proof (induction es)
  case (Cons e es)
  then show ?case by (cases e) (auto simp: written_def from_outside_def)
qed (simp add: written_def)

lemma sender_events:
  assumes "filter from_outside es' = concat (map outside es)" "\<forall>e \<in> set es. thr_sender_event e"
  shows "\<forall>e \<in> set es'. sender_event e"
proof
  fix e assume e: "e \<in> set es'"
  show "sender_event e"
  proof (cases "from_outside e")
    case True
    then have "e \<in> set (filter from_outside es')" using e by simp
    then have "e \<in> set (concat (map outside es))" unfolding assms(1) .
    then obtain x where x: "x \<in> set es" "e \<in> set (outside x)" by auto
    then have "thr_sender_event x" using assms(2) by blast
    then show ?thesis using x(2) by (cases x) simp_all
  next
    case False
    then show ?thesis by (auto simp: from_outside_def)
  qed
qed

lemma thr_sent_bound:
  assumes "runs timely_thr_step thr_start es s" "th_app s \<noteq> AppFreed"
  shows "unat (pc_number (th_writer s) (gs_seq_number (th_socket s))) \<le> unat (gs_seq_number (th_socket s))"
proof -
  from thr_atomic_run [OF assms(1)] have "pc_ok s" using assms(2) by (auto simp: threads_rel_def)
  then show ?thesis
    by (cases "th_writer s") (auto simp: pc_ok_def word_less_nat_alt unat_word_ariths)
qed

text \<open>What the threads send: the payloads of the packets that were entered, in their order.\<close>

lemma thr_stream:
  assumes "runs timely_thr_step thr_start es s" "\<forall>e \<in> set es. thr_sender_event e" "th_app s \<noteq> AppFreed"
  obtains bs where "\<forall>b \<in> set bs. length b \<le> DEFAULT_PACKET_SIZE" "prefix (concat bs) (thr_written es)"
    "gs_out (th_socket s) @ pc_unsent (th_writer s) = map (data_datagram (payloads bs)) [0..<length bs]"
    "length bs = unat (pc_number (th_writer s) (gs_seq_number (th_socket s)))"
proof -
  from thr_atomic_run [OF assms(1)] obtain es' t where t: "timely_run es' gbn_start = Some t"
    "filter from_outside es' = concat (map outside es)" "threads_rel s t" by blast
  have w: "written es' = thr_written es" using t(2) written_from_outside [of es'] written_outside [of es] by simp
  from stream_inv_run [OF stream_inv_start gbn_reachable.start t(1) sender_events [OF t(2) assms(2)]] w obtain bs where
    "stream_inv bs (thr_written es) (sys_writer t) (sys_socket t)" by auto
  then have i: "length bs = unat (gs_seq_number (sys_socket t))" "\<forall>b \<in> set bs. length b \<le> DEFAULT_PACKET_SIZE"
     "gs_out (sys_socket t) = map (data_datagram (payloads bs)) [0..<length bs]" "prefix (concat bs) (thr_written es)"
    by (auto simp: stream_inv_def intro!: prefixI [OF sym])
  have r: "same_datagrams (gs_out (sys_socket t)) (gs_out (th_socket s) @ pc_unsent (th_writer s))"
    "sys_socket t = atomic_socket (gs_out (sys_socket t)) s" using t(3) assms(3) by (auto simp: threads_rel_def)
  have "writer_datagram (data_datagram (payloads bs) k)" for k
  proof -
    let ?p = "data_packet (payloads bs) k"
    have p: "block_packet \<lparr>db_data = payloads bs k, db_closing = False\<rparr> ?p"
      using i(2) by (simp add: block_packet_def data_packet_def payloads_def)
    then have "packet_bytes ?p = data_datagram (payloads bs) k" using block_packet_sent(1) [OF p] by (simp add: data_datagram_def)
    then show ?thesis using block_packet_sent(2) [OF p] by simp
  qed
  then have "filter writer_datagram (gs_out (sys_socket t)) = gs_out (sys_socket t)"
    "filter (\<lambda>d. \<not> writer_datagram d) (gs_out (sys_socket t)) = []" unfolding i(3) by (auto simp: filter_id_conv filter_empty_conv)
  then have "gs_out (th_socket s) @ pc_unsent (th_writer s) = gs_out (sys_socket t)"
    using r(1) by (metis (mono_tags, lifting) same_datagrams_def filter_True filter_empty_conv)
  moreover have "gs_seq_number (sys_socket t) = pc_number (th_writer s) (gs_seq_number (th_socket s))"
    by (subst r(2)) (simp add: atomic_socket_def)
  ultimately show ?thesis using that [OF i(2,4)] i(1,3) by simp
qed



end
