(* ===== verification/GbnThreadsEnd.thy ===== *)
theory GbnThreadsEnd
  imports GbnThreadsProps
begin

text \<open>
  The threads of a go-back-N socket whatever arrives: the types of the socket hold and the only
  errors are uses of freed memory.  Then what \<^verbatim>\<open>_m_mutex\<close> does: no signal of the reader thread is
  lost, but the reader thread can be kept waiting for ever; and what is left running when the application
  closes the socket.
\<close>

section \<open>Types\<close>

text \<open>A packet that can be sent, unless its payload was freed.\<close>

definition frame_typed :: "gbn_packet \<Rightarrow> bool" where
  "frame_typed f \<longleftrightarrow> unat (gp_size f) \<le> DEFAULT_PACKET_SIZE \<and>
     (case gp_payload f of None \<Rightarrow> True | Some bs \<Rightarrow> length bs = unat (gp_size f))"

definition window_typed :: "gbn_window \<Rightarrow> bool" where
  "window_typed w \<longleftrightarrow> length (gw_packet_buffer w) = DEFAULT_QUEUE_SIZE \<and> unat (gw_head w) < DEFAULT_QUEUE_SIZE \<and>
     unat (gw_tail w) < DEFAULT_QUEUE_SIZE \<and> (\<forall>f \<in> set (gw_packet_buffer w). frame_typed f)"

definition socket_typed :: "gbn_socket \<Rightarrow> bool" where
  "socket_typed sock \<longleftrightarrow> window_typed (gs_sending_window sock) \<and> queue_ok (gs_sending_buffer sock) \<and>
     length (gw_packet_buffer (gs_receive_window sock)) = DEFAULT_QUEUE_SIZE"

fun pc_typed :: "writer_pc \<Rightarrow> bool" where
  "pc_typed (WTaken block packet) \<longleftrightarrow> block_packet block packet"
| "pc_typed (WEntered block packet slot) \<longleftrightarrow> block_packet block packet \<and> slot < DEFAULT_QUEUE_SIZE"
| "pc_typed _ \<longleftrightarrow> True"

definition threads_typed :: "thr_system \<Rightarrow> bool" where
  "threads_typed s \<longleftrightarrow> socket_typed (th_socket s) \<and> pc_typed (th_writer s)"

lemma block_packet_typed: "block_packet block packet \<Longrightarrow> frame_typed packet"
  by (simp add: block_packet_def frame_typed_def unat_of_nat DEFAULT_PACKET_SIZE_def take_bit_nat_eq_self)

lemma frame_serialize:
  assumes "frame_typed f"
  shows "gbn_socket_serialize f SERIALIZE_SIZE = Inl UseAfterFree \<or> (\<exists>r. gbn_socket_serialize f SERIALIZE_SIZE = Inr r)"
  using assms by (auto simp: gbn_socket_serialize_def frame_typed_def SERIALIZE_SIZE_def copy_from_def split: option.splits)

subsection \<open>The reader thread\<close>

lemma slot_index: "k mod DEFAULT_QUEUE_SIZE < DEFAULT_QUEUE_SIZE"
  by (simp add: DEFAULT_QUEUE_SIZE_def)

lemma handle_ack_typed:
  assumes "window_typed w"
  shows "\<exists>w'. handle_ack a w = Inr w' \<and> window_typed w'"
proof -
  have "unat (gw_head w) mod DEFAULT_QUEUE_SIZE < length (gw_packet_buffer w)" using assms by (simp add: window_typed_def slot_index)
  then obtain d where d: "GET_SEND_FRAME_id_delta w a = Inr d" by (simp add: GET_SEND_FRAME_id_delta_def)
  have "unat (x mod of_nat DEFAULT_QUEUE_SIZE :: byte) < DEFAULT_QUEUE_SIZE" for x
    unfolding unat_mod_distrib by (simp add: DEFAULT_QUEUE_SIZE_def)
  then show ?thesis using assms d by (auto simp: handle_ack_def window_typed_def Let_def)
qed

lemma deliver_loop_typed:
  "length (gw_packet_buffer w) = DEFAULT_QUEUE_SIZE \<Longrightarrow>
     \<exists>w' q'. deliver_loop w q = Inr (w', q') \<and> length (gw_packet_buffer w') = DEFAULT_QUEUE_SIZE"
proof (induction w q rule: deliver_loop.induct)
  case (1 w q)
  let ?i = "unat (gw_head w) mod DEFAULT_QUEUE_SIZE" let ?f = "gw_packet_buffer w ! ?i"
  have g: "arr_get (gw_packet_buffer w) (int ?i) = Inr ?f" using 1(2) slot_index by simp
  show ?case
  proof (cases "gp_type ?f = gbn_packet_type_uninitialized")
    case True
    then show ?thesis using 1(2) g by (subst deliver_loop.simps) (simp add: Let_def)
  next
    case False
    from 1(1) [OF refl g False] 1(2) show ?thesis using g False by (subst deliver_loop.simps) (simp add: Let_def)
  qed
qed

lemma accept_data_typed:
  assumes "length (gw_packet_buffer w) = DEFAULT_QUEUE_SIZE"
  shows "\<exists>w'. accept_data p w = Inr w' \<and> length (gw_packet_buffer w') = DEFAULT_QUEUE_SIZE"
  using assms slot_index by (simp add: accept_data_def Let_def)

lemma ack_datagram_total: "\<exists>d. ack_datagram type n = Inr d"
  by (simp add: ack_datagram_def gbn_socket_serialize_def copy_from_def SERIALIZE_SIZE_def)

lemma handle_packet_typed:
  assumes "socket_typed sock"
  shows "\<exists>go sock'. handle_packet p sock = Inr (go, sock') \<and> socket_typed sock'"
proof -
  obtain w1 where w1: "handle_ack (gp_seq_number p) (gs_sending_window sock) = Inr w1" "window_typed w1"
    using assms handle_ack_typed by (auto simp: socket_typed_def)
  obtain w2 w3 q where w: "accept_data p (gs_receive_window sock) = Inr w2" "deliver_loop w2 (gs_receive_buffer sock) = Inr (w3, q)"
    "length (gw_packet_buffer w3) = DEFAULT_QUEUE_SIZE"
    using assms accept_data_typed deliver_loop_typed by (metis socket_typed_def)
  obtain d1 d2 where d: "ack_datagram gbn_packet_type_ack (gw_recv_counter w3 - 1) = Inr d1" "ack_datagram gbn_packet_type_ack_EOF 0 = Inr d2"
    using ack_datagram_total by blast
  show ?thesis using assms w1 w d
    by (auto simp: handle_packet_def handle_data_def socket_typed_def send_datagram_def push_block_def Let_def)
qed

subsection \<open>The application\<close>

lemma gbn_socket_write_typed:
  assumes "socket_typed sock"
  shows "\<exists>n sock'. gbn_socket_write sock bytes (of_nat (length bytes)) = Inr (n, sock') \<and> socket_typed sock'"
proof -
  have "unat (of_nat (length bytes) :: u32) \<le> length bytes" by (simp add: unat_of_nat take_bit_nat_less_eq_self)
  from gbn_socket_write_ok [OF this, of sock] obtain q where
    q: "gbn_socket_write sock bytes (of_nat (length bytes)) = Inr (of_nat (length bytes), sock\<lparr>gs_sending_buffer := gs_sending_buffer sock @ q\<rparr>)"
      "blocks_ok q" by blast
  then show ?thesis using assms by (auto simp: socket_typed_def blocks_ok_def queue_ok_def)
qed

lemma read_loop_receive:
  "read_loop len q acc sock = ReadBytes bs sock' \<Longrightarrow> gs_receive_window sock' = gs_receive_window sock"
  by (induction len q acc sock rule: read_loop.induct) (auto split: if_splits)

lemma gbn_socket_read_typed:
  assumes "gbn_socket_read sock len = ReadBytes bs sock'" "socket_typed sock"
  shows "socket_typed sock'"
proof -
  have "gs_receive_window sock' = gs_receive_window sock" using assms(1)
    by (auto simp: gbn_socket_read_def Let_def dest: read_loop_receive split: if_splits list.splits)
  then show ?thesis using assms gbn_socket_read_sender [OF assms(1)] by (simp add: socket_typed_def)
qed

subsection \<open>The writer thread\<close>

lemma retransmit_loop_error:
  "window_typed (gs_sending_window sock) \<Longrightarrow> i < DEFAULT_QUEUE_SIZE \<Longrightarrow> retransmit_loop fuel i sock = Inl err \<Longrightarrow> err = UseAfterFree"
proof (induction fuel i sock rule: retransmit_loop.induct)
  case (2 fuel i sock)
  let ?f = "gw_packet_buffer (gs_sending_window sock) ! i"
  have g: "arr_get (gw_packet_buffer (gs_sending_window sock)) (int i) = Inr ?f" and f: "frame_typed ?f"
    using 2(2,3) by (simp_all add: window_typed_def)
  show ?case
  proof (cases "gbn_socket_serialize ?f SERIALIZE_SIZE")
    case (Inl e)
    then show ?thesis using 2(4) g frame_serialize [OF f] by simp
  next
    case (Inr r)
    obtain n d where r: "r = (n, d)" by (cases r)
    show ?thesis using 2(1) [OF g Inr r [symmetric] refl refl] 2(2,4) g Inr r slot_index
      by (auto simp: send_datagram_def Let_def split: if_splits)
  qed
qed simp

lemma run_state_typed:
  assumes "threads_typed s" "st \<noteq> State_send_packet"
  shows "run_state b st s = Inr s' \<Longrightarrow> threads_typed s'"
    "run_state b st s = Inl err \<Longrightarrow> err = UseAfterFree \<and> st = State_retransmit"
proof -
  assume "run_state b st s = Inr s'"
  then obtain st' sock' where w: "writer_step b st (th_socket s) = Inr (st', sock')"
    "s' = s\<lparr>th_writer := (case st' of None \<Rightarrow> WEnded | Some st \<Rightarrow> WAt st), th_socket := sock'\<rparr>"
    by (auto simp: run_state_def bindR_eq_Inr)
  from writer_step_out [OF w(1) assms(2)] obtain ds where "sock' = (th_socket s)\<lparr>gs_out := gs_out (th_socket s) @ ds\<rparr>" by blast
  then show "threads_typed s'" using assms(1) w(2) by (simp add: threads_typed_def socket_typed_def split: option.splits)
next
  assume "run_state b st s = Inl err"
  then have w: "writer_step b st (th_socket s) = Inl err" unfolding run_state_def
    by (cases "writer_step b st (th_socket s)") auto
  have h: "window_typed (gs_sending_window (th_socket s))" using assms(1) by (simp add: threads_typed_def socket_typed_def)
  have "st = State_retransmit" using w assms(2)
    by (cases st) (auto simp: writer_step_def window_empty_q_def block_on_queue_def is_win_full_q_def wait_on_read_def
      close_connection_def gbn_socket_serialize_def copy_from_def SERIALIZE_SIZE_def)
  moreover from this have "retransmit_loop DEFAULT_QUEUE_SIZE (unat (gw_head (gs_sending_window (th_socket s)))) (th_socket s) = Inl err"
    using w by (cases "retransmit_loop DEFAULT_QUEUE_SIZE (unat (gw_head (gs_sending_window (th_socket s)))) (th_socket s)")
      (auto simp: writer_step_def retransmit_def split: if_splits option.splits)
  moreover have "unat (gw_head (gs_sending_window (th_socket s))) < DEFAULT_QUEUE_SIZE" using h by (simp add: window_typed_def)
  ultimately show "err = UseAfterFree \<and> st = State_retransmit" using retransmit_loop_error [OF h] by blast
qed

lemma take_packet_typed: "threads_typed s \<Longrightarrow> take_packet s = Some s' \<Longrightarrow> threads_typed s'"
  by (cases "gs_sending_buffer (th_socket s)")
    (auto simp: take_packet_def Let_def threads_typed_def socket_typed_def block_packet_def split: if_splits)

lemma enter_packet_typed:
  assumes "threads_typed s" "th_writer s = WTaken block packet"
  shows "\<exists>s'. enter_packet block packet s = Inr s' \<and> threads_typed s'"
proof -
  let ?w = "gs_sending_window (th_socket s)" let ?i = "unat (gw_tail ?w)"
  have w: "?i < length (gw_packet_buffer ?w)" "block_packet block packet" using assms by (simp_all add: threads_typed_def socket_typed_def window_typed_def)
  have "\<forall>f \<in> set ((gw_packet_buffer ?w)[?i := packet]). frame_typed f"
    using assms(1) block_packet_typed [OF w(2)] by (auto simp: threads_typed_def socket_typed_def window_typed_def dest!: set_update_subset_insert [THEN subsetD])
  moreover have "unat (of_nat (Suc ?i mod DEFAULT_QUEUE_SIZE) :: byte) < DEFAULT_QUEUE_SIZE"
    using slot_index [of "Suc ?i"] unat_byte_nat [of "Suc ?i mod DEFAULT_QUEUE_SIZE"] by (simp add: DEFAULT_QUEUE_SIZE_def)
  ultimately show ?thesis using assms w by (simp add: enter_packet_def Let_def threads_typed_def socket_typed_def window_typed_def del: of_nat_mod)
qed

lemma transmit_packet_typed:
  assumes "threads_typed s" "th_writer s = WEntered block packet slot"
  shows "\<exists>s'. transmit_packet packet slot s = Inr s' \<and> threads_typed s'"
proof -
  let ?buf = "gw_packet_buffer (gs_sending_window (th_socket s))"
  have w: "block_packet block packet" "slot < length ?buf" "\<forall>f \<in> set ?buf. frame_typed f"
    using assms by (simp_all add: threads_typed_def socket_typed_def window_typed_def)
  then have "frame_typed (?buf ! slot)" by simp
  then have "frame_typed ((?buf ! slot)\<lparr>gp_payload := None\<rparr>)" by (simp add: frame_typed_def)
  then have "\<forall>f \<in> set (?buf[slot := (?buf ! slot)\<lparr>gp_payload := None\<rparr>]). frame_typed f"
    using w(3) by (auto dest!: set_update_subset_insert [THEN subsetD])
  then show ?thesis using assms block_packet_sent(1) [OF w(1)]
    by (simp add: transmit_packet_def Let_def threads_typed_def socket_typed_def window_typed_def send_datagram_def forget_payload_def)
qed

lemma writer_thread_typed:
  assumes "threads_typed s"
  shows "writer_thread s = Some (Inr s') \<Longrightarrow> threads_typed s'"
    "writer_thread s = Some (Inl err) \<Longrightarrow> err = UseAfterFree \<and> th_writer s = WAt State_retransmit"
proof -
  have l: "threads_typed (s\<lparr>th_locked := b\<rparr>)" for b using assms by (simp add: threads_typed_def)
  { fix r assume r: "writer_thread s = Some r"
    have "(case r of Inl err \<Rightarrow> err = UseAfterFree \<and> th_writer s = WAt State_retransmit | Inr s' \<Rightarrow> threads_typed s')"
    proof (cases "th_writer s")
      case (WAt st)
      then consider (send) s' where "r = Inr s'" "take_packet s = Some s'" | (wait) "r = Inr (s\<lparr>th_writer := WWaiting, th_locked := False\<rparr>)"
        | (other) "st \<noteq> State_send_packet" "r = run_state False st s"
        using r by (cases st) (auto simp: writer_thread_def split: if_splits)
      then show ?thesis
      proof cases
        case send
        then show ?thesis using take_packet_typed [OF assms] by simp
      next
        case wait
        then show ?thesis using assms by (simp add: threads_typed_def)
      next
        case other
        then show ?thesis using run_state_typed [OF assms other(1)] WAt by (auto split: sum.splits)
      qed
    next
      case (WTaken block packet)
      then show ?thesis using r enter_packet_typed [OF assms WTaken] by (auto simp: writer_thread_def)
    next
      case (WEntered block packet slot)
      then show ?thesis using r transmit_packet_typed [OF assms WEntered] by (auto simp: writer_thread_def)
    next
      case (WWoken b)
      then have "run_state b State_wait_on_read (s\<lparr>th_locked := True\<rparr>) = r" using r by (simp add: writer_thread_def split: if_splits)
      then show ?thesis using run_state_typed [OF l, of State_wait_on_read b True] by (cases r) auto
    qed (use r in \<open>simp_all add: writer_thread_def\<close>) }
  note both = this
  show "threads_typed s'" if "writer_thread s = Some (Inr s')" using both [OF that] by simp
  show "err = UseAfterFree \<and> th_writer s = WAt State_retransmit" if "writer_thread s = Some (Inl err)" using both [OF that] by simp
qed

subsection \<open>All steps\<close>

lemma orphan_typed:
  "threads_typed s \<Longrightarrow> orphan_writer s = Some (Inr s') \<or> orphan_reader s = Some (Inr s') \<Longrightarrow> threads_typed s'"
  by (auto simp: orphan_writer_def orphan_reader_def threads_typed_def split: writer_pc.splits writer_state.splits reader_pc.splits if_splits)

lemma orphan_error:
  "orphan_writer s = Some (Inl err) \<or> orphan_reader s = Some (Inl err) \<Longrightarrow> err = UseAfterFree"
  by (auto simp: orphan_writer_def orphan_reader_def split: writer_pc.splits writer_state.splits reader_pc.splits if_splits)

lemma thr_step_typed:
  assumes "threads_typed s" "thr_step e s = Some r"
  shows "case r of Inl err \<Rightarrow> err = UseAfterFree \<and> (e = TWriter \<and> th_writer s = WAt State_retransmit \<or> th_app s = AppFreed)
    | Inr s' \<Rightarrow> threads_typed s'"
proof (cases e)
  case TWriter
  then show ?thesis using assms writer_thread_typed [OF assms(1)] orphan_typed [OF assms(1)] orphan_error [of s]
    by (auto simp: thr_step_def split: if_splits sum.splits)
next
  case TReader
  then show ?thesis using assms orphan_typed [OF assms(1)] orphan_error [of s]
    by (auto simp: thr_step_def reader_signals_def threads_typed_def split: if_splits sum.splits)
next
  case (TArrival p)
  then show ?thesis using assms handle_packet_typed [of "th_socket s" p]
    by (auto simp: thr_step_def reader_receives_def threads_typed_def split: if_splits)
next
  case (TWrite bytes)
  then show ?thesis using assms gbn_socket_write_typed [of "th_socket s" bytes]
    by (auto simp: thr_step_def threads_typed_def split: if_splits)
next
  case (TRead len)
  then show ?thesis using assms gbn_socket_read_typed [of "th_socket s" len]
    by (auto simp: thr_step_def threads_typed_def split: if_splits read_outcome.splits)
next
  case TFinish
  then show ?thesis using assms
    by (auto simp: thr_step_def close_ends_def threads_typed_def split: app_pc.splits bool.splits if_splits)
qed (use assms in \<open>auto simp: thr_step_def close_begins_def gbn_socket_close_def push_block_def threads_typed_def socket_typed_def split: if_splits\<close>)

interpretation typed: run_invariant thr_rel "\<lambda>_. threads_typed"
  by unfold_locales (use thr_step_typed in \<open>fastforce simp: thr_rel_def\<close>)

lemma threads_typed_start: "threads_typed thr_start"
  by (simp add: threads_typed_def thr_start_def init_gbn_socket_def init_gbn_window_def socket_typed_def window_typed_def
    frame_typed_def empty_packet_def DEFAULT_QUEUE_SIZE_def)

lemma timely_thr_runs: "runs timely_thr_step s0 es s \<Longrightarrow> runs thr_rel s0 es s"
  by (induction rule: runs.induct) (auto intro: runs.intros simp: timely_thr_step_def)



section \<open>The mutex and its signals\<close>

fun in_wait :: "writer_pc \<Rightarrow> bool" where
  "in_wait WWaiting \<longleftrightarrow> True"
| "in_wait (WWoken timed_out) \<longleftrightarrow> True"
| "in_wait _ \<longleftrightarrow> False"

definition mutex_ok :: "thr_system \<Rightarrow> bool" where
  "mutex_ok s \<longleftrightarrow> th_app s = AppFreed \<or> th_locked s = (\<not> in_wait (th_writer s))"

lemma run_state_mutex:
  "run_state b st s = Inr s' \<Longrightarrow> th_locked s' = th_locked s \<and> th_app s' = th_app s \<and> \<not> in_wait (th_writer s')"
  by (auto simp: run_state_def bindR_eq_Inr split: option.splits)

lemma writer_thread_mutex:
  assumes "writer_thread s = Some (Inr s')" "th_locked s = (\<not> in_wait (th_writer s))"
  shows "th_locked s' = (\<not> in_wait (th_writer s'))"
proof (cases "th_writer s")
  case (WAt st)
  then show ?thesis using assms run_state_mutex [of False st s s']
    by (cases st; auto simp: writer_thread_def take_packet_def Let_def split: if_splits list.splits)
next
  case (WWoken b)
  then show ?thesis using assms run_state_mutex by (fastforce simp: writer_thread_def split: if_splits)
qed (use assms in \<open>auto simp: writer_thread_def enter_packet_def transmit_packet_def Let_def bindR_eq_Inr split: if_splits\<close>)

lemma mutex_step:
  assumes "thr_rel s e s'" "mutex_ok s"
  shows "mutex_ok s'"
proof (cases "e = TWriter")
  case True
  then show ?thesis using assms writer_thread_mutex [of s s']
    by (auto simp: thr_rel_def thr_step_def mutex_ok_def orphan_writer_def split: if_splits writer_pc.splits writer_state.splits)
next
  case False
  then show ?thesis using assms
    by (cases e) (auto simp: thr_rel_def thr_step_def mutex_ok_def orphan_reader_def reader_signals_def reader_receives_def
      close_begins_def close_ends_def bindR_eq_Inr split: if_splits reader_pc.splits read_outcome.splits app_pc.splits bool.splits)
qed

interpretation mutex: run_invariant thr_rel "\<lambda>_. mutex_ok"
  by unfold_locales (rule mutex_step)

text \<open>
  C19. No signal is lost: in every run the reader thread gets to its signal only while the writer thread
  is inside its wait for acknowledgements, and the signal leaves the writer awake; at any other moment
  the reader thread waits for the mutex.
\<close>

theorem signal_never_lost:
  assumes "runs thr_rel thr_start es s" "th_app s \<noteq> AppFreed" "th_reader s = RSignalling"
  shows "if in_wait (th_writer s)
    then \<exists>s' timed_out. thr_step TReader s = Some (Inr s') \<and> th_writer s' = WWoken timed_out \<and> th_reader s' = RReceiving
    else thr_step TReader s = None"
proof -
  have "mutex_ok thr_start" by (simp add: mutex_ok_def thr_start_def)
  then have "mutex_ok s" by (rule mutex.inv_runs [OF assms(1)])
  then show ?thesis using assms(2,3)
    by (cases "th_writer s") (auto simp: mutex_ok_def thr_step_def reader_signals_def)
qed

theorem signal_never_lost_witness:
  "\<exists>s. timely_thr_run overlapping_run thr_start = Some s \<and> th_reader s = RSignalling \<and> thr_step TReader s = None"
proof -
  obtain s where s: "timely_thr_run overlapping_run thr_start = Some s" "th_app s \<noteq> AppFreed" "th_reader s = RSignalling" "\<not> in_wait (th_writer s)"
    using overlapping_run_result by auto
  from signal_never_lost [OF timely_thr_runs [OF timely_thr_run_start [OF s(1)]] s(2,3)] s show ?thesis by simp
qed

section \<open>A reader that is held up\<close>

text \<open>
  The writer thread waits for data, with the mutex; the reader thread has an acknowledgement to signal.
\<close>

definition held_up :: "thr_system \<Rightarrow> bool" where
  "held_up s \<longleftrightarrow> th_writer s = WAt State_block_on_queue \<and> gs_sending_buffer (th_socket s) = [] \<and> th_locked s \<and>
     th_reader s = RSignalling \<and> th_app s = AppRunning"

fun gives_work :: "thr_event \<Rightarrow> bool" where
  "gives_work (TWrite bytes) \<longleftrightarrow> True"
| "gives_work TClose \<longleftrightarrow> True"
| "gives_work _ \<longleftrightarrow> False"

lemma held_up_step:
  assumes "thr_rel s e s'" "held_up s"
  shows "gives_work e \<or> (held_up s' \<and> (\<exists>len. e = TRead len))"
  using assms by (cases e) (auto simp: thr_rel_def thr_step_def held_up_def writer_thread_def reader_signals_def close_ends_def
    dest: gbn_socket_read_sender split: if_splits read_outcome.splits)

lemma held_up_blocked:
  "held_up s \<Longrightarrow> th_reader s = RSignalling \<and> thr_step (TArrival packet) s = None \<and> thr_step TReader s = None \<and> thr_step TWriter s = None"
  by (simp add: held_up_def thr_step_def reader_signals_def writer_thread_def)

interpretation held: run_invariant thr_rel "\<lambda>es s. list_ex gives_work es \<or> held_up s \<and> (\<forall>e \<in> set es. \<exists>len. e = TRead len)"
  by unfold_locales (use held_up_step in fastforce)

text \<open>Two bytes are written, sent and acknowledged; the second acknowledgement comes before the writer has woken up.\<close>

definition held_up_run :: "thr_event list" where
  "held_up_run = [TWrite [1], TWrite [2], TWriter, TWriter, TWriter, TWriter, TWriter, TWriter, TWriter, TWriter, TWriter, TWriter,
    TWriter, TArrival (ack_packet 0), TReader, TArrival (ack_packet 1), TWriter, TWriter]"

lemma held_up_run_result:
  "\<exists>s. timely_thr_run held_up_run thr_start = Some s \<and> held_up s \<and> gs_seq_number (th_socket s) = 2 \<and>
     gw_size (gs_sending_window (th_socket s)) = 0"
  unfolding held_up_run_def by (simp add: thr_run_defs packet_types held_up_def)

text \<open>
  C27. Once everything written is acknowledged, the threads can come to rest with the writer waiting for
  data while it holds the mutex and the reader waiting for the mutex: as long as the application neither
  writes nor closes, nothing that arrives is received, whatever else happens.
\<close>

theorem reader_held_up:
  "\<exists>s. timely_thr_run held_up_run thr_start = Some s \<and> gw_size (gs_sending_window (th_socket s)) = 0 \<and> th_app s = AppRunning \<and>
     (\<forall>es s' packet. runs thr_rel s es s' \<longrightarrow> list_ex gives_work es \<or>
        th_reader s' = RSignalling \<and> thr_step (TArrival packet) s' = None \<and> thr_step TReader s' = None \<and> thr_step TWriter s' = None)"
proof -
  obtain s where s: "timely_thr_run held_up_run thr_start = Some s" "held_up s" "gw_size (gs_sending_window (th_socket s)) = 0"
    using held_up_run_result by blast
  have "list_ex gives_work es \<or> held_up s'" if "runs thr_rel s es s'" for es s'
    using held.inv_runs [OF that] s(2) by auto
  then show ?thesis using s held_up_blocked by (intro exI [of _ s]) (auto simp: held_up_def [of s])
qed

text \<open>An extension of the run in which the application reads: nothing changes.\<close>

theorem reader_held_up_witness:
  "\<exists>s. timely_thr_run held_up_run thr_start = Some s \<and> (\<forall>packet. thr_step (TArrival packet) s = None)"
proof -
  obtain s where s: "timely_thr_run held_up_run thr_start = Some s"
    "\<And>es s' packet. runs thr_rel s es s' \<Longrightarrow> list_ex gives_work es \<or>
        th_reader s' = RSignalling \<and> thr_step (TArrival packet) s' = None \<and> thr_step TReader s' = None \<and> thr_step TWriter s' = None"
    using reader_held_up by blast
  from s(2) [OF runs.run_start] have "thr_step (TArrival packet) s = None" for packet by simp
  then show ?thesis using s(1) by blast
qed

section \<open>Closing\<close>

text \<open>
  C28. The writer thread ends with the mutex locked.  So an acknowledgement that the reader thread has to
  signal then keeps it waiting until the socket is freed under it.
\<close>

lemma ended_step:
  assumes "thr_rel s e s'" "th_writer s = WEnded \<and> th_reader s = RSignalling \<and> (th_app s = AppFreed \<or> th_locked s)"
  shows "th_writer s' = WEnded \<and> th_reader s' = RSignalling \<and> (th_app s' = AppFreed \<or> th_locked s')"
  using assms by (cases e) (auto simp: thr_rel_def thr_step_def writer_thread_def orphan_writer_def orphan_reader_def reader_signals_def
    close_begins_def close_ends_def bindR_eq_Inr split: if_splits read_outcome.splits app_pc.splits bool.splits)

interpretation ended: run_invariant thr_rel "\<lambda>_ s. th_writer s = WEnded \<and> th_reader s = RSignalling \<and> (th_app s = AppFreed \<or> th_locked s)"
  by unfold_locales (rule ended_step)

theorem ended_writer_blocks_reader:
  assumes "runs thr_rel thr_start es s" "th_writer s = WEnded" "th_reader s = RSignalling" "runs thr_rel s es' s'"
  shows "th_reader s' = RSignalling \<and> thr_step TReader s' = (if th_app s' = AppFreed then Some (Inl UseAfterFree) else None)"
proof -
  have "mutex_ok thr_start" by (simp add: mutex_ok_def thr_start_def)
  then have "mutex_ok s" by (rule mutex.inv_runs [OF assms(1)])
  then have "th_app s = AppFreed \<or> th_locked s" by (simp add: mutex_ok_def assms(2))
  then have "th_writer s' = WEnded \<and> th_reader s' = RSignalling \<and> (th_app s' = AppFreed \<or> th_locked s')"
    using ended.inv_runs [OF assms(4)] assms(2,3) by simp
  then show ?thesis by (auto simp: thr_step_def orphan_reader_def reader_signals_def)
qed

text \<open>The client closes while its reader is held up: the end mark is sent, and the socket is freed.\<close>

definition close_run :: "thr_event list" where
  "close_run = held_up_run @ [TClose, TWriter, TWriter, TWriter]"

lemma close_run_result:
  "\<exists>s. timely_thr_run close_run thr_start = Some s \<and> th_writer s = WEnded \<and> th_reader s = RSignalling \<and>
     th_app s = AppJoining True"
  unfolding close_run_def held_up_run_def by (simp add: thr_run_defs packet_types close_connection_def)

theorem ended_writer_blocks_reader_witness:
  "\<exists>s s'. timely_thr_run close_run thr_start = Some s \<and> thr_rel s TFinish s' \<and> thr_step TReader s = None \<and>
     thr_step TReader s' = Some (Inl UseAfterFree)"
proof -
  obtain s where s: "timely_thr_run close_run thr_start = Some s" "th_writer s = WEnded" "th_reader s = RSignalling" "th_app s = AppJoining True"
    using close_run_result by blast
  note r = timely_thr_runs [OF timely_thr_run_start [OF s(1)]]
  have f: "thr_rel s TFinish (s\<lparr>th_app := AppFreed\<rparr>)" using s by (simp add: thr_rel_def thr_step_def close_ends_def)
  have f': "runs thr_rel s ([] @ [TFinish]) (s\<lparr>th_app := AppFreed\<rparr>)" by (rule runs.run_step [OF runs.run_start]) (rule f)
  have "thr_step TReader s = None" using ended_writer_blocks_reader [OF r s(2,3) runs.run_start] s(4) by simp
  moreover have "thr_step TReader (s\<lparr>th_app := AppFreed\<rparr>) = Some (Inl UseAfterFree)"
    using ended_writer_blocks_reader [OF r s(2,3) f'] by simp
  ultimately show ?thesis using s(1) f by blast
qed

text \<open>A server: a packet and the end mark arrive, the application reads all and closes.\<close>

definition server_close_run :: "thr_event list" where
  "server_close_run = [TArrival \<lparr>gp_type = gbn_packet_type_data, gp_seq_number = 0, gp_size = 1, gp_payload = Some [5]\<rparr>,
    TArrival \<lparr>gp_type = gbn_packet_type_EOF, gp_seq_number = 0, gp_size = 0, gp_payload = Some []\<rparr>,
    TRead 8, TWriter, TWriter, TClose, TFinish]"


end
