(* ===== verification/GbnLog.thy ===== *)
theory GbnLog
  imports GbnThreadsEnd
begin

text \<open>
  What the socket does beside its states: the log line that both threads write for every packet
  (\<^verbatim>\<open>PA2/GBNframework/gbn_read.c\<close>, \<^verbatim>\<open>gbn_write.c\<close>), whose fields are read from the windows, and the
  deadline of the writer's wait.
\<close>

section \<open>The log line\<close>

text \<open>\<^verbatim>\<open>BETTER_MOD\<close>, for numbers that are not less than \<open>- b\<close>.\<close>

definition BETTER_MOD :: "int \<Rightarrow> int \<Rightarrow> int" where
  "BETTER_MOD a b = (a + b) mod b"

text \<open>
  The numbers after the one of the packet itself: free slots, and counters and numbers of packets in the
  two windows.  The head of the receive window is an index as it is.
\<close>

definition log_fields :: "gbn_socket \<Rightarrow> int list result" where
  "log_fields sock =
     (let s = gs_sending_window sock; r = gs_receive_window sock in
      bindR (arr_get (gw_packet_buffer s) (BETTER_MOD (int (unat (gw_tail s)) - 1) (int DEFAULT_QUEUE_SIZE))) (\<lambda>lfs.
      bindR (arr_get (gw_packet_buffer r) (BETTER_MOD (int (unat (gw_tail r)) - 1) (int DEFAULT_QUEUE_SIZE))) (\<lambda>lfrcvd.
      bindR (arr_get (gw_packet_buffer r) (int (unat (gw_head r)))) (\<lambda>laf.
      Inr [int DEFAULT_QUEUE_SIZE - int (unat (gw_size s)), sint (gw_recv_counter s), sint (gp_seq_number lfs),
           sint (gw_recv_counter r), sint (gp_seq_number lfrcvd), sint (gp_seq_number laf)]))))"

lemma better_mod_slot: "0 \<le> BETTER_MOD a (int DEFAULT_QUEUE_SIZE) \<and> nat (BETTER_MOD a (int DEFAULT_QUEUE_SIZE)) < DEFAULT_QUEUE_SIZE"
  by (simp add: BETTER_MOD_def DEFAULT_QUEUE_SIZE_def nat_less_iff)

text \<open>The sending side is always read inside its array, the receiving side as long as the head is a slot.\<close>

lemma log_fields_typed:
  assumes "socket_typed sock"
  shows "log_fields sock = Inl OutOfBounds \<longleftrightarrow> DEFAULT_QUEUE_SIZE \<le> unat (gw_head (gs_receive_window sock))"
    "(\<exists>fs. log_fields sock = Inr fs) \<longleftrightarrow> unat (gw_head (gs_receive_window sock)) < DEFAULT_QUEUE_SIZE"
  using assms better_mod_slot by (auto simp: log_fields_def Let_def socket_typed_def window_typed_def arr_get_def)

lemma socket_typed_start: "socket_typed init_gbn_socket"
  using threads_typed_start by (simp add: threads_typed_def thr_start_def)

lemma read_thread_typed:
  "socket_typed sock \<Longrightarrow> read_thread ds buf sock = Inr (buf', sock') \<Longrightarrow> socket_typed sock'"
proof (induction ds arbitrary: buf sock)
  case (Cons d ds)
  then obtain go b1 sock1 where r: "read_thread_round d buf sock = Inr (go, b1, sock1)"
    "if go then read_thread ds b1 sock1 = Inr (buf', sock') else sock' = sock1"
    by (auto simp: bindR_eq_Inr split: if_splits)
  have "sock1 = sock \<or> (\<exists>p go. handle_packet p sock = Inr (go, sock1))" using r(1)
    by (cases d) (auto simp: read_thread_round_def Let_def bindR_eq_Inr split: if_splits)
  then have "socket_typed sock1" using Cons.prems(1) handle_packet_typed by (metis Inr_inject Pair_inject)
  then show ?case using r(2) Cons.IH by (auto split: if_splits)
qed simp

text \<open>
  The log line of a received packet reads outside the array of the receive window exactly when six
  packets or more were delivered before, in whatever order and however often the packets arrive: the head
  counts the delivered packets and is never reduced to a slot.  (Up to packet 254; the count is that of the
  selective-repeat receiver.)
\<close>

lemma log_reads_outside:
  assumes "\<forall>k. length (data k) \<le> DEFAULT_PACKET_SIZE" "\<forall>k \<in> set ks. k < 255"
  shows "\<exists>buf' sock. read_thread (map (\<lambda>k. Some (data_datagram data k)) ks) buf init_gbn_socket = Inr (buf', sock) \<and>
    length (gs_receive_buffer sock) = fst (snd (sr_run ks (0, {}))) \<and>
    (log_fields sock = Inl OutOfBounds \<longleftrightarrow> 6 \<le> length (gs_receive_buffer sock)) \<and>
    ((\<exists>fs. log_fields sock = Inr fs) \<longleftrightarrow> length (gs_receive_buffer sock) < 6)"
proof -
  obtain buf' sock where r: "read_thread (map (\<lambda>k. Some (data_datagram data k)) ks) buf init_gbn_socket = Inr (buf', sock)"
    "receiving data (snd (sr_run ks (0, {}))) sock"
    using read_thread_receiving [OF assms receiving_init] by blast
  then obtain n where n: "n \<le> 255" "gw_head (gs_receive_window sock) = of_nat n" "length (gs_receive_buffer sock) = n"
    "fst (snd (sr_run ks (0, {}))) = n"
    by (auto simp: receiving_def window_holds_def split: prod.splits)
  have "unat (gw_head (gs_receive_window sock)) = n" using n(1,2) unat_byte_nat [of n] by simp
  then show ?thesis using log_fields_typed [OF read_thread_typed [OF socket_typed_start r(1)]] r(1) n(3,4)
    by (auto simp: DEFAULT_QUEUE_SIZE_def)
qed

lemma log_reads_outside_example:
  "\<exists>buf' sock. read_thread (map (\<lambda>k. Some (data_datagram (\<lambda>_. [7]) k)) [0, 1, 2, 5, 4, 3, 3]) [] init_gbn_socket = Inr (buf', sock) \<and>
     log_fields sock = Inl OutOfBounds"
proof -
  have "\<forall>k. length ((\<lambda>_. [7 :: byte]) (k :: nat)) \<le> DEFAULT_PACKET_SIZE" by (simp add: DEFAULT_PACKET_SIZE_def)
  from log_reads_outside [OF this, of "[0, 1, 2, 5, 4, 3, 3]" "[]"]
  obtain buf' sock where r: "read_thread (map (\<lambda>k. Some (data_datagram (\<lambda>_. [7]) k)) [0, 1, 2, 5, 4, 3, 3]) [] init_gbn_socket = Inr (buf', sock)"
    "length (gs_receive_buffer sock) = fst (snd (sr_run [0, 1, 2, 5, 4, 3, 3] (0, {})))"
    "log_fields sock = Inl OutOfBounds \<longleftrightarrow> 6 \<le> length (gs_receive_buffer sock)"
    by auto
  have "fst (snd (sr_run [0, 1, 2, 5, 4, 3, 3] (0, {}))) = 6" by code_simp
  then show ?thesis using r by auto
qed

section \<open>The deadline of the wait\<close>

text \<open>Seconds and nanoseconds, and how many milliseconds later; the 64 bits of a \<^verbatim>\<open>long\<close> are enough for them.\<close>

definition millis_in_future :: "int \<times> int \<Rightarrow> int \<Rightarrow> int \<times> int" where
  "millis_in_future ts millis =
     (let nsec = snd ts + millis * 1000000 in (fst ts + nsec div 1000000000, nsec mod 1000000000))"

lemma millis_in_future_time:
  "0 \<le> snd (millis_in_future ts millis) \<and> snd (millis_in_future ts millis) < 1000000000 \<and>
     fst (millis_in_future ts millis) * 1000000000 + snd (millis_in_future ts millis) =
       fst ts * 1000000000 + snd ts + millis * 1000000"
  by (simp add: millis_in_future_def Let_def algebra_simps)

end
