(* ===== verification/LsPacket.thy ===== *)
theory LsPacket
  imports Prelude
begin

text \<open>
  The link-state packets of \<^verbatim>\<open>PA3/router.h\<close> and their wire format, \<^verbatim>\<open>serialize\<close> and
  \<^verbatim>\<open>deserialize\<close> of \<^verbatim>\<open>PA3/router.c\<close>: seven bytes of header, then a pair of bytes for
  each entry.  The buffers are byte lists of the caller's size; every access is checked against
  the array it goes to.
\<close>

section \<open>The packet\<close>

definition MAX_NUM_ROUTERS :: nat where
  "MAX_NUM_ROUTERS = 32"

definition LS_PACKET_OVERHEAD :: nat where
  "LS_PACKET_OVERHEAD = 7"

record ls_packet =
  pkt_origin :: byte
  pkt_should_close :: byte
  pkt_num_entries :: byte
  pkt_seq_num :: u32
  pkt_dest_id :: "byte list"
  pkt_cost :: "byte list"

text \<open>The two arrays have their declared length.\<close>

definition pkt_shape :: "ls_packet \<Rightarrow> bool" where
  "pkt_shape p \<longleftrightarrow> length (pkt_dest_id p) = MAX_NUM_ROUTERS \<and> length (pkt_cost p) = MAX_NUM_ROUTERS"

text \<open>The destination and cost pairs that count.\<close>

definition pkt_entries :: "ls_packet \<Rightarrow> (byte \<times> byte) list" where
  "pkt_entries p = take (unat (pkt_num_entries p)) (zip (pkt_dest_id p) (pkt_cost p))"

text \<open>A packet that \<^verbatim>\<open>memset\<close> has zeroed.\<close>

definition zero_packet :: ls_packet where
  "zero_packet = \<lparr>pkt_origin = 0, pkt_should_close = 0, pkt_num_entries = 0, pkt_seq_num = 0,
     pkt_dest_id = replicate MAX_NUM_ROUTERS 0, pkt_cost = replicate MAX_NUM_ROUTERS 0\<rparr>"

section \<open>serialize\<close>

text \<open>The stores of a constant number of header bytes, one after the other.\<close>

fun arr_set_all :: "byte list \<Rightarrow> int \<Rightarrow> byte list \<Rightarrow> byte list result" where
  "arr_set_all out i [] = Inr out"
| "arr_set_all out i (b # bs) = bindR (arr_set out i b) (\<lambda>out. arr_set_all out (i + 1) bs)"

text \<open>The loop over the entries: \<open>i\<close> is the loop variable, \<open>k\<close> the rounds left.\<close>

fun serialize_loop :: "ls_packet \<Rightarrow> nat \<Rightarrow> nat \<Rightarrow> byte list \<Rightarrow> byte list result" where
  "serialize_loop p i 0 out = Inr out"
| "serialize_loop p i (Suc k) out =
     bindR (arr_get (pkt_dest_id p) (int i)) (\<lambda>d.
     bindR (arr_set out (2 * int i + int LS_PACKET_OVERHEAD) d) (\<lambda>out.
     bindR (arr_get (pkt_cost p) (int i)) (\<lambda>c.
     bindR (arr_set out (2 * int i + int LS_PACKET_OVERHEAD + 1) c) (\<lambda>out.
     serialize_loop p (Suc i) k out))))"

definition serialize :: "ls_packet \<Rightarrow> byte list \<Rightarrow> (byte \<times> byte list) result" where
  "serialize p out =
     (let tmp = htonl (pkt_seq_num p) in
      bindR (arr_set_all out 0
        [pkt_should_close p, pkt_num_entries p, pkt_origin p,
         ucast (tmp AND 0xFF), ucast (drop_bit 8 tmp AND 0xFF),
         ucast (drop_bit 16 tmp AND 0xFF), ucast (drop_bit 24 tmp AND 0xFF)]) (\<lambda>out.
      bindR (serialize_loop p 0 (unat (pkt_num_entries p)) out) (\<lambda>out.
      Inr (of_nat (LS_PACKET_OVERHEAD + 2 * unat (pkt_num_entries p)), out))))"

section \<open>deserialize\<close>

fun deserialize_loop :: "byte list \<Rightarrow> nat \<Rightarrow> nat \<Rightarrow> ls_packet \<Rightarrow> ls_packet result" where
  "deserialize_loop inb i 0 p = Inr p"
| "deserialize_loop inb i (Suc k) p =
     bindR (arr_get inb (2 * int i + int LS_PACKET_OVERHEAD)) (\<lambda>d.
     bindR (arr_set (pkt_dest_id p) (int i) d) (\<lambda>ds.
     bindR (arr_get inb (2 * int i + int LS_PACKET_OVERHEAD + 1)) (\<lambda>c.
     bindR (arr_set (pkt_cost p) (int i) c) (\<lambda>cs.
     deserialize_loop inb (Suc i) k (p\<lparr>pkt_dest_id := ds, pkt_cost := cs\<rparr>)))))"

text \<open>
  The first seven bytes, read one by one; the shifted bytes of the sequence number are combined
  as the 32-bit pattern the code stores in \<^verbatim>\<open>tmp\<close>.
\<close>

definition deserialize :: "ls_packet \<Rightarrow> byte list \<Rightarrow> ls_packet result" where
  "deserialize p inb =
     bindR (arr_get inb 0) (\<lambda>sc.
     bindR (arr_get inb 1) (\<lambda>ne.
     bindR (arr_get inb 2) (\<lambda>og.
     bindR (arr_get inb 3) (\<lambda>b3.
     bindR (arr_get inb 4) (\<lambda>b4.
     bindR (arr_get inb 5) (\<lambda>b5.
     bindR (arr_get inb 6) (\<lambda>b6.
     let tmp = ucast b3 OR push_bit 8 (ucast b4) OR push_bit 16 (ucast b5)
                 OR push_bit 24 (ucast b6) in
     deserialize_loop inb 0 (unat ne)
       (p\<lparr>pkt_should_close := sc, pkt_num_entries := ne, pkt_origin := og,
          pkt_seq_num := ntohl tmp\<rparr>))))))))"

section \<open>The bytes written\<close>

definition pair_bytes :: "(byte \<times> byte) list \<Rightarrow> byte list" where
  "pair_bytes es = concat (map (\<lambda>(d, c). [d, c]) es)"

definition wire_header :: "ls_packet \<Rightarrow> byte list" where
  "wire_header p = [pkt_should_close p, pkt_num_entries p, pkt_origin p] @
     store_u32 (htonl (pkt_seq_num p))"

definition wire_format :: "ls_packet \<Rightarrow> byte list" where
  "wire_format p = wire_header p @ pair_bytes (pkt_entries p)"

section \<open>What the two functions compute\<close>

lemma length_pair_bytes [simp]: "length (pair_bytes es) = 2 * length es"
  by (induction es) (auto simp: pair_bytes_def)

lemma length_wire_header [simp]: "length (wire_header p) = LS_PACKET_OVERHEAD"
  by (simp add: wire_header_def LS_PACKET_OVERHEAD_def)

lemma pair_bytes_Cons [simp]: "pair_bytes ((d, c) # es) = d # c # pair_bytes es"
 and pair_bytes_Nil [simp]: "pair_bytes [] = []"
  by (simp_all add: pair_bytes_def)

text \<open>A buffer with the bytes from index \<open>i\<close> on overwritten.\<close>

definition overlay :: "byte list \<Rightarrow> nat \<Rightarrow> byte list \<Rightarrow> byte list" where
  "overlay out i bs = take i out @ bs @ drop (i + length bs) out"

lemma overlay_Nil [simp]: "overlay out i [] = out" by (simp add: overlay_def)

lemma length_overlay: "i + length bs \<le> length out \<Longrightarrow> length (overlay out i bs) = length out"
  by (simp add: overlay_def)

lemma overlay_Cons: "i + length (b # bs) \<le> length out \<Longrightarrow> overlay out i (b # bs) = overlay (out[i := b]) (Suc i) bs"
  apply (simp add: overlay_def)
  apply (simp add: take_Suc_conv_app_nth upd_conv_take_nth_drop take_update_swap)
  done
lemma overlay_Cons': "i + length (b # bs) \<le> length out \<Longrightarrow> overlay (out[i := b]) (Suc i) bs = overlay out i (b # bs)"
  using overlay_Cons by metis

lemma arr_set_all_in:
  "i + length bs \<le> length out \<Longrightarrow> arr_set_all out (int i) bs = Inr (overlay out i bs)"
proof (induction bs arbitrary: out i)
  case (Cons b bs)
  have "arr_set_all (out[i := b]) (int i + 1) bs = Inr (overlay (out[i := b]) (Suc i) bs)"
    using Cons.IH [of "Suc i" "out[i := b]"] Cons.prems by (simp add: add.commute)
  with Cons.prems show ?case by (simp add: overlay_Cons)
qed simp

lemma serialize_loop_in:
  assumes "pkt_shape p" "i + k \<le> MAX_NUM_ROUTERS" "LS_PACKET_OVERHEAD + 2 * (i + k) \<le> length out"
  shows "serialize_loop p i k out = Inr (overlay out (LS_PACKET_OVERHEAD + 2 * i) 
     (pair_bytes (take k (drop i (zip (pkt_dest_id p) (pkt_cost p))))))"
  using assms(2,3)
proof (induction k arbitrary: i out)
  case (Suc k)
  let ?es = "zip (pkt_dest_id p) (pkt_cost p)"
  have len: "length (pkt_dest_id p) = 32" "length (pkt_cost p) = 32" using assms(1) by (simp_all add: pkt_shape_def MAX_NUM_ROUTERS_def)
  have i: "i < 32" using Suc.prems by (simp add: MAX_NUM_ROUTERS_def)
  have d: "drop i ?es = (pkt_dest_id p ! i, pkt_cost p ! i) # drop (Suc i) ?es"
    using len i by (subst Cons_nth_drop_Suc [symmetric]) auto
  have n1: "nat (2 * int i + int LS_PACKET_OVERHEAD) = LS_PACKET_OVERHEAD + 2 * i"
    "nat (2 * int i + int LS_PACKET_OVERHEAD + 1) = Suc (LS_PACKET_OVERHEAD + 2 * i)"
    by simp_all
  have l: "length (pair_bytes (take k (drop (Suc i) ?es))) = 2 * k"
    using len Suc.prems by (simp add: MAX_NUM_ROUTERS_def)
  have IH: "serialize_loop p (Suc i) k (out[LS_PACKET_OVERHEAD + 2 * i := pkt_dest_id p ! i, Suc (LS_PACKET_OVERHEAD + 2 * i) := pkt_cost p ! i])
    = Inr (overlay (out[LS_PACKET_OVERHEAD + 2 * i := pkt_dest_id p ! i, Suc (LS_PACKET_OVERHEAD + 2 * i) := pkt_cost p ! i]) (Suc (Suc (LS_PACKET_OVERHEAD + 2 * i))) (pair_bytes (take k (drop (Suc i) ?es))))"
    using Suc.IH [of "Suc i" "out[LS_PACKET_OVERHEAD + 2 * i := pkt_dest_id p ! i, Suc (LS_PACKET_OVERHEAD + 2 * i) := pkt_cost p ! i]"] Suc.prems by simp
  show ?case
    using Suc.prems len i
    by (simp add: n1 IH d overlay_Cons' l)
qed simp

lemma ucast_and_FF [simp]: "(ucast (x AND 0xFF) :: byte) = ucast (x :: u32)"
proof (rule bit_word_eqI)
  fix n assume "n < LENGTH(8)"
  then show "bit (ucast (x AND 0xFF) :: byte) n = bit (ucast x :: byte) n"
    unfolding bit_ucast_iff bit_and_iff bit_byte_masks by simp
qed

lemma length_pkt_entries: "pkt_shape p \<Longrightarrow> unat (pkt_num_entries p) \<le> MAX_NUM_ROUTERS \<Longrightarrow> length (pkt_entries p) = unat (pkt_num_entries p)"
  by (simp add: pkt_entries_def pkt_shape_def)

lemma serialize_in_bounds:
  assumes "pkt_shape p" and "unat (pkt_num_entries p) \<le> MAX_NUM_ROUTERS"
    and "LS_PACKET_OVERHEAD + 2 * unat (pkt_num_entries p) \<le> length out"
  shows "\<exists>n. serialize p out = Inr (n, wire_format p @ drop (length (wire_format p)) out) \<and> unat n = length (wire_format p)"
proof -
  let ?n = "unat (pkt_num_entries p)"
  have hdr: "arr_set_all out 0
        [pkt_should_close p, pkt_num_entries p, pkt_origin p,
         ucast (htonl (pkt_seq_num p)), ucast (drop_bit 8 (htonl (pkt_seq_num p))),
         ucast (drop_bit 16 (htonl (pkt_seq_num p))), ucast (drop_bit 24 (htonl (pkt_seq_num p)))]
      = Inr (overlay out 0 (wire_header p))"
    using arr_set_all_in [of 0 "wire_header p" out] assms(3)
    by (simp add: wire_header_def store_u32_def LS_PACKET_OVERHEAD_def)
  have len: "length (overlay out 0 (wire_header p)) = length out"
    using assms(3) by (intro length_overlay) simp
  have loop: "serialize_loop p 0 ?n (overlay out 0 (wire_header p))
     = Inr (overlay (overlay out 0 (wire_header p)) LS_PACKET_OVERHEAD (pair_bytes (pkt_entries p)))"
    using serialize_loop_in [of p 0 ?n "overlay out 0 (wire_header p)"] assms len by (simp add: pkt_entries_def)
  have ll: "length (wire_format p) = LS_PACKET_OVERHEAD + 2 * ?n"
    using assms by (simp add: wire_format_def length_pkt_entries)
  have "overlay (overlay out 0 (wire_header p)) LS_PACKET_OVERHEAD (pair_bytes (pkt_entries p)) = wire_format p @ drop (length (wire_format p)) out"
    using assms(3) unfolding ll by (simp add: overlay_def wire_format_def length_pkt_entries assms add.commute)
  moreover have "unat (of_nat (LS_PACKET_OVERHEAD + 2 * ?n) :: byte) = LS_PACKET_OVERHEAD + 2 * ?n"
    using assms(2) unfolding unat_of_nat by (simp add: LS_PACKET_OVERHEAD_def MAX_NUM_ROUTERS_def)
  ultimately show ?thesis
    using hdr loop ll by (simp add: serialize_def Let_def del: of_nat_add)
qed

lemma deserialize_loop_in:
  assumes "pkt_shape p" "i + k \<le> MAX_NUM_ROUTERS" "LS_PACKET_OVERHEAD + 2 * (i + k) \<le> length inb"
  shows "deserialize_loop inb i k p = Inr (p\<lparr>
     pkt_dest_id := map (\<lambda>j. if i \<le> j \<and> j < i + k then inb ! (LS_PACKET_OVERHEAD + 2 * j) else pkt_dest_id p ! j) [0..<MAX_NUM_ROUTERS],
     pkt_cost := map (\<lambda>j. if i \<le> j \<and> j < i + k then inb ! Suc (LS_PACKET_OVERHEAD + 2 * j) else pkt_cost p ! j) [0..<MAX_NUM_ROUTERS]\<rparr>)"
  using assms
proof (induction k arbitrary: i p)
  case 0
  then have "map ((!) (pkt_dest_id p)) [0..<MAX_NUM_ROUTERS] = pkt_dest_id p"
    "map ((!) (pkt_cost p)) [0..<MAX_NUM_ROUTERS] = pkt_cost p"
    by (metis map_nth pkt_shape_def)+
  moreover have "(i \<le> j \<and> j < i + 0) = False" for j by auto
  ultimately show ?case by (simp only: if_False) simp
next
  case (Suc k)
  have len: "length (pkt_dest_id p) = 32" "length (pkt_cost p) = 32" using Suc.prems(1) by (simp_all add: pkt_shape_def MAX_NUM_ROUTERS_def)
  have i: "i < 32" using Suc.prems by (simp add: MAX_NUM_ROUTERS_def)
  have n1: "nat (2 * int i + int LS_PACKET_OVERHEAD) = LS_PACKET_OVERHEAD + 2 * i"
    "nat (2 * int i + int LS_PACKET_OVERHEAD + 1) = Suc (LS_PACKET_OVERHEAD + 2 * i)"
    by simp_all
  let ?d = "inb ! (LS_PACKET_OVERHEAD + 2 * i)" let ?c = "inb ! Suc (LS_PACKET_OVERHEAD + 2 * i)"
  let ?p = "p\<lparr>pkt_dest_id := (pkt_dest_id p)[i := ?d], pkt_cost := (pkt_cost p)[i := ?c]\<rparr>"
  have sh: "pkt_shape ?p" using Suc.prems(1) by (simp add: pkt_shape_def)
  have m: "map (\<lambda>j. if Suc i \<le> j \<and> j < Suc i + k then f j else xs[i := f i] ! j) [0..<MAX_NUM_ROUTERS]
    = map (\<lambda>j. if i \<le> j \<and> j < i + Suc k then f j else xs ! j) [0..<MAX_NUM_ROUTERS]" 
    if "length xs = 32" for f :: "nat \<Rightarrow> byte" and xs
    using that i by (auto simp: nth_list_update MAX_NUM_ROUTERS_def)
  show ?case
    using Suc.prems len i Suc.IH [of ?p "Suc i", OF sh]
      m [of "pkt_dest_id p" "\<lambda>j. inb ! (LS_PACKET_OVERHEAD + 2 * j)"]
      m [of "pkt_cost p" "\<lambda>j. inb ! Suc (LS_PACKET_OVERHEAD + 2 * j)"]
    by (simp add: n1 cong: if_cong)
qed


lemma nth_pair_bytes:
  "j < length es \<Longrightarrow> pair_bytes es ! (2 * j) = fst (es ! j) \<and> pair_bytes es ! Suc (2 * j) = snd (es ! j)"
proof (induction es arbitrary: j)
  case (Cons e es)
  then show ?case by (cases j; cases e) auto
qed simp

lemma wire_format_nth:
  assumes "pkt_shape p" and "unat (pkt_num_entries p) \<le> MAX_NUM_ROUTERS" and "j < unat (pkt_num_entries p)"
  shows "(wire_format p @ rest) ! (LS_PACKET_OVERHEAD + 2 * j) = pkt_dest_id p ! j"
   and "(wire_format p @ rest) ! Suc (LS_PACKET_OVERHEAD + 2 * j) = pkt_cost p ! j"
  using assms nth_pair_bytes [of j "pkt_entries p"]
  by (simp_all add: wire_format_def nth_append length_pkt_entries pkt_entries_def pkt_shape_def)

lemma deserialize_wire_format:
  assumes "pkt_shape p" and "unat (pkt_num_entries p) \<le> MAX_NUM_ROUTERS" and "pkt_shape p0"
  shows "\<exists>p'. deserialize p0 (wire_format p @ rest) = Inr p' \<and> pkt_shape p' \<and>
    pkt_origin p' = pkt_origin p \<and> pkt_should_close p' = pkt_should_close p \<and>
    pkt_seq_num p' = pkt_seq_num p \<and> pkt_num_entries p' = pkt_num_entries p \<and> pkt_entries p' = pkt_entries p"
proof -
  let ?n = "unat (pkt_num_entries p)"
  let ?in = "wire_format p @ rest"
  let ?q = "p0\<lparr>pkt_should_close := pkt_should_close p, pkt_num_entries := pkt_num_entries p,
     pkt_origin := pkt_origin p, pkt_seq_num := pkt_seq_num p\<rparr>"
  have len: "LS_PACKET_OVERHEAD + 2 * ?n \<le> length ?in"
    using assms by (simp add: wire_format_def length_pkt_entries)
  have hd: "?in = [pkt_should_close p, pkt_num_entries p, pkt_origin p] @ store_u32 (htonl (pkt_seq_num p)) @ pair_bytes (pkt_entries p) @ rest"
    by (simp add: wire_format_def wire_header_def)
  have seq: "ntohl (ucast (?in ! 3) OR push_bit 8 (ucast (?in ! 4)) OR push_bit 16 (ucast (?in ! 5)) OR push_bit 24 (ucast (?in ! 6)))
     = pkt_seq_num p"
    using load_store_u32 [of "htonl (pkt_seq_num p)" "[]"]
    unfolding hd by (simp add: load_u32_def store_u32_def)
  have sh: "pkt_shape ?q" using assms(3) by (simp add: pkt_shape_def)
  define p' where "p' = ?q\<lparr>
      pkt_dest_id := map (\<lambda>j. if j < ?n then pkt_dest_id p ! j else pkt_dest_id p0 ! j)
        [0..<MAX_NUM_ROUTERS],
      pkt_cost := map (\<lambda>j. if j < ?n then pkt_cost p ! j else pkt_cost p0 ! j)
        [0..<MAX_NUM_ROUTERS]\<rparr>"
  have p': "deserialize_loop ?in 0 ?n ?q = Inr p'"
    using deserialize_loop_in [OF sh, of 0 ?n ?in] assms(2) len
    by (simp add: p'_def wire_format_nth [OF assms(1,2)] cong: if_cong)
  have fs: "pkt_shape p'" "pkt_num_entries p' = pkt_num_entries p"
    by (simp_all add: p'_def pkt_shape_def)
  have "deserialize p0 ?in = deserialize_loop ?in 0 ?n ?q"
    using seq len by (simp add: deserialize_def Let_def LS_PACKET_OVERHEAD_def)
      (simp add: hd)
  moreover have "pkt_entries p' = pkt_entries p"
    using assms fs
    by (intro nth_equalityI) (auto simp: p'_def length_pkt_entries pkt_entries_def pkt_shape_def)
  ultimately show ?thesis using p' fs by (simp add: p'_def)
qed

lemma deserialize_loop_overflow:
  "pkt_shape p \<Longrightarrow> i \<le> MAX_NUM_ROUTERS \<Longrightarrow> MAX_NUM_ROUTERS < i + k \<Longrightarrow> deserialize_loop inb i k p = Inl OutOfBounds"
proof (induction k arbitrary: i p)
  case (Suc k)
  show ?case
  proof (cases "i = MAX_NUM_ROUTERS")
    case True
    with Suc.prems show ?thesis
      by (simp add: arr_get_def arr_set_def pkt_shape_def)
  next
    case False
    have "deserialize_loop inb (Suc i) k (p\<lparr>pkt_dest_id := (pkt_dest_id p)[i := d], pkt_cost := (pkt_cost p)[i := c]\<rparr>) = Inl OutOfBounds" for d c
      using Suc.prems False by (intro Suc.IH) (auto simp: pkt_shape_def)
    with Suc.prems False show ?thesis
      by (simp add: arr_get_def arr_set_def pkt_shape_def)
  qed
qed simp

lemma deserialize_too_many:
  assumes "pkt_shape p" and "MAX_NUM_ROUTERS < unat (inb ! 1)"
  shows "deserialize p inb = Inl OutOfBounds"
proof -
  have "deserialize_loop inb 0 (unat (inb ! 1)) q = Inl OutOfBounds" if "pkt_shape q" for q
    using that assms(2) by (intro deserialize_loop_overflow) auto
  with assms(1) show ?thesis
    by (simp add: deserialize_def arr_get_def Let_def pkt_shape_def)
qed

text \<open>A packet of two entries, for the instances below.\<close>

definition example_packet :: ls_packet where
  "example_packet = \<lparr>pkt_origin = 65, pkt_should_close = 0, pkt_num_entries = 2, pkt_seq_num = 258,
     pkt_dest_id = [66, 67] @ replicate 30 0, pkt_cost = [4, 1] @ replicate 30 0\<rparr>"

lemma example_packet_ok:
  "pkt_shape example_packet" "pkt_shape zero_packet"
  "unat (pkt_num_entries example_packet) \<le> MAX_NUM_ROUTERS"
  "LS_PACKET_OVERHEAD + 2 * unat (pkt_num_entries example_packet) \<le> length (replicate 254 (0 :: byte))"
  by (simp_all add: pkt_shape_def example_packet_def zero_packet_def MAX_NUM_ROUTERS_def
      LS_PACKET_OVERHEAD_def)

text \<open>
  On a packet of at most 32 entries and a buffer large enough, \<^verbatim>\<open>serialize\<close> writes exactly
  the wire format (close flag, entry count, origin, the sequence number with its most significant
  byte first, then the pairs), leaves the rest of the buffer alone and returns the number of bytes
  written, which its one-byte result can hold.
\<close>

lemma serialize_wire_format:
  assumes "pkt_shape p" and "unat (pkt_num_entries p) \<le> MAX_NUM_ROUTERS"
    and "LS_PACKET_OVERHEAD + 2 * unat (pkt_num_entries p) \<le> length out"
  shows "\<exists>n. serialize p out = Inr (n, wire_format p @ drop (length (wire_format p)) out) \<and>
    unat n = length (wire_format p)"
  by (rule serialize_in_bounds [OF assms])

lemma serialize_wire_format_example:
  "wire_format example_packet = [0, 2, 65, 0, 0, 1, 2, 66, 4, 67, 1] \<and>
   (\<exists>n. serialize example_packet (replicate 254 0)
        = Inr (n, wire_format example_packet @
            drop (length (wire_format example_packet)) (replicate 254 0)) \<and>
      unat n = length (wire_format example_packet))"
proof -
  have "wire_format example_packet = [0, 2, 65, 0, 0, 1, 2, 66, 4, 67, 1]"
    by (simp add: wire_format_def wire_header_def pair_bytes_def pkt_entries_def
        example_packet_def store_u32_def htonl_def)
  then show ?thesis
    using serialize_wire_format [OF example_packet_ok(1,3,4)] by simp
qed

text \<open>
  C33. Round trip: what \<^verbatim>\<open>serialize\<close> wrote, \<^verbatim>\<open>deserialize\<close> reads back, into any packet
  variable: origin, close flag, sequence number, entry count and all entries are those of the
  packet sent.
\<close>

theorem ls_packet_roundtrip:
  assumes "pkt_shape p" and "unat (pkt_num_entries p) \<le> MAX_NUM_ROUTERS"
    and "LS_PACKET_OVERHEAD + 2 * unat (pkt_num_entries p) \<le> length out"
    and "pkt_shape p0" and "serialize p out = Inr (n, out')"
  shows "\<exists>p'. deserialize p0 out' = Inr p' \<and> pkt_shape p' \<and>
    pkt_origin p' = pkt_origin p \<and> pkt_should_close p' = pkt_should_close p \<and>
    pkt_seq_num p' = pkt_seq_num p \<and> pkt_num_entries p' = pkt_num_entries p \<and>
    pkt_entries p' = pkt_entries p"
proof -
  obtain m where "serialize p out = Inr (m, wire_format p @ drop (length (wire_format p)) out)"
    using serialize_in_bounds [OF assms(1-3)] by blast
  with assms(5) have "out' = wire_format p @ drop (length (wire_format p)) out" by simp
  with deserialize_wire_format [OF assms(1,2,4)] show ?thesis by simp
qed

theorem ls_packet_roundtrip_witness:
  "\<exists>n out' p'. serialize example_packet (replicate 254 0) = Inr (n, out') \<and>
     deserialize zero_packet out' = Inr p' \<and> pkt_seq_num p' = 258 \<and>
     pkt_entries p' = [(66, 4), (67, 1)]"
proof -
  obtain n out' where s: "serialize example_packet (replicate 254 0) = Inr (n, out')"
    using serialize_in_bounds [OF example_packet_ok(1,3,4)] by blast
  show ?thesis
    using ls_packet_roundtrip [OF example_packet_ok(1,3,4,2) s] s
    by (auto simp: example_packet_def pkt_entries_def)
qed

text \<open>
  \<^verbatim>\<open>deserialize\<close> trusts the entry count of the sender: whatever the input is, a count above
  32 makes it leave the defined behaviour of C, with a write past the array \<^verbatim>\<open>dest_id\<close> of the
  packet or a read past the input.
\<close>

lemma deserialize_overflow:
  assumes "pkt_shape p" and "MAX_NUM_ROUTERS < unat (inb ! 1)"
  shows "deserialize p inb = Inl OutOfBounds"
  by (rule deserialize_too_many [OF assms])

lemma deserialize_overflow_example:
  "deserialize zero_packet (0 # 33 # replicate 252 0) = Inl OutOfBounds"
  by (rule deserialize_overflow [OF example_packet_ok(2)]) (simp add: MAX_NUM_ROUTERS_def)

end
