(* ===== verification/Router.thy ===== *)
theory Router
  imports LsPacket
begin

text \<open>
  The state of a link-state router and the operations of \<^verbatim>\<open>PA3/router.c\<close> that work on it:
  the lookups, the choice of the cheapest link and \<^verbatim>\<open>update_routing_table\<close>, which stores a
  packet and recomputes the forwarding table with Dijkstra's algorithm.  Pointers into the arrays
  of the router are indices, the null pointer is \<open>None\<close>; the packet of an entry belongs to that
  entry alone.  \<^verbatim>\<open>int16_t\<close> values are words read with \<open>sint\<close>.
\<close>

section \<open>State\<close>

record routing_entry =
  re_dest_id :: byte
  re_gateway_idx :: byte
  re_cost :: u16
  re_packet :: "ls_packet option"

record neighbor =
  nb_node_id :: byte
  nb_outgoing_tcp_port :: u16
  nb_dest_tcp_port :: u16
  nb_cost :: byte
  nb_serv_fd :: int
  nb_sock_fd :: int

record ls_set =
  set_num_routers :: byte
  set_id :: "byte list"

record ls_link =
  link_src :: byte
  link_dest :: byte
  link_cost :: u16

record router =
  m_id :: byte
  m_seq_num :: u32
  m_num_destinations :: byte
  m_destinations :: "routing_entry list"
  m_routing_table :: "byte list"
  m_num_neighbors :: byte
  m_neighbors_table :: "neighbor list"

section \<open>Lookups\<close>

text \<open>The routing table has 255 entries, so the node 255 is out of range.\<close>

definition Router_GetRoutingEntryForNode :: "router \<Rightarrow> byte \<Rightarrow> byte option result" where
  "Router_GetRoutingEntryForNode r node =
     bindR (arr_get (m_routing_table r) (uint node)) (\<lambda>dest.
     Inr (if m_num_destinations r < dest then None else Some dest))"

definition Router_GetNeighborForRoutingEntry :: "router \<Rightarrow> routing_entry \<Rightarrow> byte option" where
  "Router_GetNeighborForRoutingEntry r e =
     (if m_num_neighbors r < re_gateway_idx e then None else Some (re_gateway_idx e))"

text \<open>A dereferenced entry pointer: the null pointer is an error.\<close>

definition entry_at :: "router \<Rightarrow> byte option \<Rightarrow> routing_entry result" where
  "entry_at r ptr =
     (case ptr of None \<Rightarrow> Inl NullDeref | Some i \<Rightarrow> arr_get (m_destinations r) (uint i))"

definition update_entry ::
    "router \<Rightarrow> byte \<Rightarrow> (routing_entry \<Rightarrow> routing_entry) \<Rightarrow> router result" where
  "update_entry r i f =
     bindR (arr_get (m_destinations r) (uint i)) (\<lambda>e.
     bindR (arr_set (m_destinations r) (uint i) (f e)) (\<lambda>ds.
     Inr (r\<lparr>m_destinations := ds\<rparr>)))"

text \<open>The loop returns 0 or 1 in its first round: the two \<^verbatim>\<open>return\<close>s are in its body.\<close>

definition packet_has_update :: "ls_packet \<Rightarrow> ls_packet \<Rightarrow> bool result" where
  "packet_has_update orig incoming =
     (if pkt_seq_num orig < pkt_seq_num incoming then
        (if pkt_num_entries incoming = pkt_num_entries orig then
           (if 0 < pkt_num_entries incoming then
              bindR (arr_get (pkt_dest_id incoming) 0) (\<lambda>di.
              bindR (arr_get (pkt_dest_id orig) 0) (\<lambda>do.
              if di = do then
                bindR (arr_get (pkt_cost incoming) 0) (\<lambda>ci.
                bindR (arr_get (pkt_cost orig) 0) (\<lambda>co.
                Inr (ci \<noteq> co)))
              else Inr True))
            else Inr True)
         else Inr True)
      else Inr False)"

fun set_has_node_loop :: "byte list \<Rightarrow> byte \<Rightarrow> nat \<Rightarrow> nat \<Rightarrow> bool result" where
  "set_has_node_loop ids node i 0 = Inr False"
| "set_has_node_loop ids node i (Suc k) =
     bindR (arr_get ids (int i)) (\<lambda>x.
     if x = node then Inr True else set_has_node_loop ids node (Suc i) k)"

definition set_has_node :: "ls_set \<Rightarrow> byte \<Rightarrow> bool result" where
  "set_has_node s node = set_has_node_loop (set_id s) node 0 (unat (set_num_routers s))"

fun get_neighbor_idx_loop :: "neighbor list \<Rightarrow> byte \<Rightarrow> nat \<Rightarrow> nat \<Rightarrow> byte result" where
  "get_neighbor_idx_loop nbs node i 0 = Inl AssertFailed"
| "get_neighbor_idx_loop nbs node i (Suc k) =
     bindR (arr_get nbs (int i)) (\<lambda>nb.
     if nb_node_id nb = node then Inr (of_nat i) else get_neighbor_idx_loop nbs node (Suc i) k)"

definition get_neighbor_idx :: "router \<Rightarrow> byte \<Rightarrow> byte result" where
  "get_neighbor_idx r node =
     get_neighbor_idx_loop (m_neighbors_table r) node 0 (unat (m_num_neighbors r))"

definition get_gateway_idx :: "router \<Rightarrow> ls_link \<Rightarrow> byte result" where
  "get_gateway_idx r l =
     (if link_src l = m_id r then get_neighbor_idx r (link_dest l)
      else bindR (Router_GetRoutingEntryForNode r (link_src l)) (\<lambda>ptr.
           bindR (entry_at r ptr) (\<lambda>e. Inr (re_gateway_idx e))))"

fun rebuild_loop :: "routing_entry list \<Rightarrow> nat \<Rightarrow> nat \<Rightarrow> byte list \<Rightarrow> byte list result" where
  "rebuild_loop ds i 0 tbl = Inr tbl"
| "rebuild_loop ds i (Suc k) tbl =
     bindR (arr_get ds (int i)) (\<lambda>e.
     bindR (arr_set tbl (uint (re_dest_id e)) (of_nat i)) (\<lambda>tbl.
     rebuild_loop ds (Suc i) k tbl))"

definition rebuild_routing_table :: "router \<Rightarrow> router result" where
  "rebuild_routing_table r =
     bindR (rebuild_loop (m_destinations r) 0 (unat (m_num_destinations r)) (replicate 255 0xFF))
       (\<lambda>tbl. Inr (r\<lparr>m_routing_table := tbl\<rparr>))"

section \<open>The cheapest link\<close>

text \<open>
  \<^verbatim>\<open>total_cost\<close> is unsigned, the cost of the link so far signed: the comparison is on the
  promoted integers.
\<close>

definition set_shortest :: "ls_link \<Rightarrow> byte \<Rightarrow> byte \<Rightarrow> u16 \<Rightarrow> ls_link" where
  "set_shortest sh src dest total_cost =
     (if sint (link_cost sh) = -1 then
        \<lparr>link_src = src, link_dest = dest, link_cost = total_cost\<rparr>
      else if uint total_cost < sint (link_cost sh) \<or>
          (uint total_cost = sint (link_cost sh) \<and> src < link_src sh) \<or>
          (uint total_cost = sint (link_cost sh) \<and> src = link_src sh \<and> dest < link_dest sh) then
        \<lparr>link_src = src, link_dest = dest, link_cost = total_cost\<rparr>
      else sh)"

definition set_shortest_neighbor :: "router \<Rightarrow> ls_link \<Rightarrow> nat \<Rightarrow> ls_link result" where
  "set_shortest_neighbor r sh i =
     bindR (arr_get (m_neighbors_table r) (int i)) (\<lambda>nb.
     Inr (set_shortest sh (m_id r) (nb_node_id nb) (ucast (nb_cost nb))))"

definition set_shortest_distant ::
    "router \<Rightarrow> ls_link \<Rightarrow> byte \<Rightarrow> ls_packet \<Rightarrow> nat \<Rightarrow> ls_link result" where
  "set_shortest_distant r sh src p i =
     bindR (arr_get (pkt_cost p) (int i)) (\<lambda>c.
     let node_cost = (ucast c :: u16) in
     if sint node_cost = -1 then Inr sh
     else
       bindR (arr_get (pkt_dest_id p) (int i)) (\<lambda>dest.
       bindR (Router_GetRoutingEntryForNode r src) (\<lambda>ptr.
       bindR (entry_at r ptr) (\<lambda>e.
       Inr (set_shortest sh src dest (node_cost + re_cost e))))))"

text \<open>The two inner loops of \<^verbatim>\<open>update_routing_table\<close>.\<close>

fun scan_neighbors :: "router \<Rightarrow> ls_set \<Rightarrow> nat \<Rightarrow> nat \<Rightarrow> ls_link \<Rightarrow> ls_link result" where
  "scan_neighbors r cur i 0 sh = Inr sh"
| "scan_neighbors r cur i (Suc k) sh =
     bindR (arr_get (m_neighbors_table r) (int i)) (\<lambda>nb.
     bindR (set_has_node cur (nb_node_id nb)) (\<lambda>b.
     bindR (if \<not> b then set_shortest_neighbor r sh i else Inr sh) (\<lambda>sh.
     scan_neighbors r cur (Suc i) k sh)))"

fun scan_distant ::
    "router \<Rightarrow> ls_set \<Rightarrow> byte \<Rightarrow> ls_packet \<Rightarrow> nat \<Rightarrow> nat \<Rightarrow> ls_link \<Rightarrow> ls_link result" where
  "scan_distant r cur src p i 0 sh = Inr sh"
| "scan_distant r cur src p i (Suc k) sh =
     bindR (arr_get (pkt_dest_id p) (int i)) (\<lambda>d.
     bindR (set_has_node cur d) (\<lambda>b.
     bindR (if \<not> b then set_shortest_distant r sh src p i else Inr sh) (\<lambda>sh.
     scan_distant r cur src p (Suc i) k sh)))"

definition scan_node :: "router \<Rightarrow> ls_set \<Rightarrow> byte \<Rightarrow> ls_link \<Rightarrow> ls_link result" where
  "scan_node r cur node sh =
     (if node = m_id r then scan_neighbors r cur 0 (unat (m_num_neighbors r)) sh
      else
        bindR (Router_GetRoutingEntryForNode r node) (\<lambda>ptr.
        case ptr of None \<Rightarrow> Inr sh
        | Some i \<Rightarrow>
            bindR (entry_at r ptr) (\<lambda>e.
            case re_packet e of None \<Rightarrow> Inr sh
            | Some p \<Rightarrow> scan_distant r cur node p 0 (unat (pkt_num_entries p)) sh)))"

fun scan_set :: "router \<Rightarrow> ls_set \<Rightarrow> nat \<Rightarrow> nat \<Rightarrow> ls_link \<Rightarrow> ls_link result" where
  "scan_set r cur node_index 0 sh = Inr sh"
| "scan_set r cur node_index (Suc k) sh =
     bindR (arr_get (set_id cur) (int node_index)) (\<lambda>node.
     bindR (scan_node r cur node sh) (\<lambda>sh.
     scan_set r cur (Suc node_index) k sh))"

text \<open>\<open>shortest.cost = -1\<close>, the other two fields being whatever they were.\<close>

definition no_link :: "ls_link \<Rightarrow> ls_link" where
  "no_link sh = sh\<lparr>link_cost := -1\<rparr>"

definition find_shortest :: "router \<Rightarrow> ls_set \<Rightarrow> ls_link \<Rightarrow> ls_link result" where
  "find_shortest r cur sh = scan_set r cur 0 (unat (set_num_routers cur)) (no_link sh)"

section \<open>update_routing_table\<close>

definition set_add :: "ls_set \<Rightarrow> byte \<Rightarrow> ls_set result" where
  "set_add cur node =
     (if unat (set_num_routers cur) < MAX_NUM_ROUTERS then
        bindR (arr_set (set_id cur) (uint (set_num_routers cur)) node) (\<lambda>ids.
        Inr (cur\<lparr>set_id := ids, set_num_routers := set_num_routers cur + 1\<rparr>))
      else Inl OutOfBounds)"

text \<open>
  A new entry at the end of \<^verbatim>\<open>_m_destinations\<close>; the fields that \<open>f\<close> does not set keep what
  the array held there.
\<close>

definition push_entry :: "router \<Rightarrow> (routing_entry \<Rightarrow> routing_entry) \<Rightarrow> (byte \<times> router) result" where
  "push_entry r f =
     (let i = m_num_destinations r in
      bindR (update_entry (r\<lparr>m_num_destinations := i + 1\<rparr>) i f) (\<lambda>r.
      bindR (rebuild_routing_table r) (\<lambda>r. Inr (i, r))))"

text \<open>The end of the loop body: the entry of the chosen destination, new or not, is set.\<close>

definition add_destination :: "router \<Rightarrow> ls_link \<Rightarrow> router result" where
  "add_destination r sh =
     bindR (Router_GetRoutingEntryForNode r (link_dest sh)) (\<lambda>ptr.
     bindR (case ptr of Some i \<Rightarrow> Inr (i, r)
            | None \<Rightarrow> push_entry r (\<lambda>e. e\<lparr>re_dest_id := link_dest sh, re_packet := None\<rparr>))
       (\<lambda>(i, r).
     bindR (get_gateway_idx r sh) (\<lambda>g.
     update_entry r i (\<lambda>e. e\<lparr>re_gateway_idx := g, re_cost := link_cost sh\<rparr>))))"

text \<open>The bound of \<^verbatim>\<open>id[MAX_NUM_ROUTERS]\<close>, checked in \<open>set_add\<close>, ends the loop.\<close>

lemma set_add_less:
  "set_add cur node = Inr cur' \<Longrightarrow>
     MAX_NUM_ROUTERS - unat (set_num_routers cur') < MAX_NUM_ROUTERS - unat (set_num_routers cur)"
  by (auto simp: set_add_def bindR_eq_Inr unat_word_ariths MAX_NUM_ROUTERS_def split: if_splits)

function update_loop :: "router \<Rightarrow> ls_set \<Rightarrow> ls_link \<Rightarrow> router result" where
  "update_loop r cur sh =
     (if set_num_routers cur \<le> m_num_destinations r then
        bindR (find_shortest r cur sh) (\<lambda>sh.
        if sint (link_cost sh) = -1 then Inr r
        else
          bindR (set_add cur (link_dest sh)) (\<lambda>cur.
          bindR (add_destination r sh) (\<lambda>r.
          update_loop r cur sh)))
      else Inr r)"
  by pat_completeness auto
termination
  by (relation "measure (\<lambda>(r, cur, sh). MAX_NUM_ROUTERS - unat (set_num_routers cur))")
    (auto intro: set_add_less)

declare update_loop.simps [simp del]

definition start_set :: "router \<Rightarrow> ls_set" where
  "start_set r = \<lparr>set_num_routers = 1, set_id = m_id r # replicate (MAX_NUM_ROUTERS - 1) 0\<rparr>"

text \<open>
  The packet is stored in the entry of its origin.  \<open>None\<close>: it brings nothing new, the function
  returns 0 (a zeroed packet may have been allocated for the entry by then).
\<close>

definition store_packet :: "router \<Rightarrow> ls_packet \<Rightarrow> (router \<times> bool) result" where
  "store_packet r p =
     bindR (Router_GetRoutingEntryForNode r (pkt_origin p)) (\<lambda>ptr.
     case ptr of
       Some i \<Rightarrow>
         bindR (update_entry r i (\<lambda>e. e\<lparr>re_packet :=
           (case re_packet e of None \<Rightarrow> Some zero_packet | Some q \<Rightarrow> Some q)\<rparr>)) (\<lambda>r.
         bindR (entry_at r ptr) (\<lambda>e.
         case re_packet e of None \<Rightarrow> Inl NullDeref
         | Some orig \<Rightarrow>
             bindR (packet_has_update orig p) (\<lambda>b.
             if b then bindR (update_entry r i (\<lambda>e. e\<lparr>re_packet := Some p\<rparr>)) (\<lambda>r. Inr (r, True))
             else Inr (r, False))))
     | None \<Rightarrow>
         bindR (push_entry r (\<lambda>e. e\<lparr>re_dest_id := pkt_origin p, re_cost := -1,
           re_packet := Some p\<rparr>)) (\<lambda>(i, r). Inr (r, True)))"

definition update_routing_table :: "router \<Rightarrow> ls_packet \<Rightarrow> (bool \<times> router) result" where
  "update_routing_table r p =
     (if pkt_origin p = m_id r then Inr (False, r)
      else
        bindR (store_packet r p) (\<lambda>(r, b).
        if b then
          bindR (update_loop r (start_set r) \<lparr>link_src = 0, link_dest = 0, link_cost = -1\<rparr>)
            (\<lambda>r. Inr (True, r))
        else Inr (False, r)))"

end
