(* ===== verification/RouterInv.thy ===== *)
theory RouterInv
  imports Router
begin

text \<open>
  The representation invariant of \<^verbatim>\<open>router_t\<close> and what the lookups and the updates of single
  entries do under it: the routing table is the index of the destinations by their identifier,
  with 255 for the nodes that are none.
\<close>

section \<open>The invariant\<close>

definition dests :: "router \<Rightarrow> routing_entry list" where
  "dests r = take (unat (m_num_destinations r)) (m_destinations r)"

definition dest_ids :: "router \<Rightarrow> byte list" where
  "dest_ids r = map re_dest_id (dests r)"

definition nbrs :: "router \<Rightarrow> neighbor list" where
  "nbrs r = take (unat (m_num_neighbors r)) (m_neighbors_table r)"

text \<open>\<open>ids\<close>: the identifiers of the destinations, in the order of the array.\<close>

definition table_ok :: "byte list \<Rightarrow> byte list \<Rightarrow> bool" where
  "table_ok tbl ids \<longleftrightarrow> length tbl = 255 \<and> 
     (\<forall>i < length ids. tbl ! unat (ids ! i) = of_nat i) \<and>
     (\<forall>k < 255. of_nat k \<notin> set ids \<longrightarrow> tbl ! k = 255)"

definition pkt_ok :: "ls_packet \<Rightarrow> bool" where
  "pkt_ok p \<longleftrightarrow> pkt_shape p \<and> unat (pkt_num_entries p) \<le> MAX_NUM_ROUTERS"

definition packets_ok :: "routing_entry list \<Rightarrow> bool" where
  "packets_ok ds \<longleftrightarrow> (\<forall>e \<in> set ds. \<forall>p. re_packet e = Some p \<longrightarrow> pkt_ok p)"

definition shape_ok :: "router \<Rightarrow> bool" where
  "shape_ok r \<longleftrightarrow> length (m_destinations r) = MAX_NUM_ROUTERS \<and>
     length (m_neighbors_table r) = MAX_NUM_ROUTERS \<and>
     unat (m_num_destinations r) \<le> MAX_NUM_ROUTERS \<and> unat (m_num_neighbors r) \<le> MAX_NUM_ROUTERS"

definition router_inv :: "router \<Rightarrow> bool" where
  "router_inv r \<longleftrightarrow> shape_ok r \<and> distinct (dest_ids r) \<and> 255 \<notin> set (dest_ids r) \<and> m_id r \<notin> set (dest_ids r) \<and>
     table_ok (m_routing_table r) (dest_ids r) \<and> packets_ok (dests r)"

section \<open>Lookups and the rebuilt index\<close>

lemma length_dests: "shape_ok r \<Longrightarrow> length (dests r) = unat (m_num_destinations r)"
  by (simp add: dests_def shape_ok_def)

lemma length_dest_ids: "shape_ok r \<Longrightarrow> length (dest_ids r) = unat (m_num_destinations r)"
  by (simp add: dest_ids_def length_dests)

lemma byte_less_255: "(b::byte) \<noteq> 255 \<Longrightarrow> unat b < 255"
  using unat_byte_less [of b] word_unat_eq_iff [of b 255] by simp

lemma nth_dests: "i < length (dests r) \<Longrightarrow> dests r ! i = m_destinations r ! i"
  by (simp add: dests_def)

lemma lookup_in:
  assumes "router_inv r" "i < length (dests r)"
  shows "Router_GetRoutingEntryForNode r (re_dest_id (dests r ! i)) = Inr (Some (of_nat i))"
proof -
  let ?d = "re_dest_id (dests r ! i)"
  have sh: "shape_ok r" and t: "table_ok (m_routing_table r) (dest_ids r)" using assms(1) by (simp_all add: router_inv_def)
  have "?d \<noteq> 255" using assms(1) nth_mem [OF assms(2)] by (auto simp: router_inv_def dest_ids_def)
  then have lt: "unat ?d < 255" by (rule byte_less_255)
  have "m_routing_table r ! unat ?d = of_nat i"
    using t assms(2) by (auto simp: table_ok_def dest_ids_def)
  moreover have "i < 256" "of_nat i \<le> m_num_destinations r"
    using assms(2) sh unat_byte_less [of "m_num_destinations r"]
    by (simp_all add: length_dests shape_ok_def MAX_NUM_ROUTERS_def word_le_nat_alt unat_of_nat)
  ultimately show ?thesis
    using lt t by (simp add: Router_GetRoutingEntryForNode_def table_ok_def not_less)
qed

lemma lookup_out:
  assumes "router_inv r" "node \<noteq> 255" "node \<notin> set (dest_ids r)"
  shows "Router_GetRoutingEntryForNode r node = Inr None"
proof -
  have lt: "unat node < 255" using assms(2) by (rule byte_less_255)
  have t: "m_routing_table r ! unat node = 255" "length (m_routing_table r) = 255"
    using assms lt by (auto simp: router_inv_def table_ok_def)
  have "m_num_destinations r < 255"
    using assms(1) by (simp add: router_inv_def shape_ok_def MAX_NUM_ROUTERS_def word_less_nat_alt)
  then show ?thesis using t lt by (simp add: Router_GetRoutingEntryForNode_def)
qed

lemma rebuild_loop_spec:
  assumes "distinct (map re_dest_id ds)" "255 \<notin> set (map re_dest_id ds)" "length ds \<le> 255"
  shows "length tbl = 255 \<Longrightarrow> i + k \<le> length ds \<Longrightarrow> \<exists>tbl'. rebuild_loop ds i k tbl = Inr tbl' \<and> length tbl' = 255 \<and>
    (\<forall>j. i \<le> j \<and> j < i + k \<longrightarrow> tbl' ! unat (re_dest_id (ds ! j)) = of_nat j) \<and>
    (\<forall>n. (\<forall>j. i \<le> j \<and> j < i + k \<longrightarrow> unat (re_dest_id (ds ! j)) \<noteq> n) \<longrightarrow> tbl' ! n = tbl ! n)"
proof (induction k arbitrary: i tbl)
  case (Suc k)
  let ?d = "re_dest_id (ds ! i)"
  have i: "i < length ds" using Suc.prems by simp
  then have "?d \<noteq> 255" using assms(2) by auto
  then have lt: "unat ?d < 255" by (rule byte_less_255)
  obtain tbl' where t': "rebuild_loop ds (Suc i) k (tbl[unat ?d := of_nat i]) = Inr tbl'" "length tbl' = 255"
    "\<And>j. Suc i \<le> j \<Longrightarrow> j < Suc i + k \<Longrightarrow> tbl' ! unat (re_dest_id (ds ! j)) = of_nat j"
    "\<And>n. (\<And>j. Suc i \<le> j \<Longrightarrow> j < Suc i + k \<Longrightarrow> unat (re_dest_id (ds ! j)) \<noteq> n) \<Longrightarrow> tbl' ! n = tbl[unat ?d := of_nat i] ! n"
    using Suc.IH [of "tbl[unat ?d := of_nat i]" "Suc i"] Suc.prems by auto
  have ne: "unat (re_dest_id (ds ! j)) \<noteq> unat ?d" if "Suc i \<le> j" "j < Suc i + k" for j
    using assms(1) that Suc.prems nth_eq_iff_index_eq [of "map re_dest_id ds" j i] by (auto simp: word_unat_eq_iff)
  have own: "tbl' ! unat ?d = of_nat i"
    using t'(4) [of "unat ?d"] ne lt Suc.prems(1) by simp
  have all: "tbl' ! unat (re_dest_id (ds ! j)) = of_nat j" if "i \<le> j" "j < i + Suc k" for j
    using that own t'(3) [of j] by (cases "j = i") auto
  have rest: "tbl' ! n = tbl ! n" if n: "\<And>j. i \<le> j \<Longrightarrow> j < i + Suc k \<Longrightarrow> unat (re_dest_id (ds ! j)) \<noteq> n" for n
    using t'(4) [of n] n n [of i] by simp
  show ?case
    using t'(1,2) all rest i lt Suc.prems(1) by (intro exI [of _ tbl']) simp
qed auto

lemma rebuild_ok:
  assumes "shape_ok r" "distinct (dest_ids r)" "255 \<notin> set (dest_ids r)"
  shows "\<exists>tbl. rebuild_routing_table r = Inr (r\<lparr>m_routing_table := tbl\<rparr>) \<and> table_ok tbl (dest_ids r)"
proof -
  let ?n = "unat (m_num_destinations r)"
  have eq: "rebuild_loop (m_destinations r) i k = rebuild_loop (dests r) i k" if "i + k \<le> ?n" for i k
    using that
  proof (induction k arbitrary: i)
    case (Suc k)
    then have "rebuild_loop (m_destinations r) (Suc i) k = rebuild_loop (dests r) (Suc i) k" by simp
    with Suc.prems show ?case
      using assms(1) by (auto simp: shape_ok_def dests_def)
  qed auto
  obtain tbl where t: "rebuild_loop (dests r) 0 ?n (replicate 255 0xFF) = Inr tbl" "length tbl = 255"
    "\<And>j. j < ?n \<Longrightarrow> tbl ! unat (re_dest_id (dests r ! j)) = of_nat j"
    "\<And>n. (\<And>j. j < ?n \<Longrightarrow> unat (re_dest_id (dests r ! j)) \<noteq> n) \<Longrightarrow> tbl ! n = replicate 255 0xFF ! n"
    using rebuild_loop_spec [of "dests r" "replicate 255 0xFF" 0 ?n] assms
    by (auto simp: dest_ids_def length_dests shape_ok_def MAX_NUM_ROUTERS_def)
  have "table_ok tbl (dest_ids r)"
    unfolding table_ok_def
  proof (intro conjI allI impI)
    fix k :: nat assume k: "k < 255" "of_nat k \<notin> set (dest_ids r)"
    have "unat (re_dest_id (dests r ! j)) \<noteq> k" if "j < ?n" for j
      using that k(2) assms(1) nth_mem [of j "dests r"] by (auto simp: dest_ids_def length_dests)
    then show "tbl ! k = 255" using t(4) [of k] k(1) by simp
  qed (use t assms(1) in \<open>auto simp: dest_ids_def length_dests\<close>)
  then show ?thesis
    using t(1) eq [of 0 ?n] by (intro exI [of _ tbl]) (simp add: rebuild_routing_table_def)
qed

section \<open>Updates of entries\<close>

text \<open>What no update of the destinations touches.\<close>

definition same_node :: "router \<Rightarrow> router \<Rightarrow> bool" where
  "same_node r r' \<longleftrightarrow> m_id r' = m_id r \<and> m_seq_num r' = m_seq_num r \<and> m_neighbors_table r' = m_neighbors_table r \<and> m_num_neighbors r' = m_num_neighbors r"

lemma same_node_refl [simp]: "same_node r r" by (simp add: same_node_def)
lemma same_node_trans: "same_node r r' \<Longrightarrow> same_node r' r'' \<Longrightarrow> same_node r r''" by (simp add: same_node_def)
lemma same_node_nbrs: "same_node r r' \<Longrightarrow> nbrs r' = nbrs r \<and> m_id r' = m_id r" by (simp add: same_node_def nbrs_def)

lemma update_entry_ok:
  assumes "router_inv r" "i < length (dests r)" "\<And>e. re_dest_id (f e) = re_dest_id e"
    "\<And>p. re_packet (f (dests r ! i)) = Some p \<Longrightarrow> pkt_ok p"
  shows "\<exists>r'. update_entry r (of_nat i) f = Inr r' \<and> router_inv r' \<and> same_node r r' \<and>
     m_num_destinations r' = m_num_destinations r \<and> dests r' = (dests r)[i := f (dests r ! i)]"
proof -
  have sh: "shape_ok r" using assms(1) by (simp add: router_inv_def)
  let ?r = "r\<lparr>m_destinations := (m_destinations r)[i := f (dests r ! i)]\<rparr>"
  have i: "i < 32" "i < unat (m_num_destinations r)" "uint (of_nat i :: byte) = int i"
    using assms(2) sh by (simp_all add: length_dests shape_ok_def MAX_NUM_ROUTERS_def uint_nat unat_of_nat)
  have d: "dests ?r = (dests r)[i := f (dests r ! i)]"
    using i by (simp add: dests_def take_update_swap)
  have ids: "dest_ids ?r = dest_ids r"
    using assms(2,3) by (simp add: dest_ids_def d map_update list_update_same_conv)
  have "packets_ok (dests ?r)"
    unfolding packets_ok_def d
  proof (intro ballI allI impI)
    fix e p assume e: "e \<in> set ((dests r)[i := f (dests r ! i)])" "re_packet e = Some p"
    then have "e = f (dests r ! i) \<or> e \<in> set (dests r)"
      using set_update_subset_insert [of "dests r" i] by blast
    then show "pkt_ok p"
      using e(2) assms(1,4) by (auto simp: router_inv_def packets_ok_def)
  qed
  then have "router_inv ?r"
    using assms(1) ids by (simp add: router_inv_def shape_ok_def)
  moreover have "update_entry r (of_nat i) f = Inr ?r"
    using i sh assms(2) by (simp add: update_entry_def nth_dests shape_ok_def MAX_NUM_ROUTERS_def)
  ultimately show ?thesis using d by (auto simp: same_node_def)
qed

lemma push_entry_ok:
  assumes "router_inv r" "unat (m_num_destinations r) < MAX_NUM_ROUTERS" "\<And>e. re_dest_id (f e) = d"
    "\<And>e p. re_packet (f e) = Some p \<Longrightarrow> pkt_ok p" "d \<notin> set (dest_ids r)" "d \<noteq> 255" "d \<noteq> m_id r"
  shows "\<exists>r' e. push_entry r f = Inr (m_num_destinations r, r') \<and> router_inv r' \<and> same_node r r' \<and>
     m_num_destinations r' = m_num_destinations r + 1 \<and> dests r' = dests r @ [f e]"
proof -
  have sh: "shape_ok r" using assms(1) by (simp add: router_inv_def)
  let ?n = "unat (m_num_destinations r)"
  let ?e = "m_destinations r ! ?n"
  let ?r = "r\<lparr>m_num_destinations := m_num_destinations r + 1, m_destinations := (m_destinations r)[?n := f ?e]\<rparr>"
  have n: "unat (m_num_destinations r + 1) = Suc ?n"
    using assms(2) by (simp add: unat_word_ariths MAX_NUM_ROUTERS_def)
  have d: "dests ?r = dests r @ [f ?e]"
    using sh assms(2) by (simp add: dests_def n take_Suc_conv_app_nth shape_ok_def)
  have ids: "dest_ids ?r = dest_ids r @ [d]"
    using assms(3) by (simp add: dest_ids_def d)
  have sh': "shape_ok ?r"
    using sh assms(2) n by (simp add: shape_ok_def)
  obtain tbl where tbl: "rebuild_routing_table ?r = Inr (?r\<lparr>m_routing_table := tbl\<rparr>)" "table_ok tbl (dest_ids ?r)"
    using rebuild_ok [OF sh'] assms(1,5,6) by (auto simp: ids router_inv_def)
  let ?r2 = "?r\<lparr>m_routing_table := tbl\<rparr>"
  have d2: "dests ?r2 = dests r @ [f ?e]" "dest_ids ?r2 = dest_ids r @ [d]" "shape_ok ?r2"
    using d ids sh' by (simp_all add: dests_def dest_ids_def shape_ok_def)
  have "router_inv ?r2"
    using assms(1,4,5,6,7) tbl(2) d2 unfolding router_inv_def packets_ok_def d2 ids by auto
  moreover have "push_entry r f = Inr (m_num_destinations r, ?r2)"
    using sh assms(2) tbl(1) by (simp add: push_entry_def update_entry_def shape_ok_def Let_def)
  ultimately show ?thesis
    using d2 by (intro exI [of _ ?r2] exI [of _ ?e]) (simp add: same_node_def)
qed

end
