(* ===== verification/ShortestPath.thy ===== *)
theory ShortestPath
  imports Main
begin

text \<open>
  Paths from a source in a graph with natural weights, and the argument behind Dijkstra's
  algorithm as an interface: a set of nodes whose distances are exact can be extended along a
  cheapest edge that leaves it.  The loop of \<^verbatim>\<open>update_routing_table\<close> is the client.
\<close>

section \<open>Paths\<close>

text \<open>\<open>path_cost src edge v c\<close>: some path from \<open>src\<close> to \<open>v\<close> costs \<open>c\<close>.\<close>

inductive path_cost :: "'n \<Rightarrow> ('n \<Rightarrow> 'n \<Rightarrow> nat \<Rightarrow> bool) \<Rightarrow> 'n \<Rightarrow> nat \<Rightarrow> bool"
  for src :: 'n and edge :: "'n \<Rightarrow> 'n \<Rightarrow> nat \<Rightarrow> bool"
where
  path_here: "path_cost src edge src 0"
| path_edge: "path_cost src edge u c \<Longrightarrow> edge u v w \<Longrightarrow> path_cost src edge v (c + w)"

text \<open>\<open>path_via src edge g v c\<close>: some path from \<open>src\<close> to \<open>v\<close> starts with an edge to \<open>g\<close>.\<close>

inductive path_via :: "'n \<Rightarrow> ('n \<Rightarrow> 'n \<Rightarrow> nat \<Rightarrow> bool) \<Rightarrow> 'n \<Rightarrow> 'n \<Rightarrow> nat \<Rightarrow> bool"
  for src :: 'n and edge :: "'n \<Rightarrow> 'n \<Rightarrow> nat \<Rightarrow> bool" and g :: 'n
where
  via_first: "edge src g w \<Longrightarrow> path_via src edge g g w"
| via_edge: "path_via src edge g u c \<Longrightarrow> edge u v w \<Longrightarrow> path_via src edge g v (c + w)"

lemma path_via_path_cost: "path_via src edge g v c \<Longrightarrow> path_cost src edge v c"
proof (induction rule: path_via.induct)
  case (via_first w)
  then show ?case using path_edge [OF path_here, of edge src g w] by simp
qed (rule path_edge)

definition shortest_cost :: "'n \<Rightarrow> ('n \<Rightarrow> 'n \<Rightarrow> nat \<Rightarrow> bool) \<Rightarrow> 'n \<Rightarrow> nat \<Rightarrow> bool" where
  "shortest_cost src edge v c \<longleftrightarrow>
     path_cost src edge v c \<and> (\<forall>c'. path_cost src edge v c' \<longrightarrow> c \<le> c')"

lemma shortest_cost_unique:
  "shortest_cost src edge v c \<Longrightarrow> shortest_cost src edge v c' \<Longrightarrow> c = c'"
  by (auto simp: shortest_cost_def intro: antisym)

lemma shortest_cost_source: "shortest_cost src edge src 0"
  by (auto simp: shortest_cost_def intro: path_here)

section \<open>Finished nodes\<close>

text \<open>\<open>S\<close> is the set of finished nodes, \<open>dist\<close> gives their exact distances.\<close>

locale finished_nodes =
  fixes src :: 'n
    and edge :: "'n \<Rightarrow> 'n \<Rightarrow> nat \<Rightarrow> bool"
    and S :: "'n set"
    and dist :: "'n \<Rightarrow> nat"
  assumes source_in: "src \<in> S"
    and exact: "v \<in> S \<Longrightarrow> shortest_cost src edge v (dist v)"
begin

text \<open>A path that ends outside \<open>S\<close> leaves it somewhere, and costs at least as much as that.\<close>

lemma path_leaves:
  assumes "path_cost src edge v c" and "v \<notin> S"
  shows "\<exists>a b w. a \<in> S \<and> b \<notin> S \<and> edge a b w \<and> dist a + w \<le> c"
  using assms
proof (induction rule: path_cost.induct)
  case path_here
  then show ?case using source_in by simp
next
  case (path_edge u c v w)
  show ?case
  proof (cases "u \<in> S")
    case True
    then have "dist u \<le> c"
      using exact path_edge.hyps by (auto simp: shortest_cost_def)
    then show ?thesis using True path_edge by fastforce
  next
    case False
    then show ?thesis using path_edge by fastforce
  qed
qed

lemma cheapest_edge_exact:
  assumes "u \<in> S" and "x \<notin> S" and "edge u x w"
    and cheapest: "\<And>a b w'. a \<in> S \<Longrightarrow> b \<notin> S \<Longrightarrow> edge a b w' \<Longrightarrow> dist u + w \<le> dist a + w'"
  shows "shortest_cost src edge x (dist u + w)"
proof -
  have "path_cost src edge x (dist u + w)"
    using exact [OF assms(1)] assms(3) by (auto simp: shortest_cost_def intro: path_edge)
  moreover have "dist u + w \<le> c" if "path_cost src edge x c" for c
    using path_leaves [OF that assms(2)] cheapest by (meson order_trans)
  ultimately show ?thesis by (simp add: shortest_cost_def)
qed

lemma nothing_leaves:
  assumes "\<And>a b w. a \<in> S \<Longrightarrow> b \<notin> S \<Longrightarrow> \<not> edge a b w" and "path_cost src edge v c"
  shows "v \<in> S"
  using path_leaves [OF assms(2)] assms(1) by blast

lemma finish_node:
  assumes "shortest_cost src edge x d" and "x \<notin> S"
  shows "finished_nodes src edge (insert x S) (dist(x := d))"
  by unfold_locales (use source_in exact assms in auto)

end

end
