(* ===== verification/LinkScan.thy ===== *)
theory LinkScan
  imports RouterInv ShortestPath "HOL-Library.Product_Lexorder"
begin

text \<open>
  The graph a router knows and the choice of the cheapest link.  The links of a node are the
  neighbours' table for the router itself and the entries of the stored packet for every other
  node; \<open>find_shortest\<close>, the nested loops of \<^verbatim>\<open>update_routing_table\<close>, returns the link that
  leaves the current set with the least total cost, and among those of equal cost the one with
  the least source and then the least destination.
\<close>

section \<open>The graph\<close>

definition entry_of :: "router \<Rightarrow> byte \<Rightarrow> routing_entry option" where
  "entry_of r u = map_of (map (\<lambda>e. (re_dest_id e, e)) (dests r)) u"

definition links :: "router \<Rightarrow> byte \<Rightarrow> (byte \<times> byte) list" where
  "links r u =
     (if u = m_id r then map (\<lambda>nb. (nb_node_id nb, nb_cost nb)) (nbrs r)
      else case entry_of r u of None \<Rightarrow> []
           | Some e \<Rightarrow> (case re_packet e of None \<Rightarrow> [] | Some p \<Rightarrow> pkt_entries p))"

text \<open>The packet stored for a node; the code takes one without entries where there is none.\<close>

definition held :: "router \<Rightarrow> byte \<Rightarrow> ls_packet" where
  "held r u = (case entry_of r u of None \<Rightarrow> zero_packet | Some e \<Rightarrow> (case re_packet e of None \<Rightarrow> zero_packet | Some p \<Rightarrow> p))"

definition link_edge :: "router \<Rightarrow> byte \<Rightarrow> byte \<Rightarrow> nat \<Rightarrow> bool" where
  "link_edge r u v w \<longleftrightarrow> w \<in> (\<lambda>(d, c). unat c) ` {x \<in> set (links r u). fst x = v}"

definition cost_of :: "router \<Rightarrow> byte \<Rightarrow> nat" where
  "cost_of r u =
     (if u = m_id r then 0 else case entry_of r u of None \<Rightarrow> 0 | Some e \<Rightarrow> unat (re_cost e))"

section \<open>The least candidate\<close>

text \<open>Links are compared by cost, then source, then destination.\<close>

definition link_key :: "ls_link \<Rightarrow> nat \<times> byte \<times> byte" where
  "link_key sh = (unat (link_cost sh), link_src sh, link_dest sh)"

definition best :: "(nat \<times> byte \<times> byte) set \<Rightarrow> ls_link \<Rightarrow> bool" where
  "best C sh \<longleftrightarrow>
     (if C = {} then sint (link_cost sh) = -1
      else link_key sh \<in> C \<and> unat (link_cost sh) < 2 ^ 15 \<and> (\<forall>k \<in> C. link_key sh \<le> k))"

lemma link_edge_iff: "link_edge r u v w \<longleftrightarrow> (\<exists>c. (v, c) \<in> set (links r u) \<and> w = unat c)"
  by (force simp: link_edge_def)

lemma uint_less_unat: "uint (a :: 'a::len word) < uint b \<longleftrightarrow> unat a < unat b"
  unfolding uint_nat of_nat_less_iff ..

lemma uint_eq_unat: "uint (a :: 'a::len word) = uint b \<longleftrightarrow> unat a = unat b"
  unfolding uint_nat of_nat_eq_iff ..

lemma sint_small: "unat (w :: u16) < 2 ^ 15 \<Longrightarrow> sint w = uint w"
proof -
  assume "unat w < 2 ^ 15"
  then have "uint w < 2 ^ 15" by (metis of_nat_less_iff of_nat_numeral of_nat_power of_nat_unat)
  then have "signed_take_bit 15 (uint w) = uint w"
    by (intro signed_take_bit_int_eq_self) (simp_all add: order_trans [OF _ uint_ge_0])
  then show ?thesis by (simp add: sint_uint)
qed

lemma unat_ucast_16 [simp]: "unat (ucast (b :: byte) :: u16) = unat b"
proof -
  have "unat b < 2 ^ 16" using unat_byte_less [of b] by simp
  then show ?thesis by (simp add: unsigned_ucast_eq take_bit_nat_eq_self)
qed

lemma set_shortest_best:
  assumes "best C sh" "unat c < 2 ^ 15"
  shows "best (insert (unat c, s, d) C) (set_shortest sh s d c)"
proof (cases "C = {}")
  case True
  with assms show ?thesis by (simp add: best_def set_shortest_def link_key_def)
next
  case False
  with assms have b: "link_key sh \<in> C" "unat (link_cost sh) < 2 ^ 15" "\<And>k. k \<in> C \<Longrightarrow> link_key sh \<le> k"
    by (simp_all add: best_def)
  have si: "sint (link_cost sh) = uint (link_cost sh)" using b(2) by (rule sint_small)
  have ne: "uint (link_cost sh) \<noteq> -1" using uint_ge_0 [of "link_cost sh"] by linarith
  have eq: "set_shortest sh s d c = (if (unat c, s, d) < link_key sh then \<lparr>link_src = s, link_dest = d, link_cost = c\<rparr> else sh)"
    by (auto simp: set_shortest_def si ne uint_less_unat uint_eq_unat link_key_def less_prod_def)
  show ?thesis
  proof (cases "(unat c, s, d) < link_key sh")
    case True
    then have "set_shortest sh s d c = \<lparr>link_src = s, link_dest = d, link_cost = c\<rparr>" by (simp add: eq)
    moreover have "(unat c, s, d) \<le> k" if "k \<in> C" for k
      using True b(3) [OF that] by (meson order.trans less_imp_le)
    ultimately show ?thesis using assms(2) by (auto simp: best_def link_key_def)
  next
    case False
    then have "set_shortest sh s d c = sh" by (simp add: eq)
    with b False show ?thesis by (auto simp: best_def)
  qed
qed

section \<open>The current set\<close>

definition cur_nodes :: "ls_set \<Rightarrow> byte set" where
  "cur_nodes cur = set (take (unat (set_num_routers cur)) (set_id cur))"

definition cur_ok :: "ls_set \<Rightarrow> bool" where
  "cur_ok cur \<longleftrightarrow> length (set_id cur) = MAX_NUM_ROUTERS \<and> unat (set_num_routers cur) \<le> MAX_NUM_ROUTERS \<and> distinct (take (unat (set_num_routers cur)) (set_id cur))"

lemma set_has_node_loop_eq:
  "i + k \<le> length ids \<Longrightarrow> set_has_node_loop ids node i k = Inr (node \<in> set (take k (drop i ids)))"
proof (induction k arbitrary: i)
  case (Suc k)
  then have "drop i ids = ids ! i # drop (Suc i) ids" by (simp add: Cons_nth_drop_Suc)
  with Suc show ?case by auto
qed simp

lemma set_has_node_eq: "cur_ok cur \<Longrightarrow> set_has_node cur node = Inr (node \<in> cur_nodes cur)"
  by (simp add: set_has_node_def cur_ok_def cur_nodes_def set_has_node_loop_eq)

section \<open>The loops over the links\<close>

text \<open>The candidates among the links \<open>ls\<close> of the node \<open>u\<close>, which is at distance \<open>base\<close>.\<close>

definition link_cands :: "byte set \<Rightarrow> byte \<Rightarrow> nat \<Rightarrow> (byte \<times> byte) list \<Rightarrow> (nat \<times> byte \<times> byte) set" where
  "link_cands S u base ls = {(base + unat c, u, v) | v c. (v, c) \<in> set ls \<and> v \<notin> S}"

lemma link_cands_Nil [simp]: "link_cands S u base [] = {}"
  by (simp add: link_cands_def)

lemma link_cands_Cons: "link_cands S u base ((v, c) # ls) = (if v \<notin> S then insert (base + unat c, u, v) (link_cands S u base ls) else link_cands S u base ls)"
  by (auto simp: link_cands_def)

lemma scan_neighbors_best:
  assumes "shape_ok r" "cur_ok cur"
  shows "best C sh \<Longrightarrow> i + k \<le> unat (m_num_neighbors r) \<Longrightarrow>
    \<exists>sh'. scan_neighbors r cur i k sh = Inr sh' \<and>
      best (C \<union> link_cands (cur_nodes cur) (m_id r) 0 (map (\<lambda>nb. (nb_node_id nb, nb_cost nb)) (take k (drop i (nbrs r))))) sh'"
proof (induction k arbitrary: i sh C)
  case (Suc k)
  let ?nb = "m_neighbors_table r ! i"
  let ?S = "cur_nodes cur"
  let ?rest = "map (\<lambda>nb. (nb_node_id nb, nb_cost nb)) (take k (drop (Suc i) (nbrs r)))"
  have i: "i < length (nbrs r)" "i < length (m_neighbors_table r)" "nbrs r ! i = ?nb"
    using Suc.prems assms(1) by (auto simp: nbrs_def shape_ok_def MAX_NUM_ROUTERS_def)
  then have d: "drop i (nbrs r) = ?nb # drop (Suc i) (nbrs r)" by (metis Cons_nth_drop_Suc)
  show ?case
  proof (cases "nb_node_id ?nb \<in> ?S")
    case True
    then show ?thesis
      using Suc.IH [of C sh "Suc i"] Suc.prems i d assms(2)
      by (simp add: set_has_node_eq link_cands_Cons)
  next
    case False
    let ?sh = "set_shortest sh (m_id r) (nb_node_id ?nb) (ucast (nb_cost ?nb))"
    have "best (insert (unat (nb_cost ?nb), m_id r, nb_node_id ?nb) C) ?sh"
      using set_shortest_best [OF Suc.prems(1), of "ucast (nb_cost ?nb)" "m_id r" "nb_node_id ?nb"] unat_byte_less [of "nb_cost ?nb"]
      by simp
    with Suc.IH [of "insert (unat (nb_cost ?nb), m_id r, nb_node_id ?nb) C" ?sh "Suc i"] Suc.prems False i d assms(2) show ?thesis
      by (simp add: set_has_node_eq link_cands_Cons set_shortest_neighbor_def)
  qed
qed auto

lemma entry_of_eq_Some:
  "router_inv r \<Longrightarrow> entry_of r u = Some e \<longleftrightarrow> e \<in> set (dests r) \<and> re_dest_id e = u"
  unfolding entry_of_def router_inv_def dest_ids_def
  by (subst map_of_eq_Some_iff) (auto simp: comp_def)

lemma entry_of_eq_None: "entry_of r u = None \<longleftrightarrow> u \<notin> set (dest_ids r)"
  by (force simp: entry_of_def map_of_eq_None_iff dest_ids_def)

lemma entry_of_nth:
  "router_inv r \<Longrightarrow> i < length (dests r) \<Longrightarrow> entry_of r (re_dest_id (dests r ! i)) = Some (dests r ! i)"
  by (simp add: entry_of_eq_Some)

lemma get_entry_in:
  assumes "router_inv r" "entry_of r u = Some e"
  shows "\<exists>i. i < length (dests r) \<and> dests r ! i = e \<and> Router_GetRoutingEntryForNode r u = Inr (Some (of_nat i)) \<and> entry_at r (Some (of_nat i)) = Inr e"
proof -
  obtain i where i: "i < length (dests r)" "dests r ! i = e" "re_dest_id e = u"
    using assms by (auto simp: entry_of_eq_Some in_set_conv_nth)
  have sh: "shape_ok r" using assms(1) by (simp add: router_inv_def)
  then have "i < 32" using i(1) by (simp add: length_dests shape_ok_def MAX_NUM_ROUTERS_def)
  then have "entry_at r (Some (of_nat i)) = Inr e"
    using sh i by (simp add: entry_at_def uint_nat unat_of_nat shape_ok_def MAX_NUM_ROUTERS_def nth_dests)
  then show ?thesis using lookup_in [OF assms(1) i(1)] i by auto
qed

text \<open>The test for -1 in \<^verbatim>\<open>set_shortest_distant\<close> never succeeds: the cost was a byte.\<close>

lemma sint_cost_not_minus_1: "sint (ucast (c :: byte) :: u16) \<noteq> -1"
proof -
  have "unat (ucast c :: u16) < 2 ^ 15"
    using unat_byte_less [of c] unfolding unat_ucast_16 by (rule less_trans) simp
  then have "sint (ucast c :: u16) = uint (ucast c :: u16)" by (rule sint_small)
  moreover have "0 \<le> uint (ucast c :: u16)" by (rule uint_ge_0)
  ultimately show ?thesis by linarith
qed

lemma scan_distant_best:
  assumes "router_inv r" "cur_ok cur" "pkt_ok p" "entry_of r u = Some e" "unat (re_cost e) + 255 < 2 ^ 15"
  shows "best C sh \<Longrightarrow> i + k \<le> unat (pkt_num_entries p) \<Longrightarrow>
    \<exists>sh'. scan_distant r cur u p i k sh = Inr sh' \<and>
      best (C \<union> link_cands (cur_nodes cur) u (unat (re_cost e)) (take k (drop i (pkt_entries p)))) sh'"
proof (induction k arbitrary: i sh C)
  case (Suc k)
  let ?d = "pkt_dest_id p ! i" let ?c = "pkt_cost p ! i"
  let ?S = "cur_nodes cur"
  have i: "i < length (pkt_entries p)" "i < length (pkt_dest_id p)" "i < length (pkt_cost p)" "pkt_entries p ! i = (?d, ?c)"
    using Suc.prems assms(3) by (auto simp: pkt_entries_def pkt_ok_def pkt_shape_def MAX_NUM_ROUTERS_def)
  then have d: "drop i (pkt_entries p) = (?d, ?c) # drop (Suc i) (pkt_entries p)" by (metis Cons_nth_drop_Suc)
  show ?case
  proof (cases "?d \<in> ?S")
    case True
    then show ?thesis
      using Suc.IH [of C sh "Suc i"] Suc.prems i d assms(2)
      by (simp add: set_has_node_eq link_cands_Cons)
  next
    case False
    let ?sh = "set_shortest sh u ?d (ucast ?c + re_cost e)"
    let ?k = "(unat (re_cost e) + unat ?c, u, ?d)"
    have bc: "unat ?c < 256" by (rule unat_byte_less)
    have "unat (re_cost e) + unat ?c < 2 ^ LENGTH(16)"
      using assms(5) bc by simp
    then have cost: "unat (ucast ?c + re_cost e) = unat (re_cost e) + unat ?c"
      unfolding unat_word_ariths unat_ucast_16 by (simp only: mod_less add.commute)
    have "best (insert ?k C) ?sh"
      using set_shortest_best [OF Suc.prems(1), of "ucast ?c + re_cost e" u ?d] assms(5) bc by (simp add: cost)
    moreover obtain j where "Router_GetRoutingEntryForNode r u = Inr (Some (of_nat j))" "entry_at r (Some (of_nat j)) = Inr e"
      using get_entry_in [OF assms(1,4)] by blast
    then have "set_shortest_distant r sh u p i = Inr ?sh"
      using i by (simp add: set_shortest_distant_def Let_def sint_cost_not_minus_1)
    ultimately show ?thesis
      using Suc.IH [of "insert ?k C" ?sh "Suc i"] Suc.prems False i d assms(2)
      by (simp add: set_has_node_eq link_cands_Cons)
  qed
qed auto

definition node_cands :: "router \<Rightarrow> byte set \<Rightarrow> byte \<Rightarrow> (nat \<times> byte \<times> byte) set" where
  "node_cands r S u = link_cands S u (cost_of r u) (links r u)"

lemma scan_node_best:
  assumes "router_inv r" "cur_ok cur" "u \<noteq> 255" "cost_of r u + 255 < 2 ^ 15" "best C sh"
  shows "\<exists>sh'. scan_node r cur u sh = Inr sh' \<and> best (C \<union> node_cands r (cur_nodes cur) u) sh'"
proof (cases "u = m_id r")
  case True
  have sh: "shape_ok r" using assms(1) by (simp add: router_inv_def)
  have "length (nbrs r) = unat (m_num_neighbors r)" using sh by (simp add: nbrs_def shape_ok_def)
  then show ?thesis
    using True scan_neighbors_best [OF sh assms(2,5), of 0 "unat (m_num_neighbors r)"]
    by (simp add: scan_node_def node_cands_def links_def cost_of_def)
next
  case False
  show ?thesis
  proof (cases "entry_of r u")
    case None
    then have "Router_GetRoutingEntryForNode r u = Inr None"
      using lookup_out [OF assms(1,3)] by (simp add: entry_of_eq_None)
    then show ?thesis
      using False None assms(5) by (simp add: scan_node_def node_cands_def links_def)
  next
    case (Some e)
    obtain j where j: "Router_GetRoutingEntryForNode r u = Inr (Some (of_nat j))" "entry_at r (Some (of_nat j)) = Inr e"
      using get_entry_in [OF assms(1) Some] by blast
    show ?thesis
    proof (cases "re_packet e")
      case None
      then show ?thesis
        using False Some j assms(5) by (simp add: scan_node_def node_cands_def links_def)
    next
      case p: (Some p)
      then have ok: "pkt_ok p"
        using assms(1) Some entry_of_eq_Some [OF assms(1)] by (auto simp: router_inv_def packets_ok_def)
      then have len: "length (pkt_entries p) = unat (pkt_num_entries p)"
        by (simp add: pkt_ok_def length_pkt_entries)
      show ?thesis
        using scan_distant_best [OF assms(1,2) ok Some _ assms(5), of 0 "unat (pkt_num_entries p)"] assms(4) False Some p j len
        by (simp add: scan_node_def node_cands_def links_def cost_of_def)
    qed
  qed
qed

lemma scan_set_best:
  assumes "router_inv r" "cur_ok cur" "\<And>u. u \<in> cur_nodes cur \<Longrightarrow> u \<noteq> 255 \<and> cost_of r u + 255 < 2 ^ 15"
  shows "best C sh \<Longrightarrow> i + k \<le> unat (set_num_routers cur) \<Longrightarrow>
    \<exists>sh'. scan_set r cur i k sh = Inr sh' \<and>
      best (C \<union> (\<Union>u \<in> set (take k (drop i (set_id cur))). node_cands r (cur_nodes cur) u)) sh'"
proof (induction k arbitrary: i sh C)
  case (Suc k)
  let ?u = "set_id cur ! i"
  have i: "i < length (set_id cur)" using Suc.prems assms(2) by (simp add: cur_ok_def)
  then have d: "drop i (set_id cur) = ?u # drop (Suc i) (set_id cur)" by (metis Cons_nth_drop_Suc)
  have "?u \<in> cur_nodes cur"
    using i Suc.prems by (auto simp: cur_nodes_def in_set_conv_nth)
  then obtain sh1 where sh1: "scan_node r cur ?u sh = Inr sh1" "best (C \<union> node_cands r (cur_nodes cur) ?u) sh1"
    using scan_node_best [OF assms(1,2) _ _ Suc.prems(1)] assms(3) by blast
  show ?case
    using Suc.IH [OF sh1(2), of "Suc i"] Suc.prems i d sh1(1) by (simp add: Un_assoc)
qed auto

definition leaving :: "router \<Rightarrow> byte set \<Rightarrow> (nat \<times> byte \<times> byte) set" where
  "leaving r S = (\<Union>u \<in> S. node_cands r S u)"

lemma find_shortest_best:
  assumes "router_inv r" "cur_ok cur" "\<And>u. u \<in> cur_nodes cur \<Longrightarrow> u \<noteq> 255 \<and> cost_of r u + 255 < 2 ^ 15"
  shows "\<exists>sh'. find_shortest r cur sh = Inr sh' \<and> best (leaving r (cur_nodes cur)) sh'"
proof -
  have "best {} (no_link sh)" by (simp add: best_def no_link_def)
  from scan_set_best [OF assms this, of 0 "unat (set_num_routers cur)"] show ?thesis
    by (simp add: find_shortest_def leaving_def cur_nodes_def)
qed


end
