(* ===== verification/RouterDijkstra.thy ===== *)
theory RouterDijkstra
  imports LinkScan
begin

text \<open>
  The loop of \<^verbatim>\<open>update_routing_table\<close> is Dijkstra's algorithm: \<open>settled\<close> is its invariant,
  \<open>add_destination\<close> keeps it, and at the end every destination the router can reach has the cost
  of a shortest path and a neighbour such a path starts with (\<open>routes_ok\<close>).  The exactness of each
  step is the lemma of the interface \<open>finished_nodes\<close>; \<open>start\<close> shows that the set the loop
  begins with is an instance.
\<close>

section \<open>The invariant\<close>

definition gateway_ok :: "router \<Rightarrow> byte \<Rightarrow> routing_entry \<Rightarrow> bool" where
  "gateway_ok r u e \<longleftrightarrow> unat (re_gateway_idx e) < length (nbrs r) \<and>
     path_via (m_id r) (link_edge r) (nb_node_id (nbrs r ! unat (re_gateway_idx e))) u (unat (re_cost e))"

definition settled :: "router \<Rightarrow> router \<Rightarrow> byte set \<Rightarrow> bool" where
  "settled r0 r S \<longleftrightarrow> router_inv r0 \<and> router_inv r \<and> same_node r0 r \<and> links r = links r0 \<and> held r = held r0 \<and>
     set (dest_ids r0) \<subseteq> set (dest_ids r) \<and>
     S \<subseteq> insert (m_id r0) (set (dest_ids r)) \<and>
     finished_nodes (m_id r0) (link_edge r0) S (cost_of r) \<and>
     (\<forall>u \<in> S - {m_id r0}. \<forall>e. entry_of r u = Some e \<longrightarrow> gateway_ok r0 u e) \<and>
     (\<forall>u. u \<notin> S \<longrightarrow> entry_of r u = entry_of r0 u)"

definition known_nodes :: "router \<Rightarrow> byte set" where
  "known_nodes r = insert (m_id r) (set (dest_ids r)) \<union> nb_node_id ` set (nbrs r) \<union>
     (\<Union>e \<in> set (dests r). case re_packet e of None \<Rightarrow> {} | Some p \<Rightarrow> fst ` set (pkt_entries p))"

lemma links_known: "router_inv r \<Longrightarrow> (v, c) \<in> set (links r u) \<Longrightarrow> v \<in> known_nodes r"
proof -
  assume inv: "router_inv r" and vc: "(v, c) \<in> set (links r u)"
  show ?thesis
  proof (cases "u = m_id r")
    case True
    with vc have "v \<in> nb_node_id ` set (nbrs r)" by (auto simp: links_def)
    then show ?thesis by (simp add: known_nodes_def)
  next
    case False
    with vc obtain e p where e: "entry_of r u = Some e" "re_packet e = Some p" "(v, c) \<in> set (pkt_entries p)"
      by (cases "entry_of r u"; cases "re_packet (the (entry_of r u))") (auto simp: links_def)
    then have "e \<in> set (dests r)" using inv by (simp add: entry_of_eq_Some)
    moreover have "v \<in> fst ` set (pkt_entries p)" using e(3) by force
    ultimately have "v \<in> (\<Union>e \<in> set (dests r). case re_packet e of None \<Rightarrow> {} | Some p \<Rightarrow> fst ` set (pkt_entries p))"
      using e(2) by (intro UN_I [of e]) simp_all
    then show ?thesis by (simp add: known_nodes_def)
  qed
qed

lemma links_cong: 
  assumes "same_node r r'" "\<And>u. map_option re_packet (entry_of r' u) = map_option re_packet (entry_of r u) \<or> (entry_of r u = None \<and> map_option re_packet (entry_of r' u) = Some None)"
  shows "links r' = links r"
proof
  fix u
  show "links r' u = links r u"
    using assms(2) [of u] same_node_nbrs [OF assms(1)]
    by (auto simp: links_def split: option.splits)
qed

lemma get_neighbor_idx_in:
  assumes "shape_ok r" "d \<in> nb_node_id ` set (nbrs r)"
  shows "\<exists>i. get_neighbor_idx r d = Inr i \<and> unat i < length (nbrs r) \<and> nb_node_id (nbrs r ! unat i) = d"
proof -
  have loop: "\<exists>j. get_neighbor_idx_loop (m_neighbors_table r) d i k = Inr (of_nat j) \<and> j < i + k \<and> nb_node_id (m_neighbors_table r ! j) = d"
    if "d \<in> nb_node_id ` set (take k (drop i (m_neighbors_table r)))" "i + k \<le> length (m_neighbors_table r)" for i k
    using that
  proof (induction k arbitrary: i)
    case (Suc k)
    let ?nb = "m_neighbors_table r ! i"
    have dr: "drop i (m_neighbors_table r) = ?nb # drop (Suc i) (m_neighbors_table r)" using Suc.prems(2) by (simp add: Cons_nth_drop_Suc)
    show ?case
    proof (cases "nb_node_id ?nb = d")
      case True
      then show ?thesis using Suc.prems(2) by (intro exI [of _ i]) simp
    next
      case False
      then have "d \<in> nb_node_id ` set (take k (drop (Suc i) (m_neighbors_table r)))"
        using Suc.prems(1) dr by auto
      then show ?thesis using Suc.IH [of "Suc i"] Suc.prems(2) False by auto
    qed
  qed simp
  obtain j where j: "get_neighbor_idx r d = Inr (of_nat j)" "j < unat (m_num_neighbors r)" "nb_node_id (m_neighbors_table r ! j) = d"
    using loop [of "unat (m_num_neighbors r)" 0] assms by (auto simp: nbrs_def get_neighbor_idx_def shape_ok_def)
  have "j < 32" using j(2) assms(1) by (simp add: shape_ok_def MAX_NUM_ROUTERS_def)
  then have "unat (of_nat j :: byte) = j" by (simp add: unat_of_nat)
  then show ?thesis using j assms(1) by (intro exI [of _ "of_nat j"]) (simp add: nbrs_def shape_ok_def)
qed

lemma dests_le: assumes "router_inv r" "set (dest_ids r) \<subseteq> N - {m_id r}" "m_id r \<in> N" "finite N" "card N \<le> MAX_NUM_ROUTERS"
  shows "length (dests r) < MAX_NUM_ROUTERS"
proof -
  have "length (dests r) = card (set (dest_ids r))"
    using assms(1) distinct_card [of "dest_ids r"] by (simp add: router_inv_def) (simp add: dest_ids_def)
  also have "\<dots> \<le> card (N - {m_id r})" using assms by (intro card_mono) auto
  also have "\<dots> < card N" using assms by (intro psubset_card_mono) auto
  finally show ?thesis using assms(5) by simp
qed

text \<open>The entry for the destination of the chosen link.\<close>

lemma find_or_push:
  assumes inv: "router_inv r" and d: "d \<noteq> 255" "d \<noteq> m_id r"
    and room: "d \<notin> set (dest_ids r) \<Longrightarrow> unat (m_num_destinations r) < MAX_NUM_ROUTERS"
  shows "\<exists>i r'. bindR (Router_GetRoutingEntryForNode r d) (\<lambda>ptr.
      case ptr of Some i \<Rightarrow> Inr (i, r)
      | None \<Rightarrow> push_entry r (\<lambda>e. e\<lparr>re_dest_id := d, re_packet := None\<rparr>)) = Inr (of_nat i, r') \<and>
    router_inv r' \<and> same_node r r' \<and> i < length (dests r') \<and> re_dest_id (dests r' ! i) = d \<and>
    dest_ids r' = (if d \<in> set (dest_ids r) then dest_ids r else dest_ids r @ [d]) \<and>
    (\<forall>u. u \<noteq> d \<longrightarrow> entry_of r' u = entry_of r u) \<and>
    re_packet (dests r' ! i) = (case entry_of r d of None \<Rightarrow> None | Some e \<Rightarrow> re_packet e)"
proof (cases "entry_of r d")
  case (Some e)
  then obtain i where "i < length (dests r)" "dests r ! i = e"
    "Router_GetRoutingEntryForNode r d = Inr (Some (of_nat i))"
    using get_entry_in [OF inv] by blast
  moreover have "re_dest_id e = d" "d \<in> set (dest_ids r)"
    using Some inv by (auto simp: entry_of_eq_Some dest_ids_def)
  ultimately show ?thesis using inv Some by (intro exI [of _ i] exI [of _ r]) simp
next
  case None
  then have nd: "d \<notin> set (dest_ids r)" by (simp add: entry_of_eq_None)
  let ?f = "\<lambda>e. e\<lparr>re_dest_id := d, re_packet := None\<rparr>"
  obtain r' e where r': "push_entry r ?f = Inr (m_num_destinations r, r')" "router_inv r'" "same_node r r'"
    "dests r' = dests r @ [?f e]"
    using push_entry_ok [OF inv room [OF nd], of ?f d] nd d by auto
  have sh: "shape_ok r" using inv by (simp add: router_inv_def)
  have "entry_of r' u = entry_of r u" if "u \<noteq> d" for u
    using that r'(4) by (simp add: entry_of_def map_add_def split: option.splits)
  moreover have "Router_GetRoutingEntryForNode r d = Inr None"
    using lookup_out [OF inv d(1) nd] .
  moreover have "dest_ids r' = dest_ids r @ [d]" using r'(4) by (simp add: dest_ids_def)
  ultimately show ?thesis
    using r' nd None length_dests [OF sh]
    by (intro exI [of _ "unat (m_num_destinations r)"] exI [of _ r']) (simp add: nth_append)
qed

lemma entry_of_update:
  assumes "router_inv r1" "router_inv r2" "i < length (dests r1)" "dests r2 = (dests r1)[i := e]" "re_dest_id e = re_dest_id (dests r1 ! i)"
  shows "entry_of r2 u = (if u = re_dest_id e then Some e else entry_of r1 u)"
proof (cases "u = re_dest_id e")
  case True
  then show ?thesis using assms(2,3,4) by (simp add: entry_of_eq_Some set_update_memI)
next
  case False
  have "entry_of r2 u = Some e' \<longleftrightarrow> entry_of r1 u = Some e'" for e'
    using False assms by (auto simp: entry_of_eq_Some in_set_conv_nth nth_list_update)
  then have "entry_of r2 u = entry_of r1 u" by (metis option.exhaust)
  with False show ?thesis by simp
qed

lemma settled_gateway:
  assumes st: "settled r0 r S" and src: "link_src sh \<in> S" and dest: "link_dest sh \<notin> S"
    and edge: "link_edge r0 (link_src sh) (link_dest sh) w"
    and cost: "unat (link_cost sh) = cost_of r (link_src sh) + w"
    and r1: "router_inv r1" "same_node r r1" "\<And>u. u \<noteq> link_dest sh \<Longrightarrow> entry_of r1 u = entry_of r u"
  shows "\<exists>g. get_gateway_idx r1 sh = Inr g \<and> unat g < length (nbrs r0) \<and>
    path_via (m_id r0) (link_edge r0) (nb_node_id (nbrs r0 ! unat g)) (link_dest sh) (unat (link_cost sh))"
proof -
  have id: "m_id r = m_id r0" "m_id r1 = m_id r0" "nbrs r1 = nbrs r0"
    using st r1(2) same_node_nbrs [of r0 r] same_node_nbrs [of r r1] by (auto simp: settled_def)
  show ?thesis
  proof (cases "link_src sh = m_id r0")
    case True
    then have "link_dest sh \<in> nb_node_id ` set (nbrs r1)"
      using edge id by (auto simp: link_edge_iff links_def)
    then obtain g where "get_neighbor_idx r1 (link_dest sh) = Inr g" "unat g < length (nbrs r0)"
      "nb_node_id (nbrs r0 ! unat g) = link_dest sh"
      using get_neighbor_idx_in [of r1 "link_dest sh"] r1(1) id by (auto simp: router_inv_def)
    moreover have "path_via (m_id r0) (link_edge r0) (link_dest sh) (link_dest sh) (unat (link_cost sh))"
      using via_first [of "link_edge r0" "m_id r0" "link_dest sh" w] edge True cost id by (simp add: cost_of_def)
    ultimately show ?thesis
      using True id by (intro exI [of _ g]) (simp add: get_gateway_idx_def)
  next
    case False
    then have "link_src sh \<in> set (dest_ids r)" using st src by (auto simp: settled_def)
    then obtain e where e: "entry_of r (link_src sh) = Some e"
      using entry_of_eq_None by fastforce
    have ne: "link_src sh \<noteq> link_dest sh" using src dest by auto
    then have e1: "entry_of r1 (link_src sh) = Some e" using r1(3) e by simp
    then obtain j where "Router_GetRoutingEntryForNode r1 (link_src sh) = Inr (Some (of_nat j))"
      "entry_at r1 (Some (of_nat j)) = Inr e"
      using get_entry_in [OF r1(1)] by blast
    then have "get_gateway_idx r1 sh = Inr (re_gateway_idx e)"
      using False id by (simp add: get_gateway_idx_def)
    moreover have "gateway_ok r0 (link_src sh) e"
      using st src False e by (auto simp: settled_def)
    moreover have "cost_of r (link_src sh) = unat (re_cost e)"
      using False e id by (simp add: cost_of_def)
    ultimately show ?thesis
      using edge cost by (auto simp: gateway_ok_def intro: via_edge)
  qed
qed

lemma add_destination_ok:
  assumes st: "settled r0 r S" and src: "link_src sh \<in> S" and dest: "link_dest sh \<notin> S" "link_dest sh \<noteq> 255"
    and room: "link_dest sh \<notin> set (dest_ids r) \<Longrightarrow> unat (m_num_destinations r) < MAX_NUM_ROUTERS"
    and edge: "link_edge r0 (link_src sh) (link_dest sh) w"
    and cost: "unat (link_cost sh) = cost_of r (link_src sh) + w"
    and exact: "shortest_cost (m_id r0) (link_edge r0) (link_dest sh) (unat (link_cost sh))"
  shows "\<exists>r'. add_destination r sh = Inr r' \<and> settled r0 r' (insert (link_dest sh) S) \<and>
    set (dest_ids r') = insert (link_dest sh) (set (dest_ids r)) \<and>
    cost_of r' = (cost_of r)(link_dest sh := unat (link_cost sh))"
proof -
  let ?d = "link_dest sh"
  have inv: "router_inv r" and id: "m_id r = m_id r0" and fin: "finished_nodes (m_id r0) (link_edge r0) S (cost_of r)"
    and same: "same_node r0 r"
    using st same_node_nbrs [of r0 r] by (auto simp: settled_def)
  have dself: "?d \<noteq> m_id r" using dest(1) fin id by (auto simp: finished_nodes_def)
  obtain i r1 where fp: "bindR (Router_GetRoutingEntryForNode r ?d) (\<lambda>ptr.
      case ptr of Some i \<Rightarrow> Inr (i, r)
      | None \<Rightarrow> push_entry r (\<lambda>e. e\<lparr>re_dest_id := ?d, re_packet := None\<rparr>)) = Inr (of_nat i, r1)"
    and r1: "router_inv r1" "same_node r r1" "i < length (dests r1)" "re_dest_id (dests r1 ! i) = ?d"
      "dest_ids r1 = (if ?d \<in> set (dest_ids r) then dest_ids r else dest_ids r @ [?d])"
      "\<And>u. u \<noteq> ?d \<Longrightarrow> entry_of r1 u = entry_of r u"
      "re_packet (dests r1 ! i) = (case entry_of r ?d of None \<Rightarrow> None | Some e \<Rightarrow> re_packet e)"
    using find_or_push [OF inv dest(2) dself room] by blast
  obtain g where g: "get_gateway_idx r1 sh = Inr g" "unat g < length (nbrs r0)"
    "path_via (m_id r0) (link_edge r0) (nb_node_id (nbrs r0 ! unat g)) ?d (unat (link_cost sh))"
    using settled_gateway [OF st src dest(1) edge cost r1(1,2,6)] by blast
  let ?f = "\<lambda>e. e\<lparr>re_gateway_idx := g, re_cost := link_cost sh\<rparr>"
  have pk: "pkt_ok p" if "re_packet (?f (dests r1 ! i)) = Some p" for p
    using that r1(1) nth_mem [OF r1(3)] by (auto simp: router_inv_def packets_ok_def)
  obtain r2 where r2: "update_entry r1 (of_nat i) ?f = Inr r2" "router_inv r2" "same_node r1 r2"
    "dests r2 = (dests r1)[i := ?f (dests r1 ! i)]"
    using update_entry_ok [OF r1(1,3), of ?f, OF _ pk] by auto
  have e2: "entry_of r2 u = (if u = ?d then Some (?f (dests r1 ! i)) else entry_of r u)" for u
    using entry_of_update [OF r1(1) r2(2) r1(3) r2(4)] r1(4,6) by simp
  have same2: "same_node r r2" "same_node r0 r2" using r1(2) r2(3) same same_node_trans by blast+
  have "dest_ids r2 = (dest_ids r1)[i := dest_ids r1 ! i]"
    using r1(3) r2(4) by (simp add: dest_ids_def map_update)
  then have ids: "set (dest_ids r2) = insert ?d (set (dest_ids r))"
    using r1(5) by auto
  have cost2: "cost_of r2 = (cost_of r)(?d := unat (link_cost sh))"
    using same_node_nbrs [OF same2(1)] dself by (auto simp: cost_of_def e2)
  have lk: "links r2 = links r"
    by (rule links_cong [OF same2(1)]) (auto simp: e2 r1(7) split: option.splits)
  have hd: "held r2 = held r"
    by (intro ext) (auto simp: held_def e2 r1(7) split: option.splits)
  have "finished_nodes (m_id r0) (link_edge r0) (insert ?d S) (cost_of r2)"
    unfolding cost2 by (rule finished_nodes.finish_node [OF fin exact dest(1)])
  then have "settled r0 r2 (insert ?d S)"
    using st r2(2) same2(2) lk hd ids e2 g(2,3) by (auto simp: settled_def gateway_ok_def)
  moreover have "add_destination r sh = Inr r2"
    using fp g(1) r2(1) by (simp add: add_destination_def flip: bindR_assoc)
  ultimately show ?thesis using ids cost2 by auto
qed

interpretation start: finished_nodes "m_id r" "link_edge r" "{m_id r}" "cost_of r" for r
  by unfold_locales (simp_all add: cost_of_def shortest_cost_source)

lemma settled_start: "router_inv r \<Longrightarrow> settled r r {m_id r}"
  using start.finished_nodes_axioms [of r] by (simp add: settled_def)

text \<open>A link that leaves the set.\<close>

lemma leaving_iff:
  "(k, u, v) \<in> leaving r S \<longleftrightarrow> u \<in> S \<and> v \<notin> S \<and> (\<exists>w. link_edge r u v w \<and> k = cost_of r u + w)"
  by (auto simp: leaving_def node_cands_def link_cands_def link_edge_iff)

lemma links_edge: "links r = links r' \<Longrightarrow> link_edge r = link_edge r'"
  by (intro ext) (simp add: link_edge_def)

lemma link_edge_le: "link_edge r u v w \<Longrightarrow> w \<le> 255"
proof -
  assume "link_edge r u v w"
  then obtain c :: byte where "w = unat c" by (auto simp: link_edge_iff)
  then show ?thesis using unat_byte_less [of c] by simp
qed

lemma settled_links:
  "settled r0 r S \<Longrightarrow> m_id r = m_id r0 \<and> link_edge r = link_edge r0 \<and> nbrs r = nbrs r0"
  using same_node_nbrs [of r0 r] links_edge [of r r0] by (auto simp: settled_def)

lemma chosen_exact:
  assumes st: "settled r0 r S" and b: "best (leaving r S) sh" and ne: "leaving r S \<noteq> {}"
  shows "link_src sh \<in> S \<and> link_dest sh \<notin> S \<and>
    (\<exists>w. link_edge r0 (link_src sh) (link_dest sh) w \<and> unat (link_cost sh) = cost_of r (link_src sh) + w) \<and>
    shortest_cost (m_id r0) (link_edge r0) (link_dest sh) (unat (link_cost sh))"
proof -
  have eq: "link_edge r = link_edge r0" using settled_links [OF st] by simp
  have least: "link_key sh \<in> leaving r S" "\<And>k. k \<in> leaving r S \<Longrightarrow> link_key sh \<le> k"
    using b ne by (simp_all add: best_def)
  then obtain w where w: "link_src sh \<in> S" "link_dest sh \<notin> S"
    "link_edge r0 (link_src sh) (link_dest sh) w" "unat (link_cost sh) = cost_of r (link_src sh) + w"
    by (auto simp: link_key_def leaving_iff eq)
  have "unat (link_cost sh) \<le> cost_of r a + w'" if "a \<in> S" "c \<notin> S" "link_edge r0 a c w'" for a c w'
  proof -
    have "(cost_of r a + w', a, c) \<in> leaving r S" using that by (auto simp: leaving_iff eq)
    from least(2) [OF this] show ?thesis by (auto simp: link_key_def less_eq_prod_def)
  qed
  then have "shortest_cost (m_id r0) (link_edge r0) (link_dest sh) (cost_of r (link_src sh) + w)"
    using st w by (intro finished_nodes.cheapest_edge_exact [of _ _ S]) (auto simp: settled_def)
  then show ?thesis using w by auto
qed

lemma set_add_ok:
  assumes "cur_ok cur" "card (insert v (cur_nodes cur)) \<le> MAX_NUM_ROUTERS" "v \<notin> cur_nodes cur"
  shows "\<exists>cur'. set_add cur v = Inr cur' \<and> cur_ok cur' \<and> cur_nodes cur' = insert v (cur_nodes cur) \<and>
    unat (set_num_routers cur') = Suc (unat (set_num_routers cur))"
proof -
  let ?n = "unat (set_num_routers cur)"
  have "card (cur_nodes cur) = ?n"
    using assms(1) by (simp add: cur_nodes_def cur_ok_def distinct_card)
  then have n: "?n < MAX_NUM_ROUTERS" "?n < length (set_id cur)"
    using assms by (simp_all add: card_insert_disjoint cur_ok_def)
  let ?cur = "cur\<lparr>set_id := (set_id cur)[?n := v], set_num_routers := set_num_routers cur + 1\<rparr>"
  have s: "unat (set_num_routers cur + 1) = Suc ?n" using n(1) by (simp add: unat_word_ariths MAX_NUM_ROUTERS_def)
  have t: "take (Suc ?n) ((set_id cur)[?n := v]) = take ?n (set_id cur) @ [v]"
    using n(2) by (simp add: take_Suc_conv_app_nth)
  have "set_add cur v = Inr ?cur" using n by (simp add: set_add_def)
  moreover have "cur_ok ?cur" using assms(1,3) n(1) by (simp add: cur_ok_def cur_nodes_def s t)
  moreover have "cur_nodes ?cur = insert v (cur_nodes cur)" by (simp add: cur_nodes_def s t)
  ultimately show ?thesis using s by auto
qed

section \<open>The loop\<close>

definition loop_inv :: "router \<Rightarrow> router \<Rightarrow> ls_set \<Rightarrow> bool" where
  "loop_inv r0 r cur \<longleftrightarrow> settled r0 r (cur_nodes cur) \<and> cur_ok cur \<and>
     cur_nodes cur \<subseteq> known_nodes r0 \<and> set (dest_ids r) \<subseteq> known_nodes r0 \<and>
     (\<forall>u \<in> cur_nodes cur. cost_of r u + 255 \<le> 255 * card (cur_nodes cur))"

definition loop_done :: "router \<Rightarrow> router \<Rightarrow> byte set \<Rightarrow> bool" where
  "loop_done r0 r S \<longleftrightarrow> settled r0 r S \<and> set (dest_ids r) \<subseteq> known_nodes r0 \<and>
     (S = insert (m_id r0) (set (dest_ids r)) \<or> (\<forall>u \<in> S. \<forall>v w. v \<notin> S \<longrightarrow> \<not> link_edge r0 u v w))"

definition few_nodes :: "router \<Rightarrow> bool" where
  "few_nodes r \<longleftrightarrow> card (known_nodes r) \<le> MAX_NUM_ROUTERS \<and> 255 \<notin> known_nodes r"

lemma loop_exit:
  assumes "loop_inv r0 r cur" "m_num_destinations r < set_num_routers cur"
  shows "loop_done r0 r (cur_nodes cur)"
proof -
  let ?D = "insert (m_id r0) (set (dest_ids r))"
  have st: "settled r0 r (cur_nodes cur)" and ok: "cur_ok cur" using assms(1) by (simp_all add: loop_inv_def)
  have inv: "router_inv r" "m_id r = m_id r0" "cur_nodes cur \<subseteq> ?D"
    using st settled_links [OF st] by (auto simp: settled_def)
  have "card ?D \<le> Suc (unat (m_num_destinations r))"
    using inv card_length [of "dest_ids r"] length_dest_ids [of r]
    by (auto simp: router_inv_def card_insert_if)
  also have "\<dots> \<le> unat (set_num_routers cur)" using assms(2) by (simp add: word_less_nat_alt)
  also have "\<dots> = card (cur_nodes cur)" using ok by (simp add: cur_nodes_def cur_ok_def distinct_card)
  finally have "cur_nodes cur = ?D" using inv(3) by (intro card_seteq) auto
  with st assms(1) show ?thesis by (simp add: loop_done_def loop_inv_def)
qed

lemma loop_cost_bound:
  assumes "loop_inv r0 r cur" "few_nodes r0" "u \<in> cur_nodes cur"
  shows "u \<noteq> 255 \<and> cost_of r u + 255 < 2 ^ 15"
proof -
  have "card (cur_nodes cur) \<le> card (known_nodes r0)"
    using assms(1) by (intro card_mono) (auto simp: loop_inv_def)
  then have "card (cur_nodes cur) \<le> 32" using assms(2) by (simp add: few_nodes_def MAX_NUM_ROUTERS_def)
  moreover have "cost_of r u + 255 \<le> 255 * card (cur_nodes cur)" "u \<in> known_nodes r0"
    using assms by (auto simp: loop_inv_def)
  ultimately show ?thesis using assms(2) by (auto simp: few_nodes_def)
qed


lemma loop_step:
  assumes li: "loop_inv r0 r cur" and few: "few_nodes r0" and b: "best (leaving r (cur_nodes cur)) sh"
    and ne: "leaving r (cur_nodes cur) \<noteq> {}"
  shows "\<exists>cur' r'. set_add cur (link_dest sh) = Inr cur' \<and> add_destination r sh = Inr r' \<and>
    loop_inv r0 r' cur' \<and> cur_nodes cur \<subseteq> cur_nodes cur'"
proof -
  let ?S = "cur_nodes cur" and ?d = "link_dest sh"
  have st: "settled r0 r ?S" and ok: "cur_ok cur" and inv: "router_inv r" "router_inv r0"
    using li by (auto simp: loop_inv_def settled_def)
  have id: "m_id r = m_id r0" "link_edge r = link_edge r0" using settled_links [OF st] by simp_all
  obtain w where c: "link_src sh \<in> ?S" "?d \<notin> ?S" "link_edge r0 (link_src sh) ?d w"
    "unat (link_cost sh) = cost_of r (link_src sh) + w"
    "shortest_cost (m_id r0) (link_edge r0) ?d (unat (link_cost sh))"
    using chosen_exact [OF st b ne] by blast
  have known: "?d \<in> known_nodes r0"
    using c(3) links_known [OF inv(2)] by (auto simp: link_edge_iff)
  then have d255: "?d \<noteq> 255" using few by (auto simp: few_nodes_def)
  have sub: "insert ?d ?S \<subseteq> known_nodes r0" using known li by (auto simp: loop_inv_def)
  then have "card (insert ?d ?S) \<le> MAX_NUM_ROUTERS"
    using card_mono [of "known_nodes r0" "insert ?d ?S"] few by (simp add: few_nodes_def)
  from set_add_ok [OF ok this c(2)] obtain cur' where cur': "set_add cur ?d = Inr cur'" "cur_ok cur'"
    "cur_nodes cur' = insert ?d ?S" by blast
  have room: "unat (m_num_destinations r) < MAX_NUM_ROUTERS"
    using dests_le [OF inv(1), of "known_nodes r0"] li few inv(1) id length_dests [of r]
    by (auto simp: loop_inv_def few_nodes_def router_inv_def known_nodes_def)
  obtain r' where r': "add_destination r sh = Inr r'" "settled r0 r' (insert ?d ?S)"
    "set (dest_ids r') = insert ?d (set (dest_ids r))" "cost_of r' = (cost_of r)(?d := unat (link_cost sh))"
    using add_destination_ok [OF st c(1,2) d255 room c(3,4,5)] by blast
  have "cost_of r' u + 255 \<le> 255 * card (insert ?d ?S)" if "u \<in> insert ?d ?S" for u
  proof -
    have bound: "cost_of r x + 255 \<le> 255 * card ?S" if "x \<in> ?S" for x
      using li that by (simp add: loop_inv_def)
    have w: "w \<le> 255" using c(3) by (rule link_edge_le)
    have card: "card (insert ?d ?S) = Suc (card ?S)" using c(2) by simp
    show ?thesis
      using bound [OF c(1)] bound [of u] c(4) w card that unfolding r'(4) by (cases "u = ?d") auto
  qed
  then have "loop_inv r0 r' cur'"
    using r' cur' sub known li by (simp add: loop_inv_def)
  with cur' r'(1) show ?thesis by blast
qed

lemma update_loop_ok:
  "loop_inv r0 r cur \<Longrightarrow> few_nodes r0 \<Longrightarrow>
    \<exists>r' S. update_loop r cur sh = Inr r' \<and> loop_done r0 r' S \<and> cur_nodes cur \<subseteq> S"
proof (induction r cur sh rule: update_loop.induct)
  case (1 r cur sh)
  have inv: "router_inv r" "cur_ok cur" using "1.prems"(1) by (auto simp: loop_inv_def settled_def)
  obtain sh1 where sh1: "find_shortest r cur sh = Inr sh1" "best (leaving r (cur_nodes cur)) sh1"
    using find_shortest_best [OF inv loop_cost_bound [OF "1.prems"]] by blast
  show ?case
  proof (cases "set_num_routers cur \<le> m_num_destinations r")
    case False
    then show ?thesis
      using loop_exit [OF "1.prems"(1)] by (auto simp: update_loop.simps [of r] not_le)
  next
    case True
    show ?thesis
    proof (cases "leaving r (cur_nodes cur) = {}")
      case empty: True
      then have "sint (link_cost sh1) = -1" using sh1(2) by (simp add: best_def)
      then have "update_loop r cur sh = Inr r" using True sh1(1) by (simp add: update_loop.simps [of r])
      moreover have st: "settled r0 r (cur_nodes cur)" using "1.prems"(1) by (simp add: loop_inv_def)
      moreover have "set (dest_ids r) \<subseteq> known_nodes r0" using "1.prems"(1) by (simp add: loop_inv_def)
      moreover have "\<not> link_edge r0 u v w" if "u \<in> cur_nodes cur" "v \<notin> cur_nodes cur" for u v w
        using empty leaving_iff [of _ u v r "cur_nodes cur"] that settled_links [OF st] by auto
      ultimately show ?thesis by (auto simp: loop_done_def)
    next
      case ne: False
      then have "unat (link_cost sh1) < 2 ^ 15" using sh1(2) by (simp add: best_def)
      then have "sint (link_cost sh1) = uint (link_cost sh1)" by (rule sint_small)
      then have go: "sint (link_cost sh1) \<noteq> -1" using uint_ge_0 [of "link_cost sh1"] by linarith
      obtain cur' r1 where s: "set_add cur (link_dest sh1) = Inr cur'" "add_destination r sh1 = Inr r1"
        "loop_inv r0 r1 cur'" "cur_nodes cur \<subseteq> cur_nodes cur'"
        using loop_step [OF "1.prems" sh1(2) ne] by blast
      have "update_loop r cur sh = update_loop r1 cur' sh1"
        using True sh1(1) go s(1,2) by (simp add: update_loop.simps [of r])
      then show ?thesis
        using "1.IH" [OF True sh1(1) go s(1,2,3) "1.prems"(2)] s(4) by auto
    qed
  qed
qed

lemma loop_inv_start: "router_inv r \<Longrightarrow> loop_inv r r (start_set r)"
  using settled_start [of r]
  by (auto simp: loop_inv_def start_set_def cur_nodes_def cur_ok_def MAX_NUM_ROUTERS_def cost_of_def known_nodes_def)

section \<open>The table at the end\<close>

text \<open>
  The forwarding table is right for the graph the router knows: every destination that can be
  reached has the cost of a shortest path, and its gateway is the first hop of such a path.
\<close>

definition reachable :: "router \<Rightarrow> byte \<Rightarrow> bool" where
  "reachable r u \<longleftrightarrow> (\<exists>c. path_cost (m_id r) (link_edge r) u c)"

definition routes_ok :: "router \<Rightarrow> bool" where
  "routes_ok r \<longleftrightarrow> (\<forall>u e. entry_of r u = Some e \<and> reachable r u \<longrightarrow>
     shortest_cost (m_id r) (link_edge r) u (unat (re_cost e)) \<and> gateway_ok r u e)"

lemma gateway_ok_cong: "nbrs r = nbrs r' \<Longrightarrow> m_id r = m_id r' \<Longrightarrow> link_edge r = link_edge r' \<Longrightarrow> gateway_ok r = gateway_ok r'"
  by (intro ext) (simp add: gateway_ok_def)

lemma loop_done_routes:
  assumes "loop_done r0 r S"
  shows "routes_ok r"
proof -
  have st: "settled r0 r S" using assms by (simp add: loop_done_def)
  have eq: "m_id r = m_id r0" "link_edge r = link_edge r0" "nbrs r = nbrs r0" using settled_links [OF st] by simp_all
  have fin: "finished_nodes (m_id r0) (link_edge r0) S (cost_of r)" using st by (simp add: settled_def)
  show ?thesis
    unfolding routes_ok_def
  proof (intro allI impI)
    fix u e assume u: "entry_of r u = Some e \<and> reachable r u"
    then obtain c where c: "path_cost (m_id r0) (link_edge r0) u c" using eq by (auto simp: reachable_def)
    have d: "u \<in> set (dest_ids r)" using u entry_of_eq_None [of r u] by auto
    then have self: "u \<noteq> m_id r0" using st eq by (auto simp: settled_def router_inv_def)
    have "u \<in> S"
      using assms d c finished_nodes.nothing_leaves [OF fin] by (auto simp: loop_done_def)
    moreover from this have "shortest_cost (m_id r0) (link_edge r0) u (cost_of r u)"
      using fin by (simp add: finished_nodes_def)
    moreover have "cost_of r u = unat (re_cost e)" using u self eq by (simp add: cost_of_def)
    moreover have "gateway_ok r0 u e" using st u self \<open>u \<in> S\<close> by (auto simp: settled_def)
    ultimately show "shortest_cost (m_id r) (link_edge r) u (unat (re_cost e)) \<and> gateway_ok r u e"
      using eq gateway_ok_cong [of r r0] by simp
  qed
qed

lemma known_nodes_links:
  assumes "router_inv r"
  shows "known_nodes r = insert (m_id r) (set (dest_ids r)) \<union> nb_node_id ` set (nbrs r) \<union>
    (\<Union>u \<in> set (dest_ids r). fst ` set (links r u))"
proof -
  have "(case re_packet e of None \<Rightarrow> {} | Some p \<Rightarrow> fst ` set (pkt_entries p)) = fst ` set (links r (re_dest_id e))"
    if "e \<in> set (dests r)" for e
  proof -
    have "entry_of r (re_dest_id e) = Some e" using that assms by (simp add: entry_of_eq_Some)
    moreover from this have "re_dest_id e \<in> set (dest_ids r)" by (metis entry_of_eq_None option.distinct(1))
    then have "re_dest_id e \<noteq> m_id r" using assms by (auto simp: router_inv_def)
    ultimately show ?thesis by (simp add: links_def split: option.splits)
  qed
  then show ?thesis by (simp add: known_nodes_def dest_ids_def)
qed

lemma loop_from_start:
  assumes "router_inv r" "few_nodes r"
  shows "\<exists>r'. update_loop r (start_set r) sh = Inr r' \<and> router_inv r' \<and> same_node r r' \<and>
    links r' = links r \<and> held r' = held r \<and> set (dest_ids r) \<subseteq> set (dest_ids r') \<and> routes_ok r' \<and>
    known_nodes r' \<subseteq> known_nodes r \<and> (\<forall>u. \<not> reachable r u \<longrightarrow> entry_of r' u = entry_of r u)"
proof -
  obtain r' S where r': "update_loop r (start_set r) sh = Inr r'" "loop_done r r' S"
    using update_loop_ok [OF loop_inv_start [OF assms(1)] assms(2)] by blast
  then have st: "settled r r' S" by (simp add: loop_done_def)
  have "u \<notin> S" if "\<not> reachable r u" for u
    using st that by (auto simp: settled_def finished_nodes_def reachable_def shortest_cost_def)
  moreover have "known_nodes r' \<subseteq> known_nodes r"
  proof -
    have "v \<in> known_nodes r" if "v \<in> fst ` set (links r' u)" for u v
      using that st links_known [OF assms(1), of v _ u] by (auto simp: settled_def)
    then have "(\<Union>u \<in> set (dest_ids r'). fst ` set (links r' u)) \<subseteq> known_nodes r" by blast
    moreover have "insert (m_id r') (set (dest_ids r')) \<union> nb_node_id ` set (nbrs r') \<subseteq> known_nodes r"
      using r'(2) settled_links [OF st] by (auto simp: loop_done_def known_nodes_def)
    moreover have "router_inv r'" using st by (simp add: settled_def)
    ultimately show ?thesis using known_nodes_links [of r'] by simp
  qed
  ultimately show ?thesis using r' st loop_done_routes [OF r'(2)] by (auto simp: settled_def)
qed

end
