(* ===== verification/RouterTable.thy ===== *)
theory RouterTable
  imports RouterDijkstra
begin

text \<open>
  \<^verbatim>\<open>update_routing_table\<close> as a whole: which packets it takes, what it keeps of them, and that the
  table it leaves is right for the graph it knows.  \<open>links\<close> is the abstract state, the link-state
  database: a packet that brings news replaces the links of its origin, any other packet leaves
  the database as it was.
\<close>

section \<open>Does a packet bring news?\<close>

definition pkt_news :: "ls_packet \<Rightarrow> ls_packet \<Rightarrow> bool" where
  "pkt_news orig p \<longleftrightarrow> pkt_seq_num orig < pkt_seq_num p \<and>
     \<not> (length (pkt_entries p) = length (pkt_entries orig) \<and> take 1 (pkt_entries p) = take 1 (pkt_entries orig) \<and> pkt_entries p \<noteq> [])"

lemma pkt_entries_first:
  "pkt_ok p \<Longrightarrow> 0 < pkt_num_entries p \<Longrightarrow> take 1 (pkt_entries p) = [(pkt_dest_id p ! 0, pkt_cost p ! 0)]"
  by (cases "pkt_dest_id p"; cases "pkt_cost p")
    (auto simp: pkt_entries_def pkt_ok_def pkt_shape_def MAX_NUM_ROUTERS_def take_Cons' word_less_nat_alt)

lemma pkt_entries_len: "pkt_ok p \<Longrightarrow> length (pkt_entries p) = unat (pkt_num_entries p)"
  by (simp add: pkt_ok_def length_pkt_entries)

lemma packet_news:
  assumes "pkt_ok orig" "pkt_ok p"
  shows "packet_has_update orig p = Inr (pkt_news orig p)"
proof -
  have len: "length (pkt_dest_id q) = MAX_NUM_ROUTERS \<and> length (pkt_cost q) = MAX_NUM_ROUTERS" if "pkt_ok q" for q
    using that by (simp add: pkt_ok_def pkt_shape_def)
  have num: "pkt_num_entries p = pkt_num_entries orig \<longleftrightarrow> length (pkt_entries p) = length (pkt_entries orig)"
    using assms by (simp add: pkt_entries_len word_unat_eq_iff)
  have nz: "0 < pkt_num_entries p \<longleftrightarrow> pkt_entries p \<noteq> []"
    using pkt_entries_len [OF assms(2)] by (metis length_0_conv unat_eq_0 word_gt_0)
  show ?thesis
  proof (cases "pkt_num_entries p = pkt_num_entries orig \<and> 0 < pkt_num_entries p")
    case True
    then have "0 < pkt_num_entries orig" by metis
    from pkt_entries_first [OF assms(1) this] pkt_entries_first [OF assms(2)] True num nz len [OF assms(1)] len [OF assms(2)]
    show ?thesis by (auto simp: packet_has_update_def pkt_news_def MAX_NUM_ROUTERS_def)
  next
    case False
    then show ?thesis using num nz by (auto simp: packet_has_update_def pkt_news_def)
  qed
qed

lemma packet_has_update_news_witness:
  "packet_has_update (zero_packet\<lparr>pkt_num_entries := 2\<rparr>) (zero_packet\<lparr>pkt_seq_num := 1, pkt_num_entries := 2, pkt_cost := replicate 1 0 @ replicate 31 9\<rparr>) = Inr False"
proof -
  let ?a = "zero_packet\<lparr>pkt_num_entries := 2\<rparr>" and ?b = "zero_packet\<lparr>pkt_seq_num := 1, pkt_num_entries := 2, pkt_cost := replicate 1 0 @ replicate 31 9\<rparr>"
  have ok: "pkt_ok ?a" "pkt_ok ?b" by (simp_all add: pkt_ok_def pkt_shape_def zero_packet_def MAX_NUM_ROUTERS_def)
  have "\<not> pkt_news ?a ?b"
    by code_simp
  with packet_news [OF ok] show ?thesis by simp
qed

section \<open>Storing a packet\<close>

text \<open>Whether the router takes the packet, and every node it has heard of then.\<close>

definition news :: "router \<Rightarrow> ls_packet \<Rightarrow> bool" where
  "news r p = (case entry_of r (pkt_origin p) of None \<Rightarrow> True
     | Some e \<Rightarrow> pkt_news (case re_packet e of None \<Rightarrow> zero_packet | Some q \<Rightarrow> q) p)"

definition heard :: "router \<Rightarrow> ls_packet \<Rightarrow> byte set" where
  "heard r p = known_nodes r \<union> insert (pkt_origin p) (fst ` set (pkt_entries p))"

text \<open>The route the table holds for a node.\<close>

definition route_of :: "router \<Rightarrow> byte \<Rightarrow> (byte \<times> u16) option" where
  "route_of r u = map_option (\<lambda>e. (re_gateway_idx e, re_cost e)) (entry_of r u)"

lemma zero_packet_ok: "pkt_ok zero_packet" "pkt_entries zero_packet = []"
  by (simp_all add: pkt_ok_def pkt_shape_def zero_packet_def MAX_NUM_ROUTERS_def pkt_entries_def)

lemma dest_not_self:
  assumes "router_inv r" "i < length (dests r)"
  shows "re_dest_id (dests r ! i) \<noteq> m_id r"
proof -
  have "re_dest_id (dests r ! i) \<in> set (dest_ids r)" using assms(2) by (simp add: dest_ids_def)
  moreover have "m_id r \<notin> set (dest_ids r)" using assms(1) by (simp add: router_inv_def)
  ultimately show ?thesis by metis
qed

lemma update_packet_ok:
  assumes inv: "router_inv r" and i: "i < length (dests r)" and q: "pkt_ok q"
    and f: "\<And>e. re_dest_id (f e) = re_dest_id e" "re_packet (f (dests r ! i)) = Some q"
  shows "\<exists>r'. update_entry r (of_nat i) f = Inr r' \<and> router_inv r' \<and> same_node r r' \<and>
    dest_ids r' = dest_ids r \<and> dests r' = (dests r)[i := f (dests r ! i)] \<and>
    (\<forall>u. entry_of r' u = (if u = re_dest_id (dests r ! i) then Some (f (dests r ! i)) else entry_of r u)) \<and>
    links r' = (links r)(re_dest_id (dests r ! i) := pkt_entries q) \<and> held r' = (held r)(re_dest_id (dests r ! i) := q) \<and>
    known_nodes r' \<subseteq> known_nodes r \<union> fst ` set (pkt_entries q)"
proof -
  let ?e = "dests r ! i"
  obtain r' where r': "update_entry r (of_nat i) f = Inr r'" "router_inv r'" "same_node r r'"
    "dests r' = (dests r)[i := f ?e]"
    using update_entry_ok [OF inv i, of f] f q by auto
  have e: "entry_of r' u = (if u = re_dest_id ?e then Some (f ?e) else entry_of r u)" for u
    using entry_of_update [OF inv r'(2) i r'(4)] f(1) by simp
  have ids: "dest_ids r' = dest_ids r"
    using r'(4) i f(1) by (simp add: dest_ids_def map_update) (metis list_update_id map_update)
  have self: "re_dest_id ?e \<noteq> m_id r"
    by (rule dest_not_self [OF inv i])
  have lk: "links r' = (links r)(re_dest_id ?e := pkt_entries q)"
    using same_node_nbrs [OF r'(3)] self by (intro ext) (auto simp: links_def e f(2))
  have "known_nodes r' \<subseteq> known_nodes r \<union> fst ` set (pkt_entries q)"
  proof
    fix v assume "v \<in> known_nodes r'"
    then consider "v \<in> insert (m_id r) (set (dest_ids r)) \<union> nb_node_id ` set (nbrs r)"
      | x p where "x \<in> set (dests r')" "re_packet x = Some p" "v \<in> fst ` set (pkt_entries p)"
      using ids same_node_nbrs [OF r'(3)] by (auto simp: known_nodes_def split: option.splits)
    then show "v \<in> known_nodes r \<union> fst ` set (pkt_entries q)"
    proof cases
      case 2
      then have "x = f ?e \<or> x \<in> set (dests r)"
        using r'(4) set_update_subset_insert [of "dests r" i] by auto
      then show ?thesis
      proof
        assume "x \<in> set (dests r)"
        then have "v \<in> (\<Union>e \<in> set (dests r). case re_packet e of None \<Rightarrow> {} | Some p \<Rightarrow> fst ` set (pkt_entries p))"
          using 2 by (intro UN_I [of x]) simp_all
        then show ?thesis by (simp add: known_nodes_def)
      qed (use 2 f(2) in simp)
    qed (auto simp: known_nodes_def)
  qed
  moreover have "held r' = (held r)(re_dest_id ?e := q)" by (intro ext) (auto simp: held_def e f(2))
  ultimately show ?thesis using r' e ids lk by blast
qed

lemma store_packet_new:
  assumes inv: "router_inv r" and p: "pkt_ok p" "pkt_origin p \<noteq> 255" "pkt_origin p \<noteq> m_id r"
    and new: "entry_of r (pkt_origin p) = None" and room: "unat (m_num_destinations r) < MAX_NUM_ROUTERS"
  shows "\<exists>r'. store_packet r p = Inr (r', True) \<and> router_inv r' \<and> same_node r r' \<and>
    links r' = (links r)(pkt_origin p := pkt_entries p) \<and> held r' = (held r)(pkt_origin p := p) \<and> known_nodes r' \<subseteq> heard r p \<and>
    set (dest_ids r') = insert (pkt_origin p) (set (dest_ids r)) \<and>
    (\<forall>u. u \<noteq> pkt_origin p \<longrightarrow> entry_of r' u = entry_of r u)"
proof -
  let ?f = "\<lambda>e. e\<lparr>re_dest_id := pkt_origin p, re_cost := -1, re_packet := Some p\<rparr>"
  have nd: "pkt_origin p \<notin> set (dest_ids r)" using new by (simp add: entry_of_eq_None)
  obtain r' e where r': "push_entry r ?f = Inr (m_num_destinations r, r')" "router_inv r'" "same_node r r'"
    "dests r' = dests r @ [?f e]"
    using push_entry_ok [OF inv room, of ?f "pkt_origin p"] p nd by auto
  have e: "entry_of r' u = (if u = pkt_origin p then Some (?f e) else entry_of r u)" for u
    using r'(4) new by (auto simp: entry_of_def map_add_def split: option.splits)
  have lk: "links r' = (links r)(pkt_origin p := pkt_entries p)"
    using same_node_nbrs [OF r'(3)] p(3) by (intro ext) (auto simp: links_def e)
  have "dest_ids r' = dest_ids r @ [pkt_origin p]" using r'(4) by (simp add: dest_ids_def)
  moreover from this have "known_nodes r' \<subseteq> heard r p"
    using r'(4) same_node_nbrs [OF r'(3)] by (auto simp: known_nodes_def heard_def)
  moreover have "store_packet r p = Inr (r', True)"
    using lookup_out [OF inv p(2) nd] r'(1) by (simp add: store_packet_def)
  moreover have "held r' = (held r)(pkt_origin p := p)" by (intro ext) (auto simp: held_def e)
  ultimately show ?thesis using r' lk e by auto
qed


lemma store_packet_known:
  assumes inv: "router_inv r" and p: "pkt_ok p" and old: "entry_of r (pkt_origin p) = Some e"
  shows "\<exists>r'. store_packet r p = Inr (r', news r p) \<and> router_inv r' \<and> same_node r r' \<and>
    links r' = (if news r p then (links r)(pkt_origin p := pkt_entries p) else links r) \<and>
    held r' = (if news r p then (held r)(pkt_origin p := p) else held r) \<and>
    known_nodes r' \<subseteq> heard r p \<and> dest_ids r' = dest_ids r \<and> route_of r' = route_of r"
proof -
  let ?o = "pkt_origin p"
  obtain i where i: "i < length (dests r)" "dests r ! i = e" "re_dest_id e = ?o"
    "Router_GetRoutingEntryForNode r ?o = Inr (Some (of_nat i))"
    using get_entry_in [OF inv old] old entry_of_eq_Some [OF inv] by blast
  let ?q = "case re_packet e of None \<Rightarrow> zero_packet | Some q \<Rightarrow> q"
  let ?f = "\<lambda>e. e\<lparr>re_packet := (case re_packet e of None \<Rightarrow> Some zero_packet | Some q \<Rightarrow> Some q)\<rparr>"
  have fe: "re_packet (?f e) = Some ?q" by (simp split: option.splits)
  have q: "pkt_ok ?q"
    using inv i(1,2) nth_mem [OF i(1)] zero_packet_ok(1)
    by (auto simp: router_inv_def packets_ok_def split: option.splits)
  obtain r1 where r1: "update_entry r (of_nat i) ?f = Inr r1" "router_inv r1" "same_node r r1"
    "dest_ids r1 = dest_ids r" "dests r1 = (dests r)[i := ?f e]"
    "\<And>u. entry_of r1 u = (if u = ?o then Some (?f e) else entry_of r u)"
    "links r1 = (links r)(?o := pkt_entries ?q)" "held r1 = (held r)(?o := ?q)" "known_nodes r1 \<subseteq> known_nodes r \<union> fst ` set (pkt_entries ?q)"
    using update_packet_ok [OF inv i(1) q, of ?f] fe i(2,3) by auto
  have self: "?o \<noteq> m_id r" using dest_not_self [OF inv i(1)] i(2,3) by simp
  have "links r ?o = pkt_entries ?q"
    using self old zero_packet_ok(2) by (simp add: links_def split: option.splits)
  then have lk1: "links r1 = links r" using r1(7) by auto
  have "held r ?o = ?q" using old by (simp add: held_def)
  then have hd1: "held r1 = held r" using r1(8) by auto
  have len: "i < length (dests r1)" "dests r1 ! i = ?f e" using r1(5) i(1) by simp_all
  have kn1: "known_nodes r1 \<subseteq> known_nodes r"
  proof -
    have "fst ` set (pkt_entries ?q) \<subseteq> known_nodes r"
      using links_known [OF inv, of _ _ ?o] \<open>links r ?o = pkt_entries ?q\<close> by (metis image_subsetI prod.collapse)
    with r1(9) show ?thesis by auto
  qed
  have at: "entry_at r1 (Some (of_nat i)) = Inr (?f e)"
  proof -
    have "shape_ok r1" using r1(2) by (simp add: router_inv_def)
    moreover from this have "i < 32" using len(1) by (simp add: length_dests shape_ok_def MAX_NUM_ROUTERS_def)
    ultimately show ?thesis
      using len nth_dests [OF len(1)] by (simp add: entry_at_def uint_nat unat_of_nat shape_ok_def MAX_NUM_ROUTERS_def)
  qed
  have news: "packet_has_update ?q p = Inr (news r p)"
    using packet_news [OF q p] old by (simp add: news_def)
  have head: "store_packet r p = (if news r p
     then bindR (update_entry r1 (of_nat i) (\<lambda>e. e\<lparr>re_packet := Some p\<rparr>)) (\<lambda>r. Inr (r, True)) else Inr (r1, False))"
    using i(4) r1(1) at fe news by (simp add: store_packet_def)
  show ?thesis
  proof (cases "news r p")
    case False
    moreover have "route_of r1 = route_of r" using old by (intro ext) (simp add: route_of_def r1(6))
    ultimately show ?thesis using head r1 lk1 hd1 kn1 by (auto simp: heard_def)
  next
    case True
    have id: "re_dest_id (dests r1 ! i) = ?o" using len(2) i(3) by simp
    obtain r2 where r2: "update_entry r1 (of_nat i) (\<lambda>e. e\<lparr>re_packet := Some p\<rparr>) = Inr r2" "router_inv r2" "same_node r1 r2"
      "dest_ids r2 = dest_ids r1"
      "\<And>u. entry_of r2 u = (if u = ?o then Some (?f e\<lparr>re_packet := Some p\<rparr>) else entry_of r1 u)"
      "links r2 = (links r1)(?o := pkt_entries p)" "held r2 = (held r1)(?o := p)" "known_nodes r2 \<subseteq> known_nodes r1 \<union> fst ` set (pkt_entries p)"
      using update_packet_ok [OF r1(2) len(1) p, of "\<lambda>e. e\<lparr>re_packet := Some p\<rparr>"] id len(2) by auto
    have "route_of r2 = route_of r" using old by (intro ext) (simp add: route_of_def r1(6) r2(5))
    then show ?thesis
      using True head r2 r1(3,4,6) lk1 hd1 kn1 same_node_trans [OF r1(3) r2(3)]
      by (intro exI [of _ r2]) (auto simp: heard_def)
  qed
qed

section \<open>The whole function\<close>

lemma heard_room:
  assumes "router_inv r" "card (heard r p) \<le> MAX_NUM_ROUTERS" "pkt_origin p \<noteq> m_id r"
    "pkt_origin p \<notin> set (dest_ids r)"
  shows "unat (m_num_destinations r) < MAX_NUM_ROUTERS"
proof -
  have "set (dest_ids r) \<subseteq> heard r p - {m_id r}"
    using assms(1) by (auto simp: heard_def known_nodes_def router_inv_def)
  from dests_le [OF assms(1) this _ _ assms(2)] show ?thesis
    using assms(1) length_dests [of r] by (simp add: heard_def known_nodes_def router_inv_def)
qed

lemma store_packet_ok:
  assumes "router_inv r" "pkt_ok p" "pkt_origin p \<noteq> m_id r" "card (heard r p) \<le> MAX_NUM_ROUTERS" "255 \<notin> heard r p"
  shows "\<exists>r'. store_packet r p = Inr (r', news r p) \<and> router_inv r' \<and> same_node r r' \<and>
    links r' = (if news r p then (links r)(pkt_origin p := pkt_entries p) else links r) \<and>
    held r' = (if news r p then (held r)(pkt_origin p := p) else held r) \<and> insert (pkt_origin p) (set (dest_ids r)) \<subseteq> set (dest_ids r') \<and>
    known_nodes r' \<subseteq> heard r p \<and> (\<not> news r p \<longrightarrow> route_of r' = route_of r) \<and>
    (\<forall>u. u \<noteq> pkt_origin p \<longrightarrow> route_of r' u = route_of r u)"
proof (cases "entry_of r (pkt_origin p)")
  case None
  then have "unat (m_num_destinations r) < MAX_NUM_ROUTERS"
    using heard_room [OF assms(1,4,3)] by (simp add: entry_of_eq_None)
  moreover have "news r p" using None by (simp add: news_def)
  ultimately show ?thesis using store_packet_new [OF assms(1,2) _ assms(3) None] assms(5)
    by (auto simp: heard_def route_of_def)
next
  case (Some e)
  then have "pkt_origin p \<in> set (dest_ids r)" using entry_of_eq_None [of r "pkt_origin p"] by auto
  then show ?thesis using store_packet_known [OF assms(1,2) Some] by auto
qed

text \<open>The correctness of the table depends on the graph and the routes only.\<close>

lemma routes_ok_route_of:
  "routes_ok r \<longleftrightarrow> (\<forall>u g c. route_of r u = Some (g, c) \<and> reachable r u \<longrightarrow>
     shortest_cost (m_id r) (link_edge r) u (unat c) \<and> unat g < length (nbrs r) \<and>
     path_via (m_id r) (link_edge r) (nb_node_id (nbrs r ! unat g)) u (unat c))"
  by (force simp: routes_ok_def route_of_def gateway_ok_def)

lemma routes_ok_same:
  assumes "same_node r r'" "links r' = links r" "route_of r' = route_of r"
  shows "routes_ok r' = routes_ok r"
  using same_node_nbrs [OF assms(1)] links_edge [OF assms(2)] assms(3)
  by (simp add: routes_ok_route_of reachable_def)

lemma update_routing_table_ok:
  assumes "router_inv r" "pkt_ok p" "pkt_origin p \<noteq> m_id r" "card (heard r p) \<le> MAX_NUM_ROUTERS" "255 \<notin> heard r p"
  shows "\<exists>r'. update_routing_table r p = Inr (news r p, r') \<and> router_inv r' \<and> same_node r r' \<and>
    links r' = (if news r p then (links r)(pkt_origin p := pkt_entries p) else links r) \<and>
    held r' = (if news r p then (held r)(pkt_origin p := p) else held r) \<and> insert (pkt_origin p) (set (dest_ids r)) \<subseteq> set (dest_ids r') \<and>
    known_nodes r' \<subseteq> heard r p \<and> (if news r p then routes_ok r' else route_of r' = route_of r) \<and>
    (\<forall>u. u \<noteq> pkt_origin p \<and> \<not> reachable r' u \<longrightarrow> route_of r' u = route_of r u)"
proof -
  obtain r0 where r0: "store_packet r p = Inr (r0, news r p)" "router_inv r0" "same_node r r0"
    "links r0 = (if news r p then (links r)(pkt_origin p := pkt_entries p) else links r)"
    "held r0 = (if news r p then (held r)(pkt_origin p := p) else held r)" "insert (pkt_origin p) (set (dest_ids r)) \<subseteq> set (dest_ids r0)" "known_nodes r0 \<subseteq> heard r p"
    "\<not> news r p \<Longrightarrow> route_of r0 = route_of r"
    "\<And>u. u \<noteq> pkt_origin p \<Longrightarrow> route_of r0 u = route_of r u"
    using store_packet_ok [OF assms] by blast
  have few: "few_nodes r0"
    using card_mono [OF _ r0(7)] assms(4,5) r0(7) by (auto simp: few_nodes_def)
  show ?thesis
  proof (cases "news r p")
    case True
    obtain r' where "update_loop r0 (start_set r0) \<lparr>link_src = 0, link_dest = 0, link_cost = -1\<rparr> = Inr r'"
      "router_inv r'" "same_node r0 r'" "links r' = links r0" "held r' = held r0" "set (dest_ids r0) \<subseteq> set (dest_ids r')" "routes_ok r'" "known_nodes r' \<subseteq> known_nodes r0"
      "\<And>u. \<not> reachable r0 u \<Longrightarrow> entry_of r' u = entry_of r0 u"
      using loop_from_start [OF r0(2) few] by blast
    moreover from this have "reachable r' = reachable r0"
      using same_node_nbrs [of r0 r'] links_edge [of r' r0] by (intro ext) (simp add: reachable_def)
    ultimately show ?thesis
      using r0 True assms(3) same_node_trans [OF r0(3)]
      by (auto simp: update_routing_table_def route_of_def)
  next
    case False
    then show ?thesis using r0 assms(3) by (simp add: update_routing_table_def)
  qed
qed

section \<open>Many packets\<close>

fun process_packets :: "router \<Rightarrow> ls_packet list \<Rightarrow> router result" where
  "process_packets r [] = Inr r"
| "process_packets r (p # ps) = bindR (update_routing_table r p) (\<lambda>(b, r). process_packets r ps)"

text \<open>All the packets are about the nodes \<open>N\<close>, which the arrays have room for.\<close>

definition packet_in :: "byte set \<Rightarrow> ls_packet \<Rightarrow> bool" where
  "packet_in N p \<longleftrightarrow> pkt_ok p \<and> pkt_origin p \<in> N \<and> fst ` set (pkt_entries p) \<subseteq> N"

lemma process_packets_ok:
  assumes "card N \<le> MAX_NUM_ROUTERS" "255 \<notin> N"
  shows "router_inv r \<Longrightarrow> known_nodes r \<subseteq> N \<Longrightarrow> list_all (packet_in N) ps \<Longrightarrow>
    \<exists>r'. process_packets r ps = Inr r' \<and> router_inv r' \<and> same_node r r' \<and> known_nodes r' \<subseteq> N \<and>
      (routes_ok r \<longrightarrow> routes_ok r')"
proof (induction ps arbitrary: r)
  case (Cons p ps)
  show ?case
  proof (cases "pkt_origin p = m_id r")
    case True
    then have "update_routing_table r p = Inr (False, r)" by (simp add: update_routing_table_def)
    with Cons show ?thesis by simp
  next
    case False
    have sub: "heard r p \<subseteq> N" using Cons.prems by (auto simp: heard_def packet_in_def)
    then have small: "card (heard r p) \<le> MAX_NUM_ROUTERS" "255 \<notin> heard r p"
      using card_mono [OF _ sub] assms by auto
    have "pkt_ok p" using Cons.prems by (simp add: packet_in_def)
    from update_routing_table_ok [OF Cons.prems(1) this False small] obtain r1 where
      r1: "update_routing_table r p = Inr (news r p, r1)" "router_inv r1" "same_node r r1" "known_nodes r1 \<subseteq> N"
      "links r1 = (if news r p then (links r)(pkt_origin p := pkt_entries p) else links r)"
      "if news r p then routes_ok r1 else route_of r1 = route_of r"
      using sub by blast
    have "routes_ok r1" if "routes_ok r"
      using that r1(5,6) routes_ok_same [OF r1(3)] by (auto split: if_splits)
    then show ?thesis
      using Cons.IH [OF r1(2,4)] Cons.prems(3) r1(1) same_node_trans [OF r1(3)] by auto
  qed
qed simp

end
