(* ===== verification/RouterIO.thy ===== *)
theory RouterIO
  imports RouterTable
begin

text \<open>
  The router around \<^verbatim>\<open>update_routing_table\<close>: reading the initialisation file, connecting to the
  neighbours, building and broadcasting the router's own packet, receiving and flooding packets
  (\<^verbatim>\<open>PA3/router.c\<close>), one round of \<^verbatim>\<open>Router_Main\<close>, and the printed forwarding table
  (\<^verbatim>\<open>PA3/logging.c\<close>).  What the system calls return is an argument; what is written to the
  sockets is a list of descriptor and byte string pairs, in the order of the calls.
\<close>

section \<open>The initialisation file\<close>

text \<open>
  What one \<^verbatim>\<open>fscanf\<close> call yields: all five fields of a line, or fewer.  The end of the list is
  the end of the file, \<open>None\<close> a file that cannot be opened.  The node read is a signed
  \<^verbatim>\<open>char\<close>, the identifier it is compared with an unsigned byte.
\<close>

datatype scanned =
    ScanLine (sc_id: byte) (sc_outgoing: u16) (sc_node: byte) (sc_dest: u16) (sc_cost: int)
  | ScanMalformed

definition zero_entry :: routing_entry where
  "zero_entry = \<lparr>re_dest_id = 0, re_gateway_idx = 0, re_cost = 0, re_packet = None\<rparr>"

definition zero_neighbor :: neighbor where
  "zero_neighbor = \<lparr>nb_node_id = 0, nb_outgoing_tcp_port = 0, nb_dest_tcp_port = 0, nb_cost = 0,
     nb_serv_fd = 0, nb_sock_fd = 0\<rparr>"

definition cleared_router :: "byte \<Rightarrow> router" where
  "cleared_router router_id = \<lparr>m_id = router_id, m_seq_num = 0, m_num_destinations = 0,
     m_destinations = replicate MAX_NUM_ROUTERS zero_entry, m_routing_table = replicate 255 0xFF,
     m_num_neighbors = 0, m_neighbors_table = replicate MAX_NUM_ROUTERS zero_neighbor\<rparr>"

definition add_neighbor :: "router \<Rightarrow> neighbor \<Rightarrow> router result" where
  "add_neighbor r nb =
     bindR (arr_set (m_neighbors_table r) (uint (m_num_neighbors r)) nb) (\<lambda>t.
     Inr (r\<lparr>m_neighbors_table := t, m_num_neighbors := m_num_neighbors r + 1\<rparr>))"

fun parse_router_loop :: "byte \<Rightarrow> scanned list \<Rightarrow> router \<Rightarrow> (int \<times> router) result" where
  "parse_router_loop router_id [] r = Inr (0, r)"
| "parse_router_loop router_id (ScanMalformed # ls) r = Inr (2, r)"
| "parse_router_loop router_id (ScanLine i out node dest cost # ls) r =
     bindR (if sint i = uint router_id then
         add_neighbor r \<lparr>nb_node_id = node, nb_outgoing_tcp_port = out, nb_dest_tcp_port = dest,
           nb_cost = word_of_int cost, nb_serv_fd = 0, nb_sock_fd = 0\<rparr>
       else Inr r) (\<lambda>r. parse_router_loop router_id ls r)"

definition parse_router :: "byte \<Rightarrow> scanned list option \<Rightarrow> (int \<times> router) result" where
  "parse_router router_id file =
     (case file of None \<Rightarrow> Inr (1, cleared_router router_id)
      | Some ls \<Rightarrow> parse_router_loop router_id ls (cleared_router router_id))"

section \<open>The neighbours\<close>

text \<open>The arguments are what the system calls of the source return, in their order.\<close>

definition try_connect :: "int \<Rightarrow> int \<Rightarrow> int \<Rightarrow> int" where
  "try_connect sockfd pton_rv connect_rv =
     (if sockfd < 0 then 0 else if pton_rv \<le> 0 then 0 else if connect_rv < 0 then 0 else sockfd)"

definition listen_connect :: "int \<Rightarrow> int \<Rightarrow> int \<Rightarrow> int \<Rightarrow> int \<Rightarrow> int \<times> int" where
  "listen_connect listen_fd bind_rv listen_rv accept_rv serv_fd =
     (if bind_rv \<noteq> 0 then (-1, serv_fd) else if listen_rv \<noteq> 0 then (-1, serv_fd)
      else (accept_rv, listen_fd))"

definition open_neighbor :: "(u16 \<Rightarrow> int) \<Rightarrow> (u16 \<Rightarrow> int \<Rightarrow> int \<times> int) \<Rightarrow> neighbor \<Rightarrow> neighbor" where
  "open_neighbor connect_to listen_on nb =
     (let fd = connect_to (nb_dest_tcp_port nb); serv = -1;
          (fd, serv) = (if fd = 0 then listen_on (nb_outgoing_tcp_port nb) serv else (fd, serv))
      in nb\<lparr>nb_sock_fd := fd, nb_serv_fd := serv\<rparr>)"

text \<open>One thread for each neighbour, each writing its own entry only, all joined at the end.\<close>

fun wait_for_neighbors_loop ::
    "(u16 \<Rightarrow> int) \<Rightarrow> (u16 \<Rightarrow> int \<Rightarrow> int \<times> int) \<Rightarrow> nat \<Rightarrow> nat \<Rightarrow> neighbor list \<Rightarrow> neighbor list result" where
  "wait_for_neighbors_loop connect_to listen_on i 0 nbs = Inr nbs"
| "wait_for_neighbors_loop connect_to listen_on i (Suc k) nbs =
     bindR (arr_get nbs (int i)) (\<lambda>nb.
     bindR (arr_set nbs (int i) (open_neighbor connect_to listen_on nb)) (\<lambda>nbs.
     wait_for_neighbors_loop connect_to listen_on (Suc i) k nbs))"

definition wait_for_neighbors ::
    "(u16 \<Rightarrow> int) \<Rightarrow> (u16 \<Rightarrow> int \<Rightarrow> int \<times> int) \<Rightarrow> router \<Rightarrow> router result" where
  "wait_for_neighbors connect_to listen_on r =
     bindR (wait_for_neighbors_loop connect_to listen_on 0 (unat (m_num_neighbors r)) (m_neighbors_table r))
       (\<lambda>nbs. Inr (r\<lparr>m_neighbors_table := nbs\<rparr>))"

text \<open>The descriptors \<^verbatim>\<open>close_router\<close> closes, in order.\<close>

fun close_router_loop :: "neighbor list \<Rightarrow> nat \<Rightarrow> nat \<Rightarrow> int list result" where
  "close_router_loop nbs i 0 = Inr []"
| "close_router_loop nbs i (Suc k) =
     bindR (arr_get nbs (int i)) (\<lambda>nb.
     bindR (close_router_loop nbs (Suc i) k) (\<lambda>fds.
     Inr (nb_sock_fd nb # (if nb_serv_fd nb > 0 then [nb_serv_fd nb] else []) @ fds)))"

definition close_router :: "router \<Rightarrow> int list result" where
  "close_router r = close_router_loop (m_neighbors_table r) 0 (unat (m_num_neighbors r))"

section \<open>The router's own packet\<close>

fun create_packet_loop :: "neighbor list \<Rightarrow> nat \<Rightarrow> nat \<Rightarrow> ls_packet \<Rightarrow> ls_packet result" where
  "create_packet_loop nbs i 0 tmp = Inr tmp"
| "create_packet_loop nbs i (Suc k) tmp =
     bindR (arr_get nbs (int i)) (\<lambda>nb.
     bindR (arr_set (pkt_dest_id tmp) (int i) (nb_node_id nb)) (\<lambda>ds.
     bindR (arr_set (pkt_cost tmp) (int i) (nb_cost nb)) (\<lambda>cs.
     create_packet_loop nbs (Suc i) k (tmp\<lparr>pkt_dest_id := ds, pkt_cost := cs\<rparr>))))"

definition create_packet :: "router \<Rightarrow> byte \<Rightarrow> byte list \<Rightarrow> (byte \<times> byte list \<times> router) result" where
  "create_packet r should_close outbuf =
     (let r = r\<lparr>m_seq_num := m_seq_num r + 1\<rparr>;
          tmp = zero_packet\<lparr>pkt_origin := m_id r, pkt_should_close := should_close,
                  pkt_seq_num := m_seq_num r, pkt_num_entries := m_num_neighbors r\<rparr>
      in bindR (create_packet_loop (m_neighbors_table r) 0 (unat (pkt_num_entries tmp)) tmp) (\<lambda>tmp.
         bindR (serialize tmp outbuf) (\<lambda>(size, out). Inr (size, out, r))))"

text \<open>\<^verbatim>\<open>write(fd, buf, n)\<close> to each neighbour but those with descriptor \<open>skip\<close>.\<close>

type_synonym sends = "(int \<times> byte list) list"

fun write_all :: "neighbor list \<Rightarrow> nat \<Rightarrow> nat \<Rightarrow> (int \<Rightarrow> bool) \<Rightarrow> byte list \<Rightarrow> nat \<Rightarrow> sends result" where
  "write_all nbs i 0 skip buf n = Inr []"
| "write_all nbs i (Suc k) skip buf n =
     bindR (arr_get nbs (int i)) (\<lambda>nb.
     bindR (if skip (nb_sock_fd nb) then Inr []
            else if n \<le> length buf then Inr [(nb_sock_fd nb, take n buf)] else Inl OutOfBounds) (\<lambda>w.
     bindR (write_all nbs (Suc i) k skip buf n) (\<lambda>ws. Inr (w @ ws))))"

text \<open>\<^verbatim>\<open>outbuf\<close> has 255 bytes; the packet starts at its second byte.\<close>

definition broadcast_packet :: "router \<Rightarrow> (sends \<times> router) result" where
  "broadcast_packet r =
     bindR (create_packet r 0 (replicate 254 0)) (\<lambda>(size, out, r).
     bindR (write_all (m_neighbors_table r) 0 (unat (m_num_neighbors r)) (\<lambda>_. False)
              (size # out) (unat size + 1)) (\<lambda>ws.
     Inr (ws, r)))"

section \<open>The printed table\<close>

record table_line =
  tl_dest :: byte
  tl_cost :: int
  tl_outgoing :: int
  tl_dest_port :: int

text \<open>The null pointer prints -1; a pointer one past the neighbours in use is not null.\<close>

definition print_entry :: "router \<Rightarrow> routing_entry \<Rightarrow> table_line list result" where
  "print_entry r e =
     (let ptr = Router_GetNeighborForRoutingEntry r e in
      if sint (re_cost e) \<noteq> -1 then
        (case ptr of
           None \<Rightarrow> Inr [\<lparr>tl_dest = re_dest_id e, tl_cost = sint (re_cost e), tl_outgoing = -1, tl_dest_port = -1\<rparr>]
         | Some i \<Rightarrow>
             bindR (arr_get (m_neighbors_table r) (uint i)) (\<lambda>nb.
             Inr [\<lparr>tl_dest = re_dest_id e, tl_cost = sint (re_cost e),
               tl_outgoing = uint (nb_outgoing_tcp_port nb), tl_dest_port = uint (nb_dest_tcp_port nb)\<rparr>]))
      else Inr [])"

fun write_routing_table_loop :: "router \<Rightarrow> nat \<Rightarrow> nat \<Rightarrow> table_line list result" where
  "write_routing_table_loop r i 0 = Inr []"
| "write_routing_table_loop r i (Suc k) =
     bindR (arr_get (m_destinations r) (int i)) (\<lambda>e.
     bindR (print_entry r e) (\<lambda>l.
     bindR (write_routing_table_loop r (Suc i) k) (\<lambda>ls. Inr (l @ ls))))"

definition write_routing_table :: "router \<Rightarrow> table_line list result" where
  "write_routing_table r = write_routing_table_loop r 0 (unat (m_num_destinations r))"

section \<open>Receiving\<close>

text \<open>
  \<open>first\<close> is what the read of one byte yields (\<open>None\<close>: end of file or error), \<open>rest\<close> the bytes
  of the second read, at most as many as asked for, and \<open>junk\<close> what the 254 bytes of
  \<^verbatim>\<open>input + 1\<close> held before.  \<open>None\<close>: -1 is returned; \<open>Some\<close>: 0, with what is written to
  the sockets and the table written to the log.
\<close>

definition read_into :: "byte list \<Rightarrow> byte list \<Rightarrow> byte list result" where
  "read_into buf bs =
     (if length bs \<le> length buf then Inr (bs @ drop (length bs) buf) else Inl OutOfBounds)"

definition read_packet ::
    "byte option \<Rightarrow> byte list \<Rightarrow> byte list \<Rightarrow> int \<Rightarrow> ls_packet \<Rightarrow> router \<Rightarrow>
      (sends \<times> table_line list \<times> ls_packet \<times> router) option result" where
  "read_packet first rest junk fd packet r =
     (case first of None \<Rightarrow> Inr None
      | Some n \<Rightarrow>
          bindR (read_into junk (take (unat n) rest)) (\<lambda>input.
          bindR (deserialize packet input) (\<lambda>packet.
          bindR (update_routing_table r packet) (\<lambda>(changed, r).
          if changed then
            bindR (write_routing_table r) (\<lambda>ls.
            bindR (write_all (m_neighbors_table r) 0 (unat (m_num_neighbors r)) (\<lambda>tmpfd. tmpfd = fd)
                     (n # input) (unat n + 1)) (\<lambda>ws.
            Inr (Some (ws, ls, packet, r))))
          else Inr (Some ([], [], packet, r))))))"

section \<open>One round of Router_Main\<close>

record main_state =
  ms_router :: router
  ms_packet :: ls_packet
  ms_last_broadcast :: u64
  ms_sent :: sends
  ms_log :: "table_line list"
  ms_closed :: "int list"
  ms_exit :: "int option"

text \<open>The bytes a ready descriptor delivers: the arguments of \<open>read_packet\<close>.\<close>

type_synonym delivery = "byte option \<times> byte list \<times> byte list"

definition broadcast_if_due :: "u64 \<Rightarrow> main_state \<Rightarrow> main_state result" where
  "broadcast_if_due now s =
     (if 5000 < now - ms_last_broadcast s then
        bindR (broadcast_packet (ms_router s)) (\<lambda>(ws, r).
        Inr (s\<lparr>ms_last_broadcast := now, ms_router := r, ms_sent := ms_sent s @ ws\<rparr>))
      else Inr s)"

fun serve_ready :: "(int \<Rightarrow> delivery option) \<Rightarrow> nat \<Rightarrow> nat \<Rightarrow> main_state \<Rightarrow> main_state result" where
  "serve_ready ready i 0 s = Inr s"
| "serve_ready ready i (Suc k) s =
     bindR (arr_get (m_neighbors_table (ms_router s)) (int i)) (\<lambda>nb.
     case ready (nb_sock_fd nb) of
       None \<Rightarrow> serve_ready ready (Suc i) k s
     | Some (first, rest, junk) \<Rightarrow>
         bindR (read_packet first rest junk (nb_sock_fd nb) (ms_packet s) (ms_router s)) (\<lambda>res.
         case res of
           None \<Rightarrow>
             bindR (close_router (ms_router s)) (\<lambda>fds.
             Inr (s\<lparr>ms_closed := fds, ms_exit := Some 2\<rparr>))
         | Some (ws, ls, packet, r) \<Rightarrow>
             serve_ready ready (Suc i) k
               (s\<lparr>ms_router := r, ms_packet := packet, ms_sent := ms_sent s @ ws,
                  ms_log := ms_log s @ ls\<rparr>)))"

definition Router_Main_round :: "int \<Rightarrow> u64 \<Rightarrow> (int \<Rightarrow> delivery option) \<Rightarrow> main_state \<Rightarrow> main_state result" where
  "Router_Main_round rv now ready s =
     bindR (broadcast_if_due now s) (\<lambda>s.
     if rv > 0 then serve_ready ready 0 (unat (m_num_neighbors (ms_router s))) s else Inr s)"

end
