(* ===== verification/RouterFlood.thy ===== *)
theory RouterFlood
  imports RouterIO
begin

text \<open>
  What the operations of \<^verbatim>\<open>RouterIO\<close> do under the invariant: the initialisation file becomes a
  router that satisfies it, the packet a router broadcasts carries its neighbours and costs, and
  \<open>read_packet\<close> stores a received packet and passes it on to every neighbour but its sender
  exactly when it brings news.
\<close>

section \<open>Configuration\<close>

definition own_lines :: "byte \<Rightarrow> scanned list \<Rightarrow> neighbor list" where
  "own_lines router_id ls = concat (map (\<lambda>l. case l of ScanMalformed \<Rightarrow> []
     | ScanLine i out node dest cost \<Rightarrow> if sint i = uint router_id then
         [\<lparr>nb_node_id = node, nb_outgoing_tcp_port = out, nb_dest_tcp_port = dest,
           nb_cost = word_of_int cost, nb_serv_fd = 0, nb_sock_fd = 0\<rparr>] else []) ls)"

lemma cleared_router_inv: "router_inv (cleared_router i) \<and> nbrs (cleared_router i) = [] \<and> dests (cleared_router i) = []"
  by (simp add: router_inv_def shape_ok_def cleared_router_def dest_ids_def dests_def table_ok_def packets_ok_def nbrs_def MAX_NUM_ROUTERS_def)

lemma add_neighbor_ok:
  assumes "router_inv r" "length (nbrs r) < MAX_NUM_ROUTERS"
  shows "\<exists>r'. add_neighbor r nb = Inr r' \<and> router_inv r' \<and> nbrs r' = nbrs r @ [nb] \<and> dests r' = dests r \<and> m_id r' = m_id r"
proof -
  let ?n = "unat (m_num_neighbors r)"
  have n: "length (nbrs r) = ?n" "?n < length (m_neighbors_table r)"
    using assms by (auto simp: nbrs_def router_inv_def shape_ok_def)
  let ?r = "r\<lparr>m_neighbors_table := (m_neighbors_table r)[?n := nb], m_num_neighbors := m_num_neighbors r + 1\<rparr>"
  have s: "unat (m_num_neighbors r + 1) = Suc ?n" using n(1) assms(2) by (simp add: unat_word_ariths MAX_NUM_ROUTERS_def)
  have "add_neighbor r nb = Inr ?r" using n(2) by (simp add: add_neighbor_def)
  moreover have "dests ?r = dests r" "nbrs ?r = nbrs r @ [nb]"
    using n(2) by (simp_all add: dests_def nbrs_def s take_Suc_conv_app_nth)
  moreover from this have "router_inv ?r"
    using assms n(1) s by (simp add: router_inv_def shape_ok_def dest_ids_def)
  ultimately show ?thesis by auto
qed

lemma own_lines_simps [simp]:
  "own_lines i [] = []"
  "own_lines i (ScanMalformed # ls) = own_lines i ls"
  "own_lines i (ScanLine j out node dest cost # ls) = (if sint j = uint i then
     [\<lparr>nb_node_id = node, nb_outgoing_tcp_port = out, nb_dest_tcp_port = dest,
       nb_cost = word_of_int cost, nb_serv_fd = 0, nb_sock_fd = 0\<rparr>] else []) @ own_lines i ls"
  by (simp_all add: own_lines_def)

lemma parse_router_loop_ok:
  "router_inv r \<Longrightarrow> ScanMalformed \<notin> set ls \<Longrightarrow> length (nbrs r) + length (own_lines i ls) \<le> MAX_NUM_ROUTERS \<Longrightarrow>
    \<exists>r'. parse_router_loop i ls r = Inr (0, r') \<and> router_inv r' \<and> nbrs r' = nbrs r @ own_lines i ls \<and> dests r' = dests r \<and> m_id r' = m_id r"
proof (induction ls arbitrary: r)
  case (Cons l ls)
  then obtain j out node dest cost where l: "l = ScanLine j out node dest cost" by (cases l) auto
  show ?case
  proof (cases "sint j = uint i")
    case True
    let ?nb = "\<lparr>nb_node_id = node, nb_outgoing_tcp_port = out, nb_dest_tcp_port = dest,
       nb_cost = word_of_int cost, nb_serv_fd = 0, nb_sock_fd = 0\<rparr>"
    obtain r1 where r1: "add_neighbor r ?nb = Inr r1" "router_inv r1" "nbrs r1 = nbrs r @ [?nb]" "dests r1 = dests r" "m_id r1 = m_id r"
      using add_neighbor_ok [OF Cons.prems(1), of ?nb] Cons.prems(3) l True by auto
    from Cons.IH [OF r1(2)] Cons.prems l True r1 show ?thesis by auto
  next
    case False
    with Cons.IH [OF Cons.prems(1)] Cons.prems l show ?thesis by simp
  qed
qed simp

lemma parse_router_ok:
  assumes "ScanMalformed \<notin> set ls" "length (own_lines i ls) \<le> MAX_NUM_ROUTERS"
  shows "\<exists>r. parse_router i (Some ls) = Inr (0, r) \<and> router_inv r \<and> routes_ok r \<and> m_id r = i \<and>
    nbrs r = own_lines i ls \<and> dests r = []"
proof -
  have "m_id (cleared_router i) = i" by (simp add: cleared_router_def)
  with parse_router_loop_ok [of "cleared_router i" ls i] cleared_router_inv [of i] assms
  obtain r where r: "parse_router i (Some ls) = Inr (0, r)" "router_inv r" "nbrs r = own_lines i ls" "dests r = []" "m_id r = i"
    by (auto simp: parse_router_def)
  from r(4) have "routes_ok r" by (simp add: routes_ok_def entry_of_def)
  with r show ?thesis by blast
qed

section \<open>The router's own packet\<close>

definition own_packet :: "router \<Rightarrow> byte \<Rightarrow> ls_packet" where
  "own_packet r should_close = zero_packet\<lparr>pkt_origin := m_id r, pkt_should_close := should_close,
     pkt_seq_num := m_seq_num r + 1, pkt_num_entries := m_num_neighbors r,
     pkt_dest_id := map nb_node_id (nbrs r) @ replicate (MAX_NUM_ROUTERS - length (nbrs r)) 0,
     pkt_cost := map nb_cost (nbrs r) @ replicate (MAX_NUM_ROUTERS - length (nbrs r)) 0\<rparr>"

lemma create_packet_loop_ok:
  "i + k = length (nbrs r) \<Longrightarrow> shape_ok r \<Longrightarrow>
    pkt_dest_id tmp = map nb_node_id (take i (nbrs r)) @ replicate (MAX_NUM_ROUTERS - i) 0 \<Longrightarrow>
    pkt_cost tmp = map nb_cost (take i (nbrs r)) @ replicate (MAX_NUM_ROUTERS - i) 0 \<Longrightarrow>
    create_packet_loop (m_neighbors_table r) i k tmp = Inr (tmp\<lparr>
      pkt_dest_id := map nb_node_id (nbrs r) @ replicate (MAX_NUM_ROUTERS - length (nbrs r)) 0,
      pkt_cost := map nb_cost (nbrs r) @ replicate (MAX_NUM_ROUTERS - length (nbrs r)) 0\<rparr>)"
proof (induction k arbitrary: i tmp)
  case 0
  then show ?case by (cases tmp) simp
next
  case (Suc k)
  let ?nb = "m_neighbors_table r ! i"
  have i: "i < length (nbrs r)" "i < MAX_NUM_ROUTERS" "length (m_neighbors_table r) = MAX_NUM_ROUTERS" "nbrs r ! i = ?nb"
    using Suc.prems(1,2) by (auto simp: nbrs_def shape_ok_def)
  then obtain m where m: "MAX_NUM_ROUTERS - i = Suc m" "MAX_NUM_ROUTERS - Suc i = m" by (metis Suc_diff_Suc)
  have t: "take (Suc i) (nbrs r) = take i (nbrs r) @ [?nb]" using i by (simp add: take_Suc_conv_app_nth)
  have "(pkt_dest_id tmp)[i := nb_node_id ?nb] = map nb_node_id (take (Suc i) (nbrs r)) @ replicate (MAX_NUM_ROUTERS - Suc i) 0"
    "(pkt_cost tmp)[i := nb_cost ?nb] = map nb_cost (take (Suc i) (nbrs r)) @ replicate (MAX_NUM_ROUTERS - Suc i) 0"
    "i < length (pkt_dest_id tmp)" "i < length (pkt_cost tmp)"
    using i Suc.prems m t by (simp_all add: list_update_append)
  then show ?case
    using Suc.IH [of "Suc i" "tmp\<lparr>pkt_dest_id := (pkt_dest_id tmp)[i := nb_node_id ?nb], pkt_cost := (pkt_cost tmp)[i := nb_cost ?nb]\<rparr>"]
      Suc.prems i by simp
qed

lemma own_packet_ok:
  assumes "shape_ok r"
  shows "pkt_ok (own_packet r sc)" "pkt_entries (own_packet r sc) = map (\<lambda>nb. (nb_node_id nb, nb_cost nb)) (nbrs r)"
    "pkt_origin (own_packet r sc) = m_id r"
proof -
  have n: "length (nbrs r) = unat (m_num_neighbors r)" "length (nbrs r) \<le> MAX_NUM_ROUTERS"
    using assms by (simp_all add: nbrs_def shape_ok_def)
  then show "pkt_ok (own_packet r sc)"
    by (simp add: pkt_ok_def pkt_shape_def own_packet_def)
  show "pkt_entries (own_packet r sc) = map (\<lambda>nb. (nb_node_id nb, nb_cost nb)) (nbrs r)"
    using n by (simp add: pkt_entries_def own_packet_def zip_append zip_map_map flip: n(1)) (simp add: zip_same_conv_map)
  show "pkt_origin (own_packet r sc) = m_id r" by (simp add: own_packet_def)
qed

lemma create_packet_ok:
  assumes "shape_ok r" "length out = 254"
  shows "\<exists>n. create_packet r sc out = Inr (n, wire_format (own_packet r sc) @ drop (length (wire_format (own_packet r sc))) out,
     r\<lparr>m_seq_num := m_seq_num r + 1\<rparr>) \<and> unat n = length (wire_format (own_packet r sc))"
proof -
  let ?r = "r\<lparr>m_seq_num := m_seq_num r + 1\<rparr>"
  let ?tmp = "zero_packet\<lparr>pkt_origin := m_id r, pkt_should_close := sc, pkt_seq_num := m_seq_num r + 1, pkt_num_entries := m_num_neighbors r\<rparr>"
  have n: "length (nbrs r) = unat (m_num_neighbors r)" using assms by (simp add: nbrs_def shape_ok_def)
  have "create_packet_loop (m_neighbors_table r) 0 (unat (m_num_neighbors r)) ?tmp = Inr (own_packet r sc)"
    using create_packet_loop_ok [of 0 "unat (m_num_neighbors r)" r ?tmp] n assms(1)
    by (simp add: own_packet_def zero_packet_def)
  moreover obtain m where "serialize (own_packet r sc) out = Inr (m, wire_format (own_packet r sc) @ drop (length (wire_format (own_packet r sc))) out)"
    "unat m = length (wire_format (own_packet r sc))"
    using serialize_in_bounds [of "own_packet r sc" out] own_packet_ok(1) [OF assms(1), of sc] assms(2)
    by (auto simp: pkt_ok_def LS_PACKET_OVERHEAD_def MAX_NUM_ROUTERS_def)
  ultimately show ?thesis by (simp add: create_packet_def Let_def)
qed


lemma own_packet_len:
  assumes "shape_ok r"
  shows "length (wire_format (own_packet r sc)) \<le> 71"
  using own_packet_ok [OF assms] assms
  by (simp add: wire_format_def nbrs_def shape_ok_def LS_PACKET_OVERHEAD_def MAX_NUM_ROUTERS_def)

section \<open>Sending\<close>

lemma write_all_ok:
  "n \<le> length buf \<Longrightarrow> i + k \<le> length nbs \<Longrightarrow> write_all nbs i k skip buf n =
    Inr (map (\<lambda>nb. (nb_sock_fd nb, take n buf)) (filter (\<lambda>nb. \<not> skip (nb_sock_fd nb)) (take k (drop i nbs))))"
proof (induction k arbitrary: i)
  case (Suc k)
  then have "drop i nbs = nbs ! i # drop (Suc i) nbs" by (simp add: Cons_nth_drop_Suc)
  with Suc show ?case by simp
qed simp

text \<open>A packet on the wire: its length, then its bytes.\<close>

definition framed :: "ls_packet \<Rightarrow> byte list" where
  "framed p = of_nat (length (wire_format p)) # wire_format p"

lemma broadcast_packet_ok:
  assumes "shape_ok r"
  shows "broadcast_packet r = Inr (map (\<lambda>nb. (nb_sock_fd nb, framed (own_packet r 0))) (nbrs r),
    r\<lparr>m_seq_num := m_seq_num r + 1\<rparr>)"
proof -
  let ?w = "wire_format (own_packet r 0)"
  obtain n where n: "create_packet r 0 (replicate 254 0) = Inr (n, ?w @ drop (length ?w) (replicate 254 0), r\<lparr>m_seq_num := m_seq_num r + 1\<rparr>)"
    "unat n = length ?w"
    using create_packet_ok [OF assms, of "replicate 254 0" 0] by auto
  have len: "length ?w \<le> 71" by (rule own_packet_len [OF assms])
  have "n = of_nat (length ?w)" using n(2) by (metis of_nat_unat ucast_id)
  then show ?thesis
    using n len write_all_ok [of "unat n + 1" "n # ?w @ drop (length ?w) (replicate 254 0)" 0 "unat (m_num_neighbors r)" "m_neighbors_table r" "\<lambda>_. False"] assms
    by (simp add: broadcast_packet_def framed_def shape_ok_def nbrs_def)
qed

section \<open>Receiving\<close>

lemma print_entry_ok:
  assumes "shape_ok r" "unat (m_num_neighbors r) < MAX_NUM_ROUTERS"
  shows "\<exists>l. print_entry r e = Inr l"
proof (cases "m_num_neighbors r < re_gateway_idx e")
  case False
  then have "nat (uint (re_gateway_idx e)) < length (m_neighbors_table r)"
    using assms by (simp add: shape_ok_def not_less word_le_nat_alt)
  with False show ?thesis by (simp add: print_entry_def Router_GetNeighborForRoutingEntry_def Let_def)
qed (simp add: print_entry_def Router_GetNeighborForRoutingEntry_def Let_def)

lemma write_routing_table_loop_ok:
  assumes "shape_ok r" "unat (m_num_neighbors r) < MAX_NUM_ROUTERS"
  shows "i + k \<le> MAX_NUM_ROUTERS \<Longrightarrow> \<exists>ls. write_routing_table_loop r i k = Inr ls"
proof (induction k arbitrary: i)
  case (Suc k)
  moreover obtain l where "print_entry r (m_destinations r ! i) = Inr l" using print_entry_ok [OF assms] by blast
  moreover obtain ls where "write_routing_table_loop r (Suc i) k = Inr ls" using Suc.IH [of "Suc i"] Suc.prems by auto
  ultimately show ?case using assms(1) by (simp add: shape_ok_def)
qed simp

lemma write_routing_table_ok:
  "shape_ok r \<Longrightarrow> unat (m_num_neighbors r) < MAX_NUM_ROUTERS \<Longrightarrow> \<exists>ls. write_routing_table r = Inr ls"
  using write_routing_table_loop_ok [of r 0 "unat (m_num_destinations r)"]
  by (simp add: write_routing_table_def shape_ok_def)

lemma same_news:
  assumes "pkt_origin p' = pkt_origin p" "pkt_seq_num p' = pkt_seq_num p" "pkt_entries p' = pkt_entries p"
  shows "news r p' = news r p" "heard r p' = heard r p"
  using assms by (simp_all add: news_def heard_def pkt_news_def cong: option.case_cong)

lemma length_wire_format: "pkt_ok p \<Longrightarrow> length (wire_format p) = LS_PACKET_OVERHEAD + 2 * unat (pkt_num_entries p)"
  by (simp add: wire_format_def pkt_entries_len)

text \<open>What \<open>read_packet\<close> makes of a packet on the wire.\<close>

lemma framed_simps [simp]: "hd (framed p) = of_nat (length (wire_format p))" "tl (framed p) = wire_format p"
  by (simp_all add: framed_def)

lemma framed_size:
  assumes "pkt_ok p"
  shows "length (wire_format p) \<le> 71 \<and> unat (of_nat (length (wire_format p)) :: byte) = length (wire_format p)"
proof -
  have "length (wire_format p) \<le> 71"
    using assms by (simp add: length_wire_format LS_PACKET_OVERHEAD_def pkt_ok_def MAX_NUM_ROUTERS_def)
  then show ?thesis by (simp add: unat_of_nat)
qed

lemma framed_read:
  assumes "pkt_ok p" "length junk = 254" "pkt_shape pk"
  obtains pk' where "read_into junk (take (unat (hd (framed p))) (tl (framed p))) = Inr (wire_format p @ drop (length (wire_format p)) junk)"
    "deserialize pk (wire_format p @ drop (length (wire_format p)) junk) = Inr pk'" "pkt_ok pk'"
    "pkt_origin pk' = pkt_origin p" "pkt_seq_num pk' = pkt_seq_num p" "pkt_entries pk' = pkt_entries p"
proof -
  note sz = framed_size [OF assms(1)]
  have "read_into junk (take (unat (hd (framed p))) (tl (framed p))) = Inr (wire_format p @ drop (length (wire_format p)) junk)"
    using sz assms(2) by (simp add: read_into_def)
  moreover obtain pk' where "deserialize pk (wire_format p @ drop (length (wire_format p)) junk) = Inr pk'" "pkt_shape pk'"
    "pkt_origin pk' = pkt_origin p" "pkt_seq_num pk' = pkt_seq_num p" "pkt_num_entries pk' = pkt_num_entries p" "pkt_entries pk' = pkt_entries p"
    using deserialize_wire_format [of p pk "drop (length (wire_format p)) junk"] assms(1,3) by (auto simp: pkt_ok_def)
  ultimately show ?thesis using assms(1) that by (auto simp: pkt_ok_def)
qed

text \<open>A packet of its own that comes back changes nothing.\<close>

lemma read_own_packet:
  assumes "pkt_ok p" "pkt_origin p = m_id r" "length junk = 254" "pkt_shape pk"
  shows "\<exists>pk'. read_packet (Some (hd (framed p))) (tl (framed p)) junk fd pk r = Inr (Some ([], [], pk', r)) \<and> pkt_shape pk'"
proof -
  obtain pk' where pk': "read_into junk (take (unat (hd (framed p))) (tl (framed p))) = Inr (wire_format p @ drop (length (wire_format p)) junk)"
    "deserialize pk (wire_format p @ drop (length (wire_format p)) junk) = Inr pk'" "pkt_ok pk'" "pkt_origin pk' = pkt_origin p"
    using framed_read [OF assms(1,3,4)] by metis
  then have "update_routing_table r pk' = Inr (False, r)" using assms(2) by (simp add: update_routing_table_def)
  then show ?thesis using pk' by (auto simp: read_packet_def pkt_ok_def)
qed

lemma read_packet_ok:
  assumes inv: "router_inv r" and few: "unat (m_num_neighbors r) < MAX_NUM_ROUTERS" and p: "pkt_ok p" "pkt_origin p \<noteq> m_id r"
    and room: "card (heard r p) \<le> MAX_NUM_ROUTERS" "255 \<notin> heard r p" and buf: "length junk = 254" "pkt_shape pk"
  shows "\<exists>ls pk' r'. read_packet (Some (hd (framed p))) (tl (framed p)) junk fd pk r =
      Inr (Some (if news r p then map (\<lambda>nb. (nb_sock_fd nb, framed p)) (filter (\<lambda>nb. nb_sock_fd nb \<noteq> fd) (nbrs r)) else [], ls, pk', r')) \<and>
    router_inv r' \<and> same_node r r' \<and> links r' = (if news r p then (links r)(pkt_origin p := pkt_entries p) else links r) \<and>
    known_nodes r' \<subseteq> heard r p \<and> (if news r p then routes_ok r' else route_of r' = route_of r) \<and> pkt_shape pk'"
proof -
  let ?w = "wire_format p" let ?n = "of_nat (length ?w) :: byte"
  note sz = framed_size [OF p(1)]
  obtain pk' where pk': "read_into junk (take (unat (hd (framed p))) (tl (framed p))) = Inr (?w @ drop (length ?w) junk)"
    "deserialize pk (?w @ drop (length ?w) junk) = Inr pk'" "pkt_ok pk'"
    "pkt_origin pk' = pkt_origin p" "pkt_seq_num pk' = pkt_seq_num p" "pkt_entries pk' = pkt_entries p"
    using framed_read [OF p(1) buf] by metis
  note same = same_news [OF pk'(4-6)]
  obtain r' where r': "update_routing_table r pk' = Inr (news r p, r')" "router_inv r'" "same_node r r'"
    "links r' = (if news r p then (links r)(pkt_origin p := pkt_entries p) else links r)"
    "known_nodes r' \<subseteq> heard r p" "if news r p then routes_ok r' else route_of r' = route_of r"
    using update_routing_table_ok [OF inv pk'(3)] p(2) room same pk' by auto
  have sh: "shape_ok r'" and nb: "m_num_neighbors r' = m_num_neighbors r" "nbrs r' = nbrs r"
    using r'(2,3) same_node_nbrs [OF r'(3)] by (simp_all add: router_inv_def same_node_def)
  obtain ls where ls: "write_routing_table r' = Inr ls"
    using write_routing_table_ok [OF sh] few nb by auto
  have ws: "write_all (m_neighbors_table r') 0 (unat (m_num_neighbors r')) (\<lambda>tmpfd. tmpfd = fd)
      (?n # ?w @ drop (length ?w) junk) (unat ?n + 1) =
    Inr (map (\<lambda>nb. (nb_sock_fd nb, framed p)) (filter (\<lambda>nb. nb_sock_fd nb \<noteq> fd) (nbrs r')))"
    using write_all_ok [of "unat ?n + 1" "?n # ?w @ drop (length ?w) junk" 0 "unat (m_num_neighbors r')" "m_neighbors_table r'"] sz sh
    by (simp add: framed_def shape_ok_def nbrs_def)
  have "read_packet (Some (hd (framed p))) (tl (framed p)) junk fd pk r =
      Inr (Some (if news r p then map (\<lambda>nb. (nb_sock_fd nb, framed p)) (filter (\<lambda>nb. nb_sock_fd nb \<noteq> fd) (nbrs r)) else [],
        if news r p then ls else [], pk', r'))"
    using pk'(1,2) r'(1) ls ws nb by (simp add: read_packet_def)
  then show ?thesis using r' pk'(3) by (auto simp: pkt_ok_def)
qed

end
