(* ===== verification/RouterProps.thy ===== *)
theory RouterProps
  imports RouterFlood
begin

text \<open>
  The properties of the link-state router, each with an example that applies it: routing tables of
  shortest paths, the database the packets build, the packets that are wrongly ignored, stale
  routes, lookups, flooding, and the arrays that can overflow.
\<close>

section \<open>An example\<close>

text \<open>Router A with links to B (cost 1) and C (cost 10), and packets of B and C.\<close>

definition example_lines :: "scanned list" where
  "example_lines = [ScanLine 65 9701 66 9702 1, ScanLine 66 9702 65 9701 1, ScanLine 65 9703 67 9704 10]"

definition example_router :: router where
  "example_router = (case parse_router 65 (Some example_lines) of Inl e \<Rightarrow> cleared_router 0 | Inr (n, r) \<Rightarrow> r)"

definition packet_of :: "byte \<Rightarrow> u32 \<Rightarrow> (byte \<times> byte) list \<Rightarrow> ls_packet" where
  "packet_of origin seq es = zero_packet\<lparr>pkt_origin := origin, pkt_seq_num := seq, pkt_num_entries := of_nat (length es),
     pkt_dest_id := map fst es @ replicate (MAX_NUM_ROUTERS - length es) 0,
     pkt_cost := map snd es @ replicate (MAX_NUM_ROUTERS - length es) 0\<rparr>"

definition packet_B :: ls_packet where "packet_B = packet_of 66 1 [(65, 1), (67, 2)]"
definition packet_C :: ls_packet where "packet_C = packet_of 67 1 [(65, 10), (66, 2)]"

lemma packet_of_ok:
  "length es \<le> MAX_NUM_ROUTERS \<Longrightarrow> pkt_ok (packet_of i s es) \<and> pkt_entries (packet_of i s es) = es \<and>
    pkt_origin (packet_of i s es) = i \<and> pkt_seq_num (packet_of i s es) = s"
proof -
  assume len: "length es \<le> MAX_NUM_ROUTERS"
  then have "unat (of_nat (length es) :: byte) = length es" by (simp add: unat_of_nat MAX_NUM_ROUTERS_def)
  with len show ?thesis
    by (simp add: packet_of_def pkt_ok_def pkt_shape_def pkt_entries_def zip_append zip_map_fst_snd)
qed

lemma example_packets:
  "pkt_ok packet_B" "pkt_entries packet_B = [(65, 1), (67, 2)]" "pkt_origin packet_B = 66"
  "pkt_ok packet_C" "pkt_entries packet_C = [(65, 10), (66, 2)]" "pkt_origin packet_C = 67"
  using packet_of_ok [of "[(65, 1), (67, 2)]" 66 1] packet_of_ok [of "[(65, 10), (66, 2)]" 67 1]
  by (simp_all add: packet_B_def packet_C_def MAX_NUM_ROUTERS_def)

lemma example_router_ok:
  "router_inv example_router" "m_id example_router = 65" "dests example_router = []"
  "nbrs example_router = own_lines 65 example_lines" "known_nodes example_router = {65, 66, 67}"
proof -
  obtain r where r: "parse_router 65 (Some example_lines) = Inr (0, r)" "router_inv r" "m_id r = 65"
    "nbrs r = own_lines 65 example_lines" "dests r = []"
    using parse_router_ok [of example_lines 65] by (auto simp: example_lines_def MAX_NUM_ROUTERS_def)
  then have "example_router = r" by (simp add: example_router_def)
  with r show "router_inv example_router" "m_id example_router = 65" "dests example_router = []"
    "nbrs example_router = own_lines 65 example_lines" "known_nodes example_router = {65, 66, 67}"
    by (auto simp: known_nodes_def dest_ids_def example_lines_def)
qed

lemma card_of_few: "N \<subseteq> {65, 66, 67 :: byte} \<Longrightarrow> card N \<le> MAX_NUM_ROUTERS \<and> 255 \<notin> N"
  using card_mono [of "{65, 66, 67 :: byte}" N] by (auto simp: MAX_NUM_ROUTERS_def)

section \<open>Shortest paths\<close>

text \<open>
  C5. A router configured from a well-formed file (every line complete, no more than 32 links of
  its own) that then processes any packets, all about the same at most 32 nodes (255 not among
  them), never leaves the defined behaviour of C, keeps its representation invariant, and ends
  with a right forwarding table: the cost of every destination it can reach is the cost of a
  shortest path in the graph it knows, and the gateway is the first hop of such a path.
\<close>

theorem routing_shortest_paths:
  assumes "ScanMalformed \<notin> set ls" "length (own_lines i ls) \<le> MAX_NUM_ROUTERS"
    and "card N \<le> MAX_NUM_ROUTERS" "255 \<notin> N" "i \<in> N" "nb_node_id ` set (own_lines i ls) \<subseteq> N"
    and "list_all (packet_in N) ps"
  shows "\<exists>r0 r. parse_router i (Some ls) = Inr (0, r0) \<and> process_packets r0 ps = Inr r \<and>
    router_inv r \<and> nbrs r = own_lines i ls \<and>
    (\<forall>u e. entry_of r u = Some e \<and> (\<exists>c. path_cost i (link_edge r) u c) \<longrightarrow>
      shortest_cost i (link_edge r) u (unat (re_cost e)) \<and>
      path_via i (link_edge r) (nb_node_id (nbrs r ! unat (re_gateway_idx e))) u (unat (re_cost e)))"
proof -
  obtain r0 where r0: "parse_router i (Some ls) = Inr (0, r0)" "router_inv r0" "routes_ok r0" "m_id r0 = i"
    "nbrs r0 = own_lines i ls" "dests r0 = []"
    using parse_router_ok [OF assms(1,2)] by blast
  have "known_nodes r0 \<subseteq> N" using r0 assms(5,6) by (simp add: known_nodes_def dest_ids_def)
  then obtain r where r: "process_packets r0 ps = Inr r" "router_inv r" "same_node r0 r" "routes_ok r"
    using process_packets_ok [OF assms(3,4) r0(2) _ assms(7)] r0(3) by blast
  have "m_id r = i" "nbrs r = own_lines i ls" using same_node_nbrs [OF r(3)] r0(4,5) by simp_all
  then show ?thesis using r0(1) r by (auto simp: routes_ok_def reachable_def gateway_ok_def)
qed

theorem routing_shortest_paths_witness:
  "\<exists>r. process_packets example_router [packet_B, packet_C] = Inr r \<and>
     map (\<lambda>e. (re_dest_id e, nb_node_id (nbrs r ! unat (re_gateway_idx e)), unat (re_cost e))) (dests r)
       = [(66, 66, 1), (67, 66, 3)] \<and>
     shortest_cost 65 (link_edge r) 67 3"
proof -
  have "packet_in {65, 66, 67} packet_B" "packet_in {65, 66, 67} packet_C"
    by (simp_all add: packet_in_def example_packets)
  then obtain r0 r where r: "parse_router 65 (Some example_lines) = Inr (0, r0)" "process_packets r0 [packet_B, packet_C] = Inr r"
    "router_inv r" "\<And>u e. entry_of r u = Some e \<and> (\<exists>c. path_cost 65 (link_edge r) u c) \<Longrightarrow> shortest_cost 65 (link_edge r) u (unat (re_cost e))"
    using routing_shortest_paths [of example_lines 65 "{65, 66, 67}" "[packet_B, packet_C]"]
    by (auto simp: example_lines_def MAX_NUM_ROUTERS_def)
  have ex: "example_router = r0" using r(1) by (simp add: example_router_def)
  have tab: "mapR (\<lambda>r. map (\<lambda>e. (re_dest_id e, nb_node_id (nbrs r ! unat (re_gateway_idx e)), unat (re_cost e))) (dests r)) (process_packets example_router [packet_B, packet_C])
    = Inr [(66, 66, 1), (67, 66, 3)]" by code_simp
  have "mapR (\<lambda>r. ((66, 1) \<in> set (links r 65), (67, 2) \<in> set (links r 66), map_option (\<lambda>e. unat (re_cost e)) (entry_of r 67)))
    (process_packets example_router [packet_B, packet_C]) = Inr (True, True, Some 3)" by code_simp
  with r(2) ex have lk: "(66, 1) \<in> set (links r 65)" "(67, 2) \<in> set (links r 66)"
    "map_option (\<lambda>e. unat (re_cost e)) (entry_of r 67) = Some 3" by simp_all
  then obtain e where e: "entry_of r 67 = Some e" "unat (re_cost e) = 3" by auto
  have "link_edge r 65 66 1" "link_edge r 66 67 2" unfolding link_edge_iff using lk by (force, force)
  then have "path_cost 65 (link_edge r) 67 (0 + 1 + 2)" by (meson path_cost.intros)
  then have "shortest_cost 65 (link_edge r) 67 3" using r(4) [of 67 e] e by metis
  then show ?thesis using r(2) tab ex by simp
qed


section \<open>One packet\<close>

lemma example_heard:
  "heard example_router packet_B = {65, 66, 67}" "heard example_router packet_C = {65, 66, 67}"
  using example_packets example_router_ok by (auto simp: heard_def)



text \<open>
  A packet is taken only if its sequence number is greater, and then unless it has as many
  entries as the stored one, at least one, and agrees with it in the first: the loop that compares
  the entries returns in its first round.
\<close>

lemma packet_has_update_first_entry:
  assumes "pkt_ok orig" "pkt_ok p"
  shows "packet_has_update orig p = Inr (pkt_seq_num orig < pkt_seq_num p \<and>
    (length (pkt_entries p) \<noteq> length (pkt_entries orig) \<or> pkt_entries p = [] \<or> hd (pkt_entries p) \<noteq> hd (pkt_entries orig)))"
proof -
  have "take 1 xs = take 1 ys \<longleftrightarrow> hd xs = hd ys" if "xs \<noteq> []" "length xs = length ys" for xs ys :: "(byte \<times> byte) list"
    using that by (cases xs; cases ys) auto
  then show ?thesis using packet_news [OF assms] unfolding pkt_news_def by auto
qed

text \<open>A newer packet of B in which the second link costs 200 instead of 2.\<close>

definition packet_B' :: ls_packet where "packet_B' = packet_of 66 2 [(65, 1), (67, 200)]"

lemma packet_B'_ok: "pkt_ok packet_B'" "pkt_entries packet_B' = [(65, 1), (67, 200)]" "pkt_origin packet_B' = 66" "pkt_seq_num packet_B' = 2"
  using packet_of_ok [of "[(65, 1), (67, 200)]" 66 2] by (simp_all add: packet_B'_def MAX_NUM_ROUTERS_def)

lemma packet_has_update_first_entry_example:
  "packet_has_update packet_B packet_B' = Inr False \<and> pkt_seq_num packet_B < pkt_seq_num packet_B' \<and> pkt_entries packet_B \<noteq> pkt_entries packet_B'"
proof -
  have "pkt_seq_num packet_B = 1" by (simp add: packet_B_def packet_of_def)
  then show ?thesis
    using packet_has_update_first_entry [OF example_packets(1) packet_B'_ok(1)] example_packets packet_B'_ok by simp
qed

text \<open>
  So a router ignores a newer packet that changes any link but the first: it keeps the links
  and the routes it had, returns 0, and the packet is not passed on.
\<close>

lemma changed_links_ignored:
  assumes "router_inv r" "pkt_ok p" "pkt_origin p \<noteq> m_id r" "card (heard r p) \<le> MAX_NUM_ROUTERS" "255 \<notin> heard r p"
    and "entry_of r (pkt_origin p) = Some e" "re_packet e = Some q"
    and "length (pkt_entries p) = length (pkt_entries q)" "pkt_entries p \<noteq> []" "hd (pkt_entries p) = hd (pkt_entries q)"
  shows "\<exists>r'. update_routing_table r p = Inr (False, r') \<and> links r' = links r \<and> route_of r' = route_of r"
proof -
  have "take 1 (pkt_entries p) = take 1 (pkt_entries q)"
    using assms(8,9,10) by (cases "pkt_entries p"; cases "pkt_entries q") auto
  then have "\<not> news r p" using assms(6,7,8,9) by (simp add: news_def pkt_news_def)
  with update_routing_table_ok [OF assms(1-5)] show ?thesis by auto
qed

text \<open>The router of the example once it has the packet of B, and a chain of three routers.\<close>

definition after :: "router \<Rightarrow> ls_packet list \<Rightarrow> router" where
  "after r ps = (case process_packets r ps of Inl e \<Rightarrow> r | Inr r' \<Rightarrow> r')"

lemma after_ok:
  assumes "router_inv r" "known_nodes r \<subseteq> {65, 66, 67}" "list_all (packet_in {65, 66, 67}) ps"
  shows "process_packets r ps = Inr (after r ps)" "router_inv (after r ps)" "m_id (after r ps) = m_id r" "nbrs (after r ps) = nbrs r"
    "known_nodes (after r ps) \<subseteq> {65, 66, 67}"
proof -
  obtain r' where r': "process_packets r ps = Inr r'" "router_inv r'" "same_node r r'" "known_nodes r' \<subseteq> {65, 66, 67}"
    using process_packets_ok [OF _ _ assms] card_of_few [of "{65, 66, 67}"] by auto
  then have "after r ps = r'" by (simp add: after_def)
  with r' same_node_nbrs [OF r'(3)] show "process_packets r ps = Inr (after r ps)" "router_inv (after r ps)"
    "m_id (after r ps) = m_id r" "nbrs (after r ps) = nbrs r" "known_nodes (after r ps) \<subseteq> {65, 66, 67}"
    by simp_all
qed

lemma example_packets_in:
  "packet_in {65, 66, 67} packet_B" "packet_in {65, 66, 67} packet_C" "packet_in {65, 66, 67} packet_B'"
  by (simp_all add: packet_in_def example_packets packet_B'_ok)

lemma heard_small:
  assumes "known_nodes r \<subseteq> {65, 66, 67}" "packet_in {65, 66, 67} p"
  shows "card (heard r p) \<le> MAX_NUM_ROUTERS" "255 \<notin> heard r p"
  using card_of_few [of "heard r p"] assms by (auto simp: heard_def packet_in_def)

lemma changed_links_ignored_example:
  "\<exists>r'. update_routing_table (after example_router [packet_B]) packet_B' = Inr (False, r') \<and>
     (67, 2) \<in> set (links r' 66) \<and> (67, 200) \<in> set (pkt_entries packet_B')"
proof -
  let ?r = "after example_router [packet_B]"
  have ok: "router_inv ?r" "m_id ?r = 65" "known_nodes ?r \<subseteq> {65, 66, 67}"
    using after_ok [of example_router "[packet_B]"] example_router_ok example_packets_in by simp_all
  have "map_option re_packet (entry_of ?r 66) = Some (Some packet_B)" by code_simp
  then obtain e where e: "entry_of ?r 66 = Some e" "re_packet e = Some packet_B" by auto
  have lk: "links ?r 66 = [(65, 1), (67, 2)]" using e ok(2) example_packets by (simp add: links_def)
  have "\<exists>r'. update_routing_table ?r packet_B' = Inr (False, r') \<and> links r' = links ?r \<and> route_of r' = route_of ?r"
    by (rule changed_links_ignored [OF ok(1) packet_B'_ok(1) _ heard_small [OF ok(3) example_packets_in(3)], of e packet_B])
      (use e ok(2) packet_B'_ok example_packets in simp_all)
  then show ?thesis using lk packet_B'_ok(2) by auto
qed

text \<open>
  A destination that the new graph does not reach keeps the route it had before the packet:
  its cost is not reset, so the table goes on offering a path that no longer exists.
\<close>

lemma unreachable_keeps_route:
  assumes "router_inv r" "pkt_ok p" "pkt_origin p \<noteq> m_id r" "card (heard r p) \<le> MAX_NUM_ROUTERS" "255 \<notin> heard r p"
    and "update_routing_table r p = Inr (b, r')" "u \<noteq> pkt_origin p" "\<not> reachable r' u"
  shows "route_of r' u = route_of r u"
  using update_routing_table_ok [OF assms(1-5)] assms(6-8) by auto

text \<open>A - B - C, then B's link to C goes down.\<close>

definition chain_lines :: "scanned list" where
  "chain_lines = [ScanLine 65 9701 66 9702 1]"

definition chain_router :: router where
  "chain_router = (case parse_router 65 (Some chain_lines) of Inl e \<Rightarrow> cleared_router 0 | Inr (n, r) \<Rightarrow> after r [packet_B, packet_C])"

definition packet_B_down :: ls_packet where "packet_B_down = packet_of 66 2 [(65, 1)]"

lemma packet_B_down_ok: "pkt_ok packet_B_down" "pkt_entries packet_B_down = [(65, 1)]" "pkt_origin packet_B_down = 66"
  using packet_of_ok [of "[(65, 1)]" 66 2] by (simp_all add: packet_B_down_def MAX_NUM_ROUTERS_def)

lemma chain_router_ok: "router_inv chain_router" "m_id chain_router = 65" "known_nodes chain_router \<subseteq> {65, 66, 67}"
  "links chain_router 65 = [(66, 1)]"
proof -
  obtain r where r: "parse_router 65 (Some chain_lines) = Inr (0, r)" "router_inv r" "m_id r = 65"
    "nbrs r = own_lines 65 chain_lines" "dests r = []"
    using parse_router_ok [of chain_lines 65] by (auto simp: chain_lines_def MAX_NUM_ROUTERS_def)
  then have "chain_router = after r [packet_B, packet_C]" by (simp add: chain_router_def)
  moreover have "known_nodes r \<subseteq> {65, 66, 67}" using r by (simp add: known_nodes_def dest_ids_def chain_lines_def)
  ultimately show "router_inv chain_router" "m_id chain_router = 65" "known_nodes chain_router \<subseteq> {65, 66, 67}"
    "links chain_router 65 = [(66, 1)]"
    using after_ok [of r "[packet_B, packet_C]"] r example_packets_in by (simp_all add: links_def chain_lines_def)
qed

lemma unreachable_keeps_route_example:
  "\<exists>r'. update_routing_table chain_router packet_B_down = Inr (True, r') \<and> \<not> reachable r' 67 \<and> route_of r' 67 = Some (0, 3)"
proof -
  have in_B: "packet_in {65, 66, 67} packet_B_down" by (simp add: packet_in_def packet_B_down_ok)
  note small = heard_small [OF chain_router_ok(3) in_B]
  have before: "route_of chain_router 67 = Some (0, 3)" "news chain_router packet_B_down" by code_simp+
  obtain r' where r': "update_routing_table chain_router packet_B_down = Inr (True, r')" "m_id r' = 65" "nbrs r' = nbrs chain_router"
    "links r' = (links chain_router)(66 := [(65, 1)])"
    using update_routing_table_ok [OF chain_router_ok(1) packet_B_down_ok(1) _ small] chain_router_ok(2) packet_B_down_ok before(2) same_node_nbrs
    by fastforce
  have "v \<in> {65, 66}" if "path_cost 65 (link_edge r') v c" for v c
    using that
  proof (induction rule: path_cost.induct)
    case (path_edge u c v w)
    then show ?case using chain_router_ok(4) by (auto simp: link_edge_iff r'(4) split: if_splits)
  qed simp
  then have "\<not> reachable r' 67" using r'(2) by (force simp: reachable_def)
  moreover from this have "route_of r' 67 = route_of chain_router 67"
    using unreachable_keeps_route [OF chain_router_ok(1) packet_B_down_ok(1) _ small r'(1), of 67] chain_router_ok(2) packet_B_down_ok(3) by simp
  ultimately show ?thesis using r'(1) before(1) by auto
qed

section \<open>Lookups and bounds\<close>

text \<open>
  C37. The lookup through the routing table finds a destination exactly at its index, and the null
  pointer for a node that is none; the comparison that should have been \<open>\<ge>\<close> does no harm, because
  the index 255 of an absent node is greater than any number of destinations.  Node 255 is read
  outside the table of 255 entries.
\<close>

theorem routing_entry_lookup:
  assumes "router_inv r"
  shows "Router_GetRoutingEntryForNode r node =
    (if node = 255 then Inl OutOfBounds
     else Inr (find (\<lambda>i. re_dest_id (m_destinations r ! unat i) = node) (map of_nat [0..<unat (m_num_destinations r)])))"
proof -
  have sh: "shape_ok r" and len: "length (m_routing_table r) = 255" using assms by (simp_all add: router_inv_def table_ok_def)
  let ?n = "unat (m_num_destinations r)"
  have n: "?n \<le> 32" using sh by (simp add: shape_ok_def MAX_NUM_ROUTERS_def)
  consider "node = 255" | "node \<noteq> 255" "node \<in> set (dest_ids r)" | "node \<noteq> 255" "node \<notin> set (dest_ids r)" by blast
  then show ?thesis
  proof cases
    case 1
    then show ?thesis using len by (simp add: Router_GetRoutingEntryForNode_def arr_get_def)
  next
    case 2
    then obtain i where i: "i < length (dests r)" "re_dest_id (dests r ! i) = node" by (auto simp: dest_ids_def in_set_conv_nth)
    have u: "unat (of_nat j :: byte) = j" if "j < ?n" for j using that n by (simp add: unat_of_nat)
    have "re_dest_id (m_destinations r ! j) \<noteq> node" if "j < i" for j
    proof -
      have "distinct (dest_ids r)" using assms by (simp add: router_inv_def)
      moreover have "j < length (dest_ids r)" "i < length (dest_ids r)" using that i(1) by (simp_all add: dest_ids_def)
      ultimately have "dest_ids r ! j \<noteq> dest_ids r ! i" using that by (metis nth_eq_iff_index_eq less_irrefl)
      then show ?thesis using that i by (simp add: dest_ids_def nth_dests)
    qed
    then have "find (\<lambda>i. re_dest_id (m_destinations r ! unat i) = node) (map of_nat [0..<?n] :: byte list) = Some (of_nat i)"
      using i u length_dests [OF sh] by (auto simp: find_Some_iff nth_dests intro!: exI [of _ i])
    then show ?thesis using lookup_in [OF assms i(1)] i(2) 2(1) by simp
  next
    case 3
    have u: "unat (of_nat j :: byte) = j" if "j < ?n" for j using that n by (simp add: unat_of_nat)
    have "re_dest_id (m_destinations r ! j) \<noteq> node" if "j < ?n" for j
      using 3(2) that length_dests [OF sh] nth_mem [of j "dests r"] by (auto simp: dest_ids_def nth_dests)
    with u have "find (\<lambda>i. re_dest_id (m_destinations r ! unat i) = node) (map of_nat [0..<?n] :: byte list) = None"
      by (auto simp: find_None_iff)
    then show ?thesis using lookup_out [OF assms 3] 3(1) by simp
  qed
qed

text \<open>
  The 33rd destination is written past the end of \<^verbatim>\<open>_m_destinations\<close>: nothing compares the
  number of destinations with its 32 elements.
\<close>

lemma destinations_overflow:
  assumes "router_inv r" "unat (m_num_destinations r) = MAX_NUM_ROUTERS"
    and "pkt_origin p \<noteq> m_id r" "pkt_origin p \<noteq> 255" "pkt_origin p \<notin> set (dest_ids r)"
  shows "update_routing_table r p = Inl OutOfBounds"
proof -
  have "length (m_destinations r) = MAX_NUM_ROUTERS" using assms(1) by (simp add: router_inv_def shape_ok_def)
  then have "arr_get (m_destinations r) (uint (m_num_destinations r)) = Inl OutOfBounds"
    using assms(2) by (simp add: arr_get_def)
  then show ?thesis
    using lookup_out [OF assms(1,4,5)] assms(3)
    by (simp add: update_routing_table_def store_packet_def push_entry_def update_entry_def Let_def)
qed


theorem routing_entry_lookup_witness:
  "Router_GetRoutingEntryForNode chain_router 67 = Inr (Some 1) \<and> Router_GetRoutingEntryForNode chain_router 90 = Inr None \<and>
   Router_GetRoutingEntryForNode chain_router 255 = Inl OutOfBounds"
proof -
  have "find (\<lambda>i. re_dest_id (m_destinations chain_router ! unat i) = 67) (map of_nat [0..<unat (m_num_destinations chain_router)] :: byte list) = Some 1"
    "find (\<lambda>i. re_dest_id (m_destinations chain_router ! unat i) = 90) (map of_nat [0..<unat (m_num_destinations chain_router)] :: byte list) = None"
    by code_simp+
  then show ?thesis
    using routing_entry_lookup [OF chain_router_ok(1), of 67] routing_entry_lookup [OF chain_router_ok(1), of 90]
      routing_entry_lookup [OF chain_router_ok(1), of 255] by simp
qed

definition full_router :: router where
  "full_router = (cleared_router 100)\<lparr>m_num_destinations := 32,
     m_destinations := map (\<lambda>i. zero_entry\<lparr>re_dest_id := of_nat i\<rparr>) [0..<32],
     m_routing_table := map of_nat [0..<32] @ replicate 223 255\<rparr>"

lemma full_router_ids: "dest_ids full_router = map of_nat [0..<32]"
  by (simp add: full_router_def dest_ids_def dests_def zero_entry_def)

lemma full_router_ok: "router_inv full_router"
proof -
  have tbl: "m_routing_table full_router = map of_nat [0..<32] @ replicate 223 255" by (simp add: full_router_def)
  have "table_ok (m_routing_table full_router) (map of_nat [0..<32])"
    unfolding table_ok_def tbl
  proof (intro conjI allI impI)
    fix k :: nat assume "k < 255" "of_nat k \<notin> set (map of_nat [0..<32] :: byte list)"
    then show "(map of_nat [0..<32] @ replicate 223 255) ! k = (255 :: byte)"
      by (cases "k < 32") (auto simp: nth_append)
  qed (simp_all add: nth_append unat_of_nat)
  moreover have "distinct (map of_nat [0..<32] :: byte list)" "255 \<notin> set (map of_nat [0..<32] :: byte list)"
    "m_id full_router \<notin> set (map of_nat [0..<32] :: byte list)" by code_simp+
  moreover have "shape_ok full_router" "packets_ok (dests full_router)"
    by (simp_all add: shape_ok_def full_router_def cleared_router_def packets_ok_def dests_def zero_entry_def MAX_NUM_ROUTERS_def)
  ultimately show ?thesis by (simp add: router_inv_def full_router_ids)
qed

lemma destinations_overflow_example:
  "update_routing_table full_router (packet_of 200 1 []) = Inl OutOfBounds"
proof (rule destinations_overflow [OF full_router_ok])
  show "pkt_origin (packet_of 200 1 []) \<notin> set (dest_ids full_router)" unfolding full_router_ids by code_simp
qed (simp_all add: full_router_def cleared_router_def packet_of_def MAX_NUM_ROUTERS_def)

section \<open>Flooding\<close>


definition example_router_B :: router where
  "example_router_B = (case parse_router 66 (Some example_lines) of Inl e \<Rightarrow> cleared_router 0 | Inr (n, r) \<Rightarrow> r)"

lemma example_router_B_ok:
  "router_inv example_router_B" "m_id example_router_B = 66" "dests example_router_B = []"
  "nbrs example_router_B = own_lines 66 example_lines" "known_nodes example_router_B = {65, 66}"
proof -
  obtain r where r: "parse_router 66 (Some example_lines) = Inr (0, r)" "router_inv r" "m_id r = 66"
    "nbrs r = own_lines 66 example_lines" "dests r = []"
    using parse_router_ok [of example_lines 66] by (auto simp: example_lines_def MAX_NUM_ROUTERS_def)
  then have "example_router_B = r" by (simp add: example_router_B_def)
  with r show "router_inv example_router_B" "m_id example_router_B = 66" "dests example_router_B = []"
    "nbrs example_router_B = own_lines 66 example_lines" "known_nodes example_router_B = {65, 66}"
    by (auto simp: known_nodes_def dest_ids_def example_lines_def)
qed


section \<open>The cheapest link\<close>

text \<open>
  The two nested loops find the cheapest link that leaves the current set, and of several of
  that cost the one with the least source and then the least destination; \<open>leaving\<close> is the set of
  those links with their total costs.  They report no link (a cost of -1) exactly if there is none.
\<close>

lemma find_shortest_least:
  assumes "router_inv r" "cur_ok cur" "\<forall>u \<in> cur_nodes cur. u \<noteq> 255 \<and> cost_of r u + 255 < 2 ^ 15"
  shows "\<exists>sh'. find_shortest r cur sh = Inr sh' \<and>
    (sint (link_cost sh') = -1 \<longleftrightarrow> leaving r (cur_nodes cur) = {}) \<and>
    (leaving r (cur_nodes cur) \<noteq> {} \<longrightarrow> link_key sh' \<in> leaving r (cur_nodes cur) \<and>
      (\<forall>k \<in> leaving r (cur_nodes cur). link_key sh' \<le> k))"
proof -
  obtain sh' where sh': "find_shortest r cur sh = Inr sh'" "best (leaving r (cur_nodes cur)) sh'"
    using find_shortest_best [OF assms(1,2)] assms(3) by blast
  have "sint (link_cost sh') \<noteq> -1" if "unat (link_cost sh') < 2 ^ 15"
    using sint_small [OF that] uint_ge_0 [of "link_cost sh'"] by linarith
  then show ?thesis using sh' by (auto simp: best_def split: if_splits)
qed

lemma find_shortest_least_example:
  "\<exists>sh. find_shortest chain_router (start_set chain_router) \<lparr>link_src = 0, link_dest = 0, link_cost = 0\<rparr> = Inr sh \<and>
     link_key sh = (1, 65, 66)"
proof -
  have c: "cur_ok (start_set chain_router)" "cur_nodes (start_set chain_router) = {65}"
    using chain_router_ok(2) by (simp_all add: cur_ok_def start_set_def cur_nodes_def MAX_NUM_ROUTERS_def)
  have "cost_of chain_router 65 = 0" using chain_router_ok(2) by (simp add: cost_of_def)
  moreover from this have "leaving chain_router {65} = {(1, 65, 66)}"
    using chain_router_ok(4) by (auto simp: leaving_def node_cands_def link_cands_def)
  ultimately show ?thesis
    using find_shortest_least [OF chain_router_ok(1) c(1), of "\<lparr>link_src = 0, link_dest = 0, link_cost = 0\<rparr>"] c(2) by auto
qed

section \<open>The initialisation file\<close>

lemma parse_router_loop_full:
  "length (m_neighbors_table r) = MAX_NUM_ROUTERS \<Longrightarrow> unat (m_num_neighbors r) \<le> MAX_NUM_ROUTERS \<Longrightarrow> ScanMalformed \<notin> set ls \<Longrightarrow>
    MAX_NUM_ROUTERS < unat (m_num_neighbors r) + length (own_lines i ls) \<Longrightarrow> parse_router_loop i ls r = Inl OutOfBounds"
proof (induction ls arbitrary: r)
  case (Cons l ls)
  then obtain j out node dest cost where l: "l = ScanLine j out node dest cost" by (cases l) auto
  show ?case
  proof (cases "sint j = uint i")
    case False
    with Cons l show ?thesis by simp
  next
    case True
    let ?nb = "\<lparr>nb_node_id = node, nb_outgoing_tcp_port = out, nb_dest_tcp_port = dest,
       nb_cost = word_of_int cost, nb_serv_fd = 0, nb_sock_fd = 0\<rparr>"
    show ?thesis
    proof (cases "unat (m_num_neighbors r) < MAX_NUM_ROUTERS")
      case room: True
      then have "unat (m_num_neighbors r + 1) = Suc (unat (m_num_neighbors r))"
        by (simp add: unat_word_ariths MAX_NUM_ROUTERS_def)
      then show ?thesis
        using Cons.IH [of "r\<lparr>m_neighbors_table := (m_neighbors_table r)[unat (m_num_neighbors r) := ?nb], m_num_neighbors := m_num_neighbors r + 1\<rparr>"]
          Cons.prems l True room by (simp add: add_neighbor_def)
    next
      case False
      then show ?thesis using Cons.prems l True by (simp add: add_neighbor_def arr_set_def)
    qed
  qed
qed simp

text \<open>
  The 33rd line of an initialisation file for one router is written past the end of
  \<^verbatim>\<open>_m_neighbors_table\<close>.
\<close>

lemma neighbors_overflow:
  assumes "ScanMalformed \<notin> set ls" "MAX_NUM_ROUTERS < length (own_lines i ls)"
  shows "parse_router i (Some ls) = Inl OutOfBounds"
  using parse_router_loop_full [of "cleared_router i" ls i] assms
  by (simp add: parse_router_def cleared_router_def)

lemma neighbors_overflow_example:
  "parse_router 65 (Some (replicate 33 (ScanLine 65 9701 66 9702 1))) = Inl OutOfBounds"
proof (rule neighbors_overflow)
  have "length (own_lines 65 (replicate n (ScanLine 65 9701 66 9702 1))) = n" for n
    by (induction n) simp_all
  then show "MAX_NUM_ROUTERS < length (own_lines 65 (replicate 33 (ScanLine 65 9701 66 9702 1)))"
    by (simp add: MAX_NUM_ROUTERS_def)
qed simp

end
