(* ===== verification/RouterNetwork.thy ===== *)
theory RouterNetwork
  imports RouterProps
begin

text \<open>
  A whole network of routers: all are configured from one initialisation file, each processes the
  packets that the others broadcast, in any order and any number of times.  Their forwarding tables then fit
  together: from hop to hop a packet gets to its destination on a path of least cost.
\<close>

section \<open>The same database everywhere\<close>

lemma parse_router_seq: "parse_router_loop i ls r = Inr (n, r') \<Longrightarrow> m_seq_num r' = m_seq_num r"
  by (induction i ls r rule: parse_router_loop.induct)
    (auto simp: bindR_eq_Inr add_neighbor_def split: if_splits)

text \<open>\<open>pk v\<close>: the packet of node \<open>v\<close>.  What is stored is right, or nothing is stored yet.\<close>

definition holds_only :: "(byte \<Rightarrow> ls_packet) \<Rightarrow> router \<Rightarrow> bool" where
  "holds_only pk r \<longleftrightarrow> (\<forall>v. held r v = zero_packet \<or> held r v = pk v)"

lemma first_packet_is_news:
  assumes "held r v = zero_packet" "pkt_origin p = v" "pkt_seq_num p \<noteq> 0"
  shows "news r p"
proof -
  have "pkt_news zero_packet p"
    using assms(3) zero_packet_ok(2) unfolding pkt_news_def by (auto simp: zero_packet_def word_neq_0_conv)
  then show ?thesis using assms(1,2) by (auto simp: news_def held_def split: option.splits)
qed

lemma process_network_packets:
  assumes "card N \<le> MAX_NUM_ROUTERS" "255 \<notin> N"
    and pk: "\<And>v. v \<in> N \<Longrightarrow> packet_in N (pk v) \<and> pkt_origin (pk v) = v \<and> pkt_seq_num (pk v) \<noteq> 0"
  shows "router_inv r \<Longrightarrow> known_nodes r \<subseteq> N \<Longrightarrow> holds_only pk r \<Longrightarrow> routes_ok r \<Longrightarrow> set ps \<subseteq> pk ` N \<Longrightarrow>
    \<exists>r'. process_packets r ps = Inr r' \<and> router_inv r' \<and> same_node r r' \<and> routes_ok r' \<and> holds_only pk r' \<and>
      (\<forall>v. v \<noteq> m_id r \<and> (pk v \<in> set ps \<and> v \<in> N \<or> held r v = pk v) \<longrightarrow> held r' v = pk v) \<and>
      (\<forall>v. v \<notin> N \<longrightarrow> held r' v = held r v) \<and>
      set (dest_ids r) \<union> (pkt_origin ` set ps - {m_id r}) \<subseteq> set (dest_ids r')"
proof (induction ps arbitrary: r)
  case (Cons p ps)
  then obtain v where v: "p = pk v" "v \<in> N" by auto
  note pv = pk [OF v(2)]
  show ?case
  proof (cases "v = m_id r")
    case True
    then have "update_routing_table r p = Inr (False, r)" using v pv by (simp add: update_routing_table_def)
    moreover obtain r' where "process_packets r ps = Inr r'" "router_inv r'" "same_node r r'" "routes_ok r'" "holds_only pk r'"
      "\<forall>v. v \<noteq> m_id r \<and> (pk v \<in> set ps \<and> v \<in> N \<or> held r v = pk v) \<longrightarrow> held r' v = pk v"
      "\<forall>v. v \<notin> N \<longrightarrow> held r' v = held r v" "set (dest_ids r) \<union> (pkt_origin ` set ps - {m_id r}) \<subseteq> set (dest_ids r')"
      using Cons.IH [OF Cons.prems(1-4)] Cons.prems(5) by auto
    moreover have "w = v" if "pk w = pk v" "w \<in> N" for w using that pv pk [OF that(2)] by metis
    ultimately show ?thesis using v pv True by (intro exI [of _ r']) auto
  next
    case False
    have sub: "heard r p \<subseteq> N" using Cons.prems(2) v pv by (auto simp: heard_def packet_in_def)
    then have small: "card (heard r p) \<le> MAX_NUM_ROUTERS" "255 \<notin> heard r p"
      using card_mono [OF _ sub] assms(1,2) by auto
    have ok: "pkt_ok p" "pkt_origin p \<noteq> m_id r" using v pv False by (auto simp: packet_in_def)
    from update_routing_table_ok [OF Cons.prems(1) ok small] obtain r1 where
      r1: "update_routing_table r p = Inr (news r p, r1)" "router_inv r1" "same_node r r1" "known_nodes r1 \<subseteq> N"
      "links r1 = (if news r p then (links r)(pkt_origin p := pkt_entries p) else links r)"
      "held r1 = (if news r p then (held r)(pkt_origin p := p) else held r)"
      "insert (pkt_origin p) (set (dest_ids r)) \<subseteq> set (dest_ids r1)"
      "if news r p then routes_ok r1 else route_of r1 = route_of r"
      using sub by blast
    have ro: "routes_ok r1" using r1(5,8) routes_ok_same [OF r1(3)] Cons.prems(4) by (auto split: if_splits)
    have old: "held r v = zero_packet \<or> held r v = pk v" using Cons.prems(3) by (simp add: holds_only_def)
    have hv: "held r1 = (held r)(v := pk v)"
    proof (cases "news r p")
      case True
      then show ?thesis using r1(6) v pv by simp
    next
      case False
      then have "held r v = pk v" using old first_packet_is_news [of r v p] v pv by blast
      then show ?thesis using False r1(6) by auto
    qed
    then have h: "holds_only pk r1" using Cons.prems(3) by (simp add: holds_only_def)
    have id: "m_id r1 = m_id r" using same_node_nbrs [OF r1(3)] by simp
    obtain r' where r': "process_packets r1 ps = Inr r'" "router_inv r'" "same_node r1 r'" "routes_ok r'" "holds_only pk r'"
      "\<forall>v. v \<noteq> m_id r1 \<and> (pk v \<in> set ps \<and> v \<in> N \<or> held r1 v = pk v) \<longrightarrow> held r' v = pk v"
      "\<forall>v. v \<notin> N \<longrightarrow> held r' v = held r1 v" "set (dest_ids r1) \<union> (pkt_origin ` set ps - {m_id r1}) \<subseteq> set (dest_ids r')"
      using Cons.IH [OF r1(2,4) h ro] Cons.prems(5) by auto
    have "w = v" if "pk w = pk v" "w \<in> N" for w using that pv pk [OF that(2)] by metis
    then have "\<forall>w. w \<noteq> m_id r \<and> (pk w \<in> set (p # ps) \<and> w \<in> N \<or> held r w = pk w) \<longrightarrow> held r' w = pk w"
      using r'(6) hv v id by (metis fun_upd_apply set_ConsD)
    moreover have "\<forall>w. w \<notin> N \<longrightarrow> held r' w = held r w" using r'(7) hv v(2) by auto
    moreover have "set (dest_ids r) \<union> (pkt_origin ` set (p # ps) - {m_id r}) \<subseteq> set (dest_ids r')"
      using r'(8) r1(7) id by auto
    ultimately show ?thesis using r1(1) r' same_node_trans [OF r1(3) r'(3)] by (intro exI [of _ r']) simp
  qed
qed auto

section \<open>Hop by hop\<close>

definition next_hop :: "router \<Rightarrow> byte \<Rightarrow> byte option" where
  "next_hop r d = map_option (\<lambda>e. nb_node_id (nbrs r ! unat (re_gateway_idx e))) (entry_of r d)"

text \<open>The nodes a packet for \<open>d\<close> passes from \<open>u\<close> on, if it gets there in at most \<open>n\<close> hops.\<close>

fun forward :: "nat \<Rightarrow> (byte \<Rightarrow> router) \<Rightarrow> byte \<Rightarrow> byte \<Rightarrow> byte list option" where
  "forward n R u d =
     (if u = d then Some [u]
      else case n of 0 \<Rightarrow> None
      | Suc n \<Rightarrow> (case next_hop (R u) d of None \<Rightarrow> None | Some g \<Rightarrow> map_option (Cons u) (forward n R g d)))"

declare forward.simps [simp del]

fun walk_cost :: "(byte \<Rightarrow> byte \<Rightarrow> nat \<Rightarrow> bool) \<Rightarrow> byte list \<Rightarrow> nat \<Rightarrow> bool" where
  "walk_cost edge [] c \<longleftrightarrow> False"
| "walk_cost edge [u] c \<longleftrightarrow> c = 0"
| "walk_cost edge (u # v # us) c \<longleftrightarrow> (\<exists>w c'. edge u v w \<and> walk_cost edge (v # us) c' \<and> c = w + c')"

lemma path_cost_prepend: "path_cost g edge d c \<Longrightarrow> edge u g w \<Longrightarrow> path_cost u edge d (w + c)"
proof (induction rule: path_cost.induct)
  case path_here
  then show ?case using path_cost.path_edge [OF path_cost.path_here, of edge u g w] by simp
next
  case (path_edge v c x w')
  then show ?case using path_cost.path_edge [of u edge v "w + c" x w'] by (simp add: add.assoc)
qed

lemma path_via_split: "path_via u edge g d c \<Longrightarrow> \<exists>w c'. edge u g w \<and> path_cost g edge d c' \<and> c = w + c'"
proof (induction rule: path_via.induct)
  case (via_first w)
  then show ?case using path_here [of g edge] by (intro exI [of _ w] exI [of _ 0]) simp
next
  case (via_edge v c x w')
  then show ?case by (metis add.assoc path_cost.path_edge)
qed

text \<open>With exact distances and positive costs every hop is on a shortest path, and the next is nearer.\<close>

lemma forward_shortest:
  assumes hop: "\<And>u c. u \<in> N \<Longrightarrow> u \<noteq> d \<Longrightarrow> shortest_cost u edge d c \<Longrightarrow>
      \<exists>g. next_hop (R u) d = Some g \<and> path_via u edge g d c"
    and pos: "\<And>u v w. edge u v w \<Longrightarrow> v \<in> N \<and> 0 < w"
  shows "u \<in> N \<Longrightarrow> shortest_cost u edge d c \<Longrightarrow> c \<le> n \<Longrightarrow> \<exists>us. forward n R u d = Some us \<and> hd us = u \<and> last us = d \<and> walk_cost edge us c"
proof (induction n arbitrary: u c)
  case 0
  have "u = d"
  proof (rule ccontr)
    assume "u \<noteq> d"
    with hop [OF "0.prems"(1) this "0.prems"(2)] path_via_split pos show False using "0.prems"(3) by fastforce
  qed
  moreover from this have "c = 0" using "0.prems"(2) shortest_cost_unique shortest_cost_source by metis
  ultimately show ?case by (simp add: forward.simps)
next
  case (Suc n)
  show ?case
  proof (cases "u = d")
    case True
    moreover from this have "c = 0" using Suc.prems(2) shortest_cost_unique shortest_cost_source by metis
    ultimately show ?thesis by (simp add: forward.simps)
  next
    case False
    obtain g where g: "next_hop (R u) d = Some g" "path_via u edge g d c" using hop [OF Suc.prems(1) False Suc.prems(2)] by blast
    then obtain w c' where w: "edge u g w" "path_cost g edge d c'" "c = w + c'" using path_via_split [OF g(2)] by blast
    have "shortest_cost g edge d c'"
      unfolding shortest_cost_def
    proof (intro conjI allI impI)
      fix b assume "path_cost g edge d b"
      from path_cost_prepend [OF this w(1)] have "c \<le> w + b" using Suc.prems(2) unfolding shortest_cost_def by blast
      then show "c' \<le> b" using w(3) by simp
    qed (rule w(2))
    then obtain us where us: "forward n R g d = Some us" "hd us = g" "last us = d" "walk_cost edge us c'"
    proof -
      have "g \<in> N" "c' \<le> n" using pos [OF w(1)] w(3) Suc.prems(3) by simp_all
      from Suc.IH [OF this(1) \<open>shortest_cost g edge d c'\<close> this(2)] that show thesis by blast
    qed
    then obtain vs where "us = g # vs" by (cases us) auto
    then show ?thesis using us False g(1) w(1,3) by (subst forward.simps) auto
  qed
qed


section \<open>The network\<close>

text \<open>The links that the initialisation file gives the nodes of the network.\<close>

definition file_edge :: "byte set \<Rightarrow> scanned list \<Rightarrow> byte \<Rightarrow> byte \<Rightarrow> nat \<Rightarrow> bool" where
  "file_edge N ls u v w \<longleftrightarrow> u \<in> N \<and> (\<exists>nb \<in> set (own_lines u ls). nb_node_id nb = v \<and> w = unat (nb_cost nb))"

definition network_ok :: "byte set \<Rightarrow> scanned list \<Rightarrow> bool" where
  "network_ok N ls \<longleftrightarrow> ScanMalformed \<notin> set ls \<and> card N \<le> MAX_NUM_ROUTERS \<and> 255 \<notin> N \<and>
     (\<forall>u \<in> N. length (own_lines u ls) \<le> MAX_NUM_ROUTERS \<and> (\<forall>nb \<in> set (own_lines u ls). nb_node_id nb \<in> N \<and> nb_cost nb \<noteq> 0))"

definition configured :: "scanned list \<Rightarrow> byte \<Rightarrow> router" where
  "configured ls u = (case parse_router u (Some ls) of Inl _ \<Rightarrow> cleared_router u | Inr (_, r) \<Rightarrow> r)"

definition announcement :: "scanned list \<Rightarrow> byte \<Rightarrow> ls_packet" where
  "announcement ls u = own_packet (configured ls u) 0"

lemma configured_ok:
  assumes "network_ok N ls" "u \<in> N"
  shows "parse_router u (Some ls) = Inr (0, configured ls u)" "router_inv (configured ls u)" "routes_ok (configured ls u)"
    "m_id (configured ls u) = u" "nbrs (configured ls u) = own_lines u ls" "dests (configured ls u) = []"
    "m_seq_num (configured ls u) = 0"
proof -
  obtain r where r: "parse_router u (Some ls) = Inr (0, r)" "router_inv r" "routes_ok r" "m_id r = u" "nbrs r = own_lines u ls" "dests r = []"
    using parse_router_ok [of ls u] assms by (auto simp: network_ok_def)
  moreover have "m_seq_num r = 0" using parse_router_seq [of u ls "cleared_router u" 0 r] r(1) by (simp add: parse_router_def cleared_router_def)
  moreover have "configured ls u = r" using r(1) by (simp add: configured_def)
  ultimately show "parse_router u (Some ls) = Inr (0, configured ls u)" "router_inv (configured ls u)" "routes_ok (configured ls u)"
    "m_id (configured ls u) = u" "nbrs (configured ls u) = own_lines u ls" "dests (configured ls u) = []"
    "m_seq_num (configured ls u) = 0" by simp_all
qed

lemma announcement_ok:
  assumes "network_ok N ls" "u \<in> N"
  shows "packet_in N (announcement ls u)" "pkt_origin (announcement ls u) = u" "pkt_seq_num (announcement ls u) \<noteq> 0"
    "pkt_entries (announcement ls u) = map (\<lambda>nb. (nb_node_id nb, nb_cost nb)) (own_lines u ls)"
proof -
  note c = configured_ok [OF assms]
  have "shape_ok (configured ls u)" using c(2) by (simp add: router_inv_def)
  note own = own_packet_ok [OF this, of 0]
  show "pkt_entries (announcement ls u) = map (\<lambda>nb. (nb_node_id nb, nb_cost nb)) (own_lines u ls)"
    "pkt_origin (announcement ls u) = u" using own c by (simp_all add: announcement_def)
  then show "packet_in N (announcement ls u)" using own(1) assms by (auto simp: packet_in_def announcement_def network_ok_def)
  show "pkt_seq_num (announcement ls u) \<noteq> 0" using c(7) by (simp add: announcement_def own_packet_def)
qed

lemma links_held: "links r u = (if u = m_id r then map (\<lambda>nb. (nb_node_id nb, nb_cost nb)) (nbrs r) else pkt_entries (held r u))"
  using zero_packet_ok(2) by (auto simp: links_def held_def split: option.splits)

lemma router_converges:
  assumes net: "network_ok N ls" and u: "u \<in> N" and ps: "set ps \<subseteq> announcement ls ` N" "announcement ls ` (N - {u}) \<subseteq> set ps"
  shows "\<exists>r. process_packets (configured ls u) ps = Inr r \<and> router_inv r \<and> routes_ok r \<and> m_id r = u \<and>
    link_edge r = file_edge N ls \<and> N - {u} \<subseteq> set (dest_ids r)"
proof -
  let ?r = "configured ls u" let ?pk = "announcement ls"
  note c = configured_ok [OF net u] and an = announcement_ok [OF net]
  have N: "card N \<le> MAX_NUM_ROUTERS" "255 \<notin> N" using net by (simp_all add: network_ok_def)
  have "known_nodes ?r \<subseteq> N" using c u net by (auto simp: known_nodes_def dest_ids_def network_ok_def)
  moreover have h0: "held ?r v = zero_packet" for v using c(6) by (simp add: held_def entry_of_def)
  then have "holds_only ?pk ?r" by (simp add: holds_only_def)
  ultimately obtain r where r: "process_packets ?r ps = Inr r" "router_inv r" "same_node ?r r" "routes_ok r"
    "\<forall>v. v \<noteq> u \<and> (?pk v \<in> set ps \<and> v \<in> N) \<longrightarrow> held r v = ?pk v" "\<forall>v. v \<notin> N \<longrightarrow> held r v = zero_packet"
    "pkt_origin ` set ps - {u} \<subseteq> set (dest_ids r)"
    using process_network_packets [OF N, of ?pk ?r ps] an(1-3) c(2,3,4) ps(1) h0 by auto
  have id: "m_id r = u" "nbrs r = own_lines u ls" using same_node_nbrs [OF r(3)] c(4,5) by simp_all
  have lk: "links r v = (if v \<in> N then map (\<lambda>nb. (nb_node_id nb, nb_cost nb)) (own_lines v ls) else [])" for v
  proof (cases "v = u")
    case True
    then show ?thesis using id u by (simp add: links_held)
  next
    case False
    show ?thesis
    proof (cases "v \<in> N")
      case True
      then have "?pk v \<in> set ps" using ps(2) False by auto
      then show ?thesis using r(5) True False id(1) an(4) [OF True] by (simp add: links_held)
    next
      case out: False
      then show ?thesis using r(6) False id(1) zero_packet_ok(2) by (simp add: links_held)
    qed
  qed
  have "link_edge r = file_edge N ls"
  proof (intro ext)
    fix a b w
    show "link_edge r a b w = file_edge N ls a b w" unfolding link_edge_iff lk file_edge_def by auto
  qed
  moreover have "N - {u} \<subseteq> set (dest_ids r)"
  proof
    fix v assume v: "v \<in> N - {u}"
    then have "?pk v \<in> set ps" using ps(2) by auto
    moreover have "pkt_origin (?pk v) = v" using an(2) v by simp
    ultimately show "v \<in> set (dest_ids r)" using r(7) v by (metis Diff_iff image_eqI singletonD subsetD)
  qed
  ultimately show ?thesis using r id by blast
qed

section \<open>Property\<close>

text \<open>
  C2. A network of at most 32 routers, configured from one well-formed file with positive costs, converges:
  once every router has processed the packets of all the others, in any order, with any
  repetitions and its own packet among them or not, then every router forwards right: from hop to
  hop, by the gateways in the tables, a packet from any node reaches every destination there is
  a path to, and it does so on a path of least cost in the graph of the file.
\<close>

theorem network_forwards_shortest:
  assumes "network_ok N ls"
    and "\<forall>u \<in> N. set (ps u) \<subseteq> announcement ls ` N \<and> announcement ls ` (N - {u}) \<subseteq> set (ps u)"
  shows "\<exists>R. (\<forall>u \<in> N. \<exists>r0. parse_router u (Some ls) = Inr (0, r0) \<and> process_packets r0 (ps u) = Inr (R u)) \<and>
    (\<forall>u \<in> N. \<forall>d \<in> N. (\<exists>c. path_cost u (file_edge N ls) d c) \<longrightarrow>
      (\<exists>c us. shortest_cost u (file_edge N ls) d c \<and> forward c R u d = Some us \<and> walk_cost (file_edge N ls) us c \<and>
        hd us = u \<and> last us = d))"
proof -
  let ?G = "file_edge N ls"
  have "\<forall>u \<in> N. \<exists>r. process_packets (configured ls u) (ps u) = Inr r \<and> router_inv r \<and> routes_ok r \<and> m_id r = u \<and>
    link_edge r = ?G \<and> N - {u} \<subseteq> set (dest_ids r)" using router_converges [OF assms(1)] assms(2) by blast
  then obtain R where R: "\<And>u. u \<in> N \<Longrightarrow> process_packets (configured ls u) (ps u) = Inr (R u) \<and> router_inv (R u) \<and> routes_ok (R u) \<and>
    m_id (R u) = u \<and> link_edge (R u) = ?G \<and> N - {u} \<subseteq> set (dest_ids (R u))" by metis
  have pos: "v \<in> N \<and> 0 < w" if "?G u v w" for u v w
    using that assms(1) by (auto simp: file_edge_def network_ok_def unat_gt_0)
  have hop: "\<exists>g. next_hop (R u) d = Some g \<and> path_via u ?G g d c" if "d \<in> N" "u \<in> N" "u \<noteq> d" "shortest_cost u ?G d c" for u d c
  proof -
    note Ru = R [OF that(2)]
    have "d \<in> set (dest_ids (R u))" using Ru that(1,3) by auto
    then obtain e where e: "entry_of (R u) d = Some e" using entry_of_eq_None by fastforce
    have "reachable (R u) d" using that(4) Ru by (auto simp: reachable_def shortest_cost_def)
    then have "shortest_cost u ?G d (unat (re_cost e))" "gateway_ok (R u) d e" using Ru e by (auto simp: routes_ok_def)
    then show ?thesis using e Ru shortest_cost_unique [OF that(4)] by (auto simp: next_hop_def gateway_ok_def)
  qed
  have "\<exists>c us. shortest_cost u ?G d c \<and> forward c R u d = Some us \<and> walk_cost ?G us c \<and> hd us = u \<and> last us = d"
    if "u \<in> N" "d \<in> N" "path_cost u ?G d c" for u d c
  proof -
    define m where "m = (LEAST c. path_cost u ?G d c)"
    have "shortest_cost u ?G d m"
      unfolding shortest_cost_def m_def using that(3) by (auto intro: LeastI Least_le)
    with forward_shortest [of N d ?G R u m m] hop [OF that(2)] pos that(1) show ?thesis by blast
  qed
  then show ?thesis using R configured_ok(1) [OF assms(1)] by blast
qed

definition network_lines :: "scanned list" where
  "network_lines = example_lines @ [ScanLine 66 9705 67 9706 2, ScanLine 67 9706 66 9705 2, ScanLine 67 9704 65 9703 10]"

lemma example_network: "network_ok {65, 66, 67} network_lines"
  by (auto simp: network_ok_def network_lines_def example_lines_def own_lines_def MAX_NUM_ROUTERS_def)

theorem network_forwards_shortest_witness:
  "\<exists>R c us. (\<forall>u \<in> {65, 66, 67}. process_packets (configured network_lines u) (map (announcement network_lines) [67, 65, 66, 65]) = Inr (R u)) \<and>
     forward c R 65 67 = Some us \<and> hd us = 65 \<and> last us = 67 \<and> walk_cost (file_edge {65, 66, 67} network_lines) us c \<and> c \<le> 3"
proof -
  let ?G = "file_edge {65, 66, 67} network_lines"
  have e: "?G 65 66 1" "?G 66 67 2" by (simp_all add: file_edge_def network_lines_def example_lines_def own_lines_def)
  have p: "path_cost 65 ?G 67 (0 + 1 + 2)" by (rule path_edge [where w = 2, OF path_edge [where w = 1, OF path_here]]) (use e in simp_all)
  have "\<forall>u \<in> {65, 66, 67}. set (map (announcement network_lines) [67, 65, 66, 65]) \<subseteq> announcement network_lines ` {65, 66, 67} \<and>
    announcement network_lines ` ({65, 66, 67} - {u}) \<subseteq> set (map (announcement network_lines) [67, 65, 66, 65])" by auto
  from network_forwards_shortest [OF example_network this] obtain R where R:
    "\<forall>u \<in> {65, 66, 67}. \<exists>r0. parse_router u (Some network_lines) = Inr (0, r0) \<and>
       process_packets r0 (map (announcement network_lines) [67, 65, 66, 65]) = Inr (R u)"
    "\<forall>u \<in> {65, 66, 67}. \<forall>d \<in> {65, 66, 67}. (\<exists>c. path_cost u ?G d c) \<longrightarrow>
      (\<exists>c us. shortest_cost u ?G d c \<and> forward c R u d = Some us \<and> walk_cost ?G us c \<and> hd us = u \<and> last us = d)" by blast
  then obtain c us where "shortest_cost 65 ?G 67 c" "forward c R 65 67 = Some us" "walk_cost ?G us c" "hd us = 65" "last us = 67"
    using p by blast
  moreover from this have "c \<le> 3" using p by (auto simp: shortest_cost_def eval_nat_numeral)
  moreover have "\<forall>u \<in> {65, 66, 67}. process_packets (configured network_lines u) (map (announcement network_lines) [67, 65, 66, 65]) = Inr (R u)"
    using R(1) by (auto simp: configured_def)
  ultimately show ?thesis by blast
qed

end
