(* ===== verification/RouterMain.thy ===== *)
theory RouterMain
  imports RouterProps
begin

text \<open>
  The router program (\<^verbatim>\<open>PA3/routed_LS.c\<close>): the loop of \<^verbatim>\<open>Router_Main\<close>, \<^verbatim>\<open>main\<close> and the signal
  handler.  A round of the loop is what \<^verbatim>\<open>select\<close> and the clock yield and what the ready descriptors
  deliver; the list of rounds is what has happened so far.
\<close>

section \<open>The program\<close>

record round =
  rd_rv :: int
  rd_now :: u64
  rd_ready :: "int \<Rightarrow> delivery option"

text \<open>The loop never returns; \<^verbatim>\<open>exit(2)\<close> ends the process.\<close>

fun Router_Main_loop :: "round list \<Rightarrow> main_state \<Rightarrow> main_state result" where
  "Router_Main_loop [] s = Inr s"
| "Router_Main_loop (rd # rds) s =
     bindR (Router_Main_round (rd_rv rd) (rd_now rd) (rd_ready rd) s) (\<lambda>s.
     if ms_exit s = None then Router_Main_loop rds s else Inr s)"

definition Router_Main :: "u64 \<Rightarrow> ls_packet \<Rightarrow> round list \<Rightarrow> router \<Rightarrow> main_state result" where
  "Router_Main now packet rds r =
     Router_Main_loop rds \<lparr>ms_router = r, ms_packet = packet, ms_last_broadcast = now, ms_sent = [], ms_log = [],
       ms_closed = [], ms_exit = None\<rparr>"

text \<open>The neighbours that are written to the log.\<close>

fun log_neighbors :: "neighbor list \<Rightarrow> nat \<Rightarrow> nat \<Rightarrow> neighbor list result" where
  "log_neighbors nbs i 0 = Inr []"
| "log_neighbors nbs i (Suc k) =
     bindR (arr_get nbs (int i)) (\<lambda>nb. bindR (log_neighbors nbs (Suc i) k) (\<lambda>ls. Inr (nb # ls)))"

text \<open>
  What the process is given: the arguments, each with its terminator, whether the log file can be opened,
  the initialisation file, the results of the socket calls, the clock, the packet on the stack, and the
  rounds.
\<close>

record router_env =
  en_argv :: "byte list list"
  en_log_opens :: bool
  en_file :: "scanned list option"
  en_connect :: "u16 \<Rightarrow> int"
  en_listen :: "u16 \<Rightarrow> int \<Rightarrow> int \<times> int"
  en_now :: u64
  en_packet :: ls_packet
  en_rounds :: "round list"

text \<open>
  The process has returned from \<open>main\<close> with a status, or is in \<open>Router_Main\<close> (or has left it by
  \<^verbatim>\<open>exit\<close>), with the neighbours it has logged.  What \<open>parse_router\<close> returns is ignored.
\<close>

datatype router_process = MainReturned int | InRouterMain "neighbor list" main_state

definition routed_main :: "router_env \<Rightarrow> router_process result" where
  "routed_main en =
     (if length (en_argv en) < 4 then Inr (MainReturned (-1))
      else
        let name = en_argv en ! 1 in
        bindR (arr_get name 0) (\<lambda>id.
        bindR (if id = 0 then Inr True else bindR (arr_get name 1) (\<lambda>c. Inr (c \<noteq> 0))) (\<lambda>bad.
        if bad then Inr (MainReturned (-1))
        else if \<not> en_log_opens en then Inr (MainReturned (-1))
        else
          bindR (parse_router id (en_file en)) (\<lambda>(_, r).
          bindR (wait_for_neighbors (en_connect en) (en_listen en) r) (\<lambda>r.
          bindR (log_neighbors (m_neighbors_table r) 0 (unat (m_num_neighbors r))) (\<lambda>nbs.
          bindR (Router_Main (en_now en) (en_packet en) (en_rounds en) r) (\<lambda>s.
          Inr (InRouterMain nbs s))))))))"

text \<open>\<^verbatim>\<open>sighandler\<close>: the descriptors it closes and the status of the process.\<close>

definition routed_sighandler :: "router \<Rightarrow> (int list \<times> int) result" where
  "routed_sighandler r = bindR (close_router r) (\<lambda>fds. Inr (fds, 0))"

section \<open>The neighbours are connected and logged\<close>

lemma wait_loop_ok:
  "i + k \<le> length nbs \<Longrightarrow> wait_for_neighbors_loop cn ln i k nbs =
    Inr (take i nbs @ map (open_neighbor cn ln) (take k (drop i nbs)) @ drop (i + k) nbs)"
proof (induction k arbitrary: i nbs)
  case (Suc k)
  let ?nb = "open_neighbor cn ln (nbs ! i)"
  have i: "i < length nbs" "drop i nbs = nbs ! i # drop (Suc i) nbs" using Suc.prems by (simp_all add: Cons_nth_drop_Suc)
  have t: "take (Suc i) (nbs[i := ?nb]) = take i nbs @ [?nb]" "drop (Suc i) (nbs[i := ?nb]) = drop (Suc i) nbs"
    "drop (Suc i + k) (nbs[i := ?nb]) = drop (Suc i + k) nbs"
    using i(1) by (simp_all add: take_Suc_conv_app_nth)
  show ?case using Suc.IH [of "Suc i" "nbs[i := ?nb]"] Suc.prems i t by simp
qed simp

lemma open_neighbor_same [simp]:
  "nb_node_id (open_neighbor cn ln nb) = nb_node_id nb" "nb_cost (open_neighbor cn ln nb) = nb_cost nb"
  by (simp_all add: open_neighbor_def Let_def split: prod.splits)

lemma wait_for_neighbors_ok:
  assumes "router_inv r"
  shows "\<exists>r'. wait_for_neighbors cn ln r = Inr r' \<and> router_inv r' \<and> nbrs r' = map (open_neighbor cn ln) (nbrs r) \<and>
    dests r' = dests r \<and> m_id r' = m_id r \<and> m_num_neighbors r' = m_num_neighbors r"
proof -
  let ?k = "unat (m_num_neighbors r)"
  let ?t = "map (open_neighbor cn ln) (take ?k (m_neighbors_table r)) @ drop ?k (m_neighbors_table r)"
  let ?r = "r\<lparr>m_neighbors_table := ?t\<rparr>"
  have k: "?k \<le> length (m_neighbors_table r)" using assms by (simp add: router_inv_def shape_ok_def)
  then have "wait_for_neighbors cn ln r = Inr ?r" by (simp add: wait_for_neighbors_def wait_loop_ok)
  moreover have "nbrs ?r = map (open_neighbor cn ln) (nbrs r)" using k by (simp add: nbrs_def)
  moreover have "dests ?r = dests r" by (simp add: dests_def)
  moreover from this have "router_inv ?r" using assms k by (simp add: router_inv_def shape_ok_def dest_ids_def)
  ultimately show ?thesis by auto
qed

lemma log_neighbors_ok: "i + k \<le> length nbs \<Longrightarrow> log_neighbors nbs i k = Inr (take k (drop i nbs))"
proof (induction k arbitrary: i)
  case (Suc k)
  then have "drop i nbs = nbs ! i # drop (Suc i) nbs" by (simp add: Cons_nth_drop_Suc)
  with Suc show ?case by simp
qed simp

lemma close_router_ok: "shape_ok r \<Longrightarrow> \<exists>fds. close_router r = Inr fds \<and> set (map nb_sock_fd (nbrs r)) \<subseteq> set fds"
proof -
  have "i + k \<le> length nbs \<Longrightarrow> \<exists>fds. close_router_loop nbs i k = Inr fds \<and> nb_sock_fd ` set (take k (drop i nbs)) \<subseteq> set fds" for i k nbs
  proof (induction k arbitrary: i)
    case (Suc k)
    then have "drop i nbs = nbs ! i # drop (Suc i) nbs" by (simp add: Cons_nth_drop_Suc)
    moreover obtain fds where "close_router_loop nbs (Suc i) k = Inr fds" "nb_sock_fd ` set (take k (drop (Suc i) nbs)) \<subseteq> set fds"
      using Suc.IH [of "Suc i"] Suc.prems by auto
    ultimately show ?case using Suc.prems by auto
  qed simp
  from this [of 0 "unat (m_num_neighbors r)" "m_neighbors_table r"] show "shape_ok r \<Longrightarrow> ?thesis"
    by (simp add: close_router_def shape_ok_def nbrs_def)
qed

section \<open>The loop\<close>

text \<open>What a neighbour may deliver: the end of the connection, or a packet about the nodes of \<open>N\<close>.\<close>

definition delivery_ok :: "byte set \<Rightarrow> delivery \<Rightarrow> bool" where
  "delivery_ok N d =
     (case d of (first, rest, junk) \<Rightarrow> length junk = 254 \<and>
        (case first of None \<Rightarrow> True | Some n \<Rightarrow> \<exists>p. packet_in N p \<and> n = hd (framed p) \<and> rest = tl (framed p)))"

definition round_ok :: "byte set \<Rightarrow> round \<Rightarrow> bool" where
  "round_ok N rd \<longleftrightarrow> (\<forall>fd d. rd_ready rd fd = Some d \<longrightarrow> delivery_ok N d)"

text \<open>A whole packet, to a neighbour.\<close>

definition sent_ok :: "byte set \<Rightarrow> neighbor list \<Rightarrow> sends \<Rightarrow> bool" where
  "sent_ok N nbs ws \<longleftrightarrow> (\<forall>(fd, bs) \<in> set ws. fd \<in> nb_sock_fd ` set nbs \<and> (\<exists>p. packet_in N p \<and> bs = framed p))"

definition main_inv :: "byte set \<Rightarrow> byte \<Rightarrow> neighbor list \<Rightarrow> main_state \<Rightarrow> bool" where
  "main_inv N i nbs s \<longleftrightarrow> router_inv (ms_router s) \<and> routes_ok (ms_router s) \<and> m_id (ms_router s) = i \<and>
     nbrs (ms_router s) = nbs \<and> known_nodes (ms_router s) \<subseteq> N \<and> pkt_shape (ms_packet s) \<and> sent_ok N nbs (ms_sent s) \<and>
     (ms_exit s = None \<or> ms_exit s = Some 2 \<and> nb_sock_fd ` set nbs \<subseteq> set (ms_closed s))"

lemma sent_ok_append [simp]: "sent_ok N nbs (ws @ vs) \<longleftrightarrow> sent_ok N nbs ws \<and> sent_ok N nbs vs"
  by (auto simp: sent_ok_def)

lemma seq_num_same [simp]:
  "nbrs (r\<lparr>m_seq_num := x\<rparr>) = nbrs r" "dests (r\<lparr>m_seq_num := x\<rparr>) = dests r" "entry_of (r\<lparr>m_seq_num := x\<rparr>) = entry_of r"
  "links (r\<lparr>m_seq_num := x\<rparr>) = links r"
  by (simp_all add: nbrs_def dests_def entry_of_def links_def fun_eq_iff)

lemma seq_num_inv [simp]:
  "router_inv (r\<lparr>m_seq_num := x\<rparr>) = router_inv r" "routes_ok (r\<lparr>m_seq_num := x\<rparr>) = routes_ok r"
  "known_nodes (r\<lparr>m_seq_num := x\<rparr>) = known_nodes r"
proof -
  have "link_edge (r\<lparr>m_seq_num := x\<rparr>) = link_edge r" by (simp add: link_edge_def fun_eq_iff)
  then show "router_inv (r\<lparr>m_seq_num := x\<rparr>) = router_inv r" "routes_ok (r\<lparr>m_seq_num := x\<rparr>) = routes_ok r"
    "known_nodes (r\<lparr>m_seq_num := x\<rparr>) = known_nodes r"
    by (simp_all add: router_inv_def shape_ok_def dest_ids_def routes_ok_def reachable_def gateway_ok_def known_nodes_def)
qed

lemma own_packet_in:
  assumes "router_inv r" "known_nodes r \<subseteq> N"
  shows "packet_in N (own_packet r 0)"
proof -
  have "shape_ok r" using assms(1) by (simp add: router_inv_def)
  from own_packet_ok [OF this, of 0] assms(2) show ?thesis by (auto simp: packet_in_def known_nodes_def)
qed

lemma broadcast_if_due_ok:
  assumes "main_inv N i nbs s" "ms_exit s = None"
  shows "\<exists>s'. broadcast_if_due now s = Inr s' \<and> main_inv N i nbs s' \<and> ms_exit s' = None"
proof (cases "5000 < now - ms_last_broadcast s")
  case True
  have r: "router_inv (ms_router s)" "known_nodes (ms_router s) \<subseteq> N" "nbrs (ms_router s) = nbs"
    using assms(1) by (simp_all add: main_inv_def)
  have "sent_ok N nbs (map (\<lambda>nb. (nb_sock_fd nb, framed (own_packet (ms_router s) 0))) nbs)"
    using own_packet_in [OF r(1,2)] by (auto simp: sent_ok_def)
  with True assms r broadcast_packet_ok [of "ms_router s"] show ?thesis
    by (simp add: broadcast_if_due_def main_inv_def router_inv_def [of "ms_router s"])
qed (use assms in \<open>simp add: broadcast_if_due_def\<close>)

lemma receive_ok:
  assumes inv: "main_inv N i nbs s" and few: "length nbs < MAX_NUM_ROUTERS" and N: "card N \<le> MAX_NUM_ROUTERS" "255 \<notin> N"
    and p: "packet_in N p" and junk: "length junk = 254"
  shows "\<exists>ws ls pk r. read_packet (Some (hd (framed p))) (tl (framed p)) junk fd (ms_packet s) (ms_router s) = Inr (Some (ws, ls, pk, r)) \<and>
    main_inv N i nbs (s\<lparr>ms_router := r, ms_packet := pk, ms_sent := ms_sent s @ ws, ms_log := ms_log s @ ls\<rparr>)"
proof (cases "pkt_origin p = i")
  case True
  have "pkt_ok p" "pkt_origin p = m_id (ms_router s)" "pkt_shape (ms_packet s)"
    using True inv p by (simp_all add: main_inv_def packet_in_def)
  from read_own_packet [OF this(1,2) junk this(3), of fd] inv show ?thesis by (auto simp: main_inv_def sent_ok_def)
next
  case False
  let ?r = "ms_router s"
  have r: "router_inv ?r" "routes_ok ?r" "m_id ?r = i" "nbrs ?r = nbs" "known_nodes ?r \<subseteq> N" "pkt_shape (ms_packet s)" "pkt_ok p"
    using inv p by (simp_all add: main_inv_def packet_in_def)
  have n: "unat (m_num_neighbors ?r) < MAX_NUM_ROUTERS" using few r(1,4) by (auto simp: router_inv_def shape_ok_def nbrs_def)
  have sub: "heard ?r p \<subseteq> N" using r(5) p by (auto simp: heard_def packet_in_def)
  have room: "card (heard ?r p) \<le> MAX_NUM_ROUTERS" "255 \<notin> heard ?r p" using card_mono [OF _ sub] N sub by auto
  obtain ls pk r' where rd: "read_packet (Some (hd (framed p))) (tl (framed p)) junk fd (ms_packet s) ?r =
      Inr (Some (if news ?r p then map (\<lambda>nb. (nb_sock_fd nb, framed p)) (filter (\<lambda>nb. nb_sock_fd nb \<noteq> fd) nbs) else [], ls, pk, r'))"
    and r': "router_inv r'" "same_node ?r r'" "links r' = (if news ?r p then (links ?r)(pkt_origin p := pkt_entries p) else links ?r)"
    "known_nodes r' \<subseteq> heard ?r p" "if news ?r p then routes_ok r' else route_of r' = route_of ?r" "pkt_shape pk"
    using read_packet_ok [OF r(1) n r(7) _ room junk r(6), of fd] False r(3) unfolding r(4) by blast
  have "routes_ok r'" using r'(3,5) r(2) routes_ok_same [OF r'(2)] by (auto split: if_splits)
  moreover have "sent_ok N nbs (if news ?r p then map (\<lambda>nb. (nb_sock_fd nb, framed p)) (filter (\<lambda>nb. nb_sock_fd nb \<noteq> fd) nbs) else [])"
    using p by (auto simp: sent_ok_def)
  ultimately show ?thesis
    using rd r' inv same_node_nbrs [OF r'(2)] r(3,4) sub by (fastforce simp: main_inv_def)
qed

lemma serve_ready_ok:
  assumes "length nbs < MAX_NUM_ROUTERS" "card N \<le> MAX_NUM_ROUTERS" "255 \<notin> N"
    and "\<And>fd d. ready fd = Some d \<Longrightarrow> delivery_ok N d"
  shows "main_inv N i nbs s \<Longrightarrow> ms_exit s = None \<Longrightarrow> j + k \<le> MAX_NUM_ROUTERS \<Longrightarrow>
    \<exists>s'. serve_ready ready j k s = Inr s' \<and> main_inv N i nbs s'"
proof (induction k arbitrary: j s)
  case (Suc k)
  let ?r = "ms_router s" let ?fd = "nb_sock_fd (m_neighbors_table ?r ! j)"
  have sh: "shape_ok ?r" using Suc.prems(1) by (simp add: main_inv_def router_inv_def)
  then have get: "arr_get (m_neighbors_table ?r) (int j) = Inr (m_neighbors_table ?r ! j)"
    using Suc.prems(3) by (simp add: shape_ok_def)
  show ?case
  proof (cases "ready ?fd")
    case None
    then show ?thesis using get Suc.IH [OF Suc.prems(1,2), of "Suc j"] Suc.prems(3) by simp
  next
    case (Some d)
    obtain first rest junk where d: "d = (first, rest, junk)" by (cases d)
    have ok: "length junk = 254" "first = None \<or> (\<exists>p. packet_in N p \<and> first = Some (hd (framed p)) \<and> rest = tl (framed p))"
      using assms(4) [OF Some] d by (auto simp: delivery_ok_def split: option.splits)
    show ?thesis
    proof (cases first)
      case None
      obtain fds where "close_router ?r = Inr fds" "nb_sock_fd ` set nbs \<subseteq> set fds"
        using close_router_ok [OF sh] Suc.prems(1) by (auto simp: main_inv_def)
      then show ?thesis using get Some d None Suc.prems(1) by (simp add: read_packet_def main_inv_def)
    next
      case [simp]: (Some n)
      then obtain p where p: "packet_in N p" "n = hd (framed p)" "rest = tl (framed p)" using ok(2) by auto
      obtain ws ls pk r where rd: "read_packet first rest junk ?fd (ms_packet s) ?r = Inr (Some (ws, ls, pk, r))"
        "main_inv N i nbs (s\<lparr>ms_router := r, ms_packet := pk, ms_sent := ms_sent s @ ws, ms_log := ms_log s @ ls\<rparr>)"
        using receive_ok [OF Suc.prems(1) assms(1-3) p(1) ok(1), of ?fd] p by auto
      show ?thesis
        using get \<open>ready ?fd = Some d\<close> d rd(1) Suc.IH [OF rd(2), of "Suc j"] Suc.prems(2,3) by simp
    qed
  qed
qed simp

lemma main_round_ok:
  assumes "length nbs < MAX_NUM_ROUTERS" "card N \<le> MAX_NUM_ROUTERS" "255 \<notin> N" "round_ok N rd"
    and "main_inv N i nbs s" "ms_exit s = None"
  shows "\<exists>s'. Router_Main_round (rd_rv rd) (rd_now rd) (rd_ready rd) s = Inr s' \<and> main_inv N i nbs s'"
proof -
  obtain s1 where s1: "broadcast_if_due (rd_now rd) s = Inr s1" "main_inv N i nbs s1" "ms_exit s1 = None"
    using broadcast_if_due_ok [OF assms(5,6)] by blast
  have "unat (m_num_neighbors (ms_router s1)) \<le> MAX_NUM_ROUTERS"
    using s1(2) by (simp add: main_inv_def router_inv_def shape_ok_def)
  with serve_ready_ok [OF assms(1-3) _ s1(2,3), of "rd_ready rd" 0] assms(4) s1 show ?thesis
    by (auto simp: Router_Main_round_def round_ok_def)
qed

lemma main_loop_ok:
  assumes "length nbs < MAX_NUM_ROUTERS" "card N \<le> MAX_NUM_ROUTERS" "255 \<notin> N"
  shows "list_all (round_ok N) rds \<Longrightarrow> main_inv N i nbs s \<Longrightarrow> ms_exit s = None \<Longrightarrow>
    \<exists>s'. Router_Main_loop rds s = Inr s' \<and> main_inv N i nbs s'"
proof (induction rds arbitrary: s)
  case (Cons rd rds)
  then obtain s1 where s1: "Router_Main_round (rd_rv rd) (rd_now rd) (rd_ready rd) s = Inr s1" "main_inv N i nbs s1"
    using main_round_ok [OF assms, of rd i s] by auto
  with Cons show ?case by (cases "ms_exit s1") auto
qed auto

section \<open>Properties\<close>

text \<open>The arguments \<^verbatim>\<open>routed_LS i log file\<close>.\<close>

definition args_ok :: "byte \<Rightarrow> byte list list \<Rightarrow> bool" where
  "args_ok i argv \<longleftrightarrow> 4 \<le> length argv \<and> i \<noteq> 0 \<and> (\<exists>rest. argv ! 1 = i # 0 # rest)"

lemma routes_okD:
  "routes_ok r \<Longrightarrow> entry_of r u = Some e \<Longrightarrow> path_cost (m_id r) (link_edge r) u c \<Longrightarrow>
    shortest_cost (m_id r) (link_edge r) u (unat (re_cost e)) \<and>
    path_via (m_id r) (link_edge r) (nb_node_id (nbrs r ! unat (re_gateway_idx e))) u (unat (re_cost e))"
  unfolding routes_ok_def reachable_def gateway_ok_def by blast

lemma routed_main_starts:
  assumes "args_ok i (en_argv en)" "en_log_opens en" "en_file en = Some ls"
    and "ScanMalformed \<notin> set ls" "length (own_lines i ls) \<le> MAX_NUM_ROUTERS"
  shows "\<exists>r. router_inv r \<and> m_id r = i \<and> nbrs r = map (open_neighbor (en_connect en) (en_listen en)) (own_lines i ls) \<and> dests r = [] \<and>
    routed_main en = bindR (Router_Main (en_now en) (en_packet en) (en_rounds en) r) (\<lambda>s. Inr (InRouterMain (nbrs r) s))"
proof -
  obtain r0 where r0: "parse_router i (Some ls) = Inr (0, r0)" "router_inv r0" "m_id r0 = i" "nbrs r0 = own_lines i ls" "dests r0 = []"
    using parse_router_ok [OF assms(4,5)] by blast
  obtain r where r: "wait_for_neighbors (en_connect en) (en_listen en) r0 = Inr r" "router_inv r"
    "nbrs r = map (open_neighbor (en_connect en) (en_listen en)) (own_lines i ls)" "dests r = []" "m_id r = i"
    using wait_for_neighbors_ok [OF r0(2), of "en_connect en" "en_listen en"] r0 by auto
  have k: "unat (m_num_neighbors r) \<le> length (m_neighbors_table r)" using r(2) by (simp add: router_inv_def shape_ok_def)
  have "log_neighbors (m_neighbors_table r) 0 (unat (m_num_neighbors r)) = Inr (nbrs r)"
    using log_neighbors_ok [of 0 "unat (m_num_neighbors r)" "m_neighbors_table r"] k by (simp add: nbrs_def)
  then have "routed_main en = bindR (Router_Main (en_now en) (en_packet en) (en_rounds en) r) (\<lambda>s. Inr (InRouterMain (nbrs r) s))"
    using assms(1-3) r0(1) r(1) by (auto simp: routed_main_def args_ok_def)
  with r show ?thesis by blast
qed


text \<open>
  Router A hears from B, broadcasts when the clock is 6 seconds on, and loses C in the third round.
\<close>

definition example_rounds :: "round list" where
  "example_rounds =
     [\<lparr>rd_rv = 1, rd_now = 1000, rd_ready = (\<lambda>fd. if fd = 9702 then Some (Some (hd (framed packet_B)), tl (framed packet_B), replicate 254 7) else None)\<rparr>,
      \<lparr>rd_rv = 0, rd_now = 6000, rd_ready = (\<lambda>_. None)\<rparr>,
      \<lparr>rd_rv = 1, rd_now = 7000, rd_ready = (\<lambda>fd. if fd = 9704 then Some (None, [], replicate 254 7) else None)\<rparr>]"

definition example_env :: router_env where
  "example_env = \<lparr>en_argv = [[114, 0], [65, 0], [108, 0], [102, 0]], en_log_opens = True, en_file = Some example_lines,
     en_connect = uint, en_listen = (\<lambda>_ serv. (-1, serv)), en_now = 0, en_packet = zero_packet, en_rounds = example_rounds\<rparr>"

definition program_view :: "router_process result \<Rightarrow> (int option \<times> int list \<times> int list \<times> (byte \<times> nat) option \<times> (byte \<times> byte) list) option" where
  "program_view x =
     (case x of Inr (InRouterMain nbs s) \<Rightarrow> Some (ms_exit s, ms_closed s, map fst (ms_sent s),
        map_option (\<lambda>e. (nb_node_id (nbs ! unat (re_gateway_idx e)), unat (re_cost e))) (entry_of (ms_router s) 66), links (ms_router s) 65)
      | _ \<Rightarrow> None)"

lemma example_program:
  "program_view (routed_main example_env) = Some (Some 2, [9702, 9704], [9704, 9702, 9704], Some (66, 1), [(66, 1), (67, 10)])"
  by code_simp

lemma example_rounds_ok: "list_all (round_ok {65, 66, 67}) example_rounds"
proof -
  have "packet_in {65, 66, 67} packet_B" by (simp add: packet_in_def example_packets)
  then show ?thesis by (auto simp: example_rounds_def round_ok_def delivery_ok_def split: if_splits)
qed


text \<open>
  What \<open>parse_router\<close> returns is ignored: without an initialisation file the program runs on as a
  router without neighbours, and with a malformed line as one that has only the links before it.
\<close>

lemma unreadable_file_ignored:
  assumes "args_ok i (en_argv en)" "en_log_opens en" "en_file en = None"
  shows "\<exists>r. routed_main en = bindR (Router_Main (en_now en) (en_packet en) (en_rounds en) r) (\<lambda>s. Inr (InRouterMain [] s)) \<and> nbrs r = []"
proof -
  obtain r where r: "wait_for_neighbors (en_connect en) (en_listen en) (cleared_router i) = Inr r" "router_inv r" "nbrs r = []"
    using wait_for_neighbors_ok [of "cleared_router i" "en_connect en" "en_listen en"] cleared_router_inv [of i] by auto
  then have "unat (m_num_neighbors r) = 0" by (auto simp: router_inv_def shape_ok_def nbrs_def)
  then show ?thesis using assms r by (auto simp: routed_main_def args_ok_def parse_router_def)
qed

end
