(* ===== verification/RouterAids.thy ===== *)
theory RouterAids
  imports RouterMain
begin

unbundle bit_operations_syntax

text \<open>
  What stands around the router (\<^verbatim>\<open>PA3/router.c\<close>, \<^verbatim>\<open>routertest.c\<close>): its clock and how often it broadcasts,
  the switch to non-blocking reads, and the test program.
\<close>

section \<open>The clock\<close>

text \<open>\<^verbatim>\<open>tv_sec\<close> and \<^verbatim>\<open>tv_usec\<close>, as \<^verbatim>\<open>gettimeofday\<close> stores them.\<close>

definition getCurrentTimeMillis :: "int \<Rightarrow> int \<Rightarrow> u64" where
  "getCurrentTimeMillis tv_sec tv_usec = word_of_int (tv_sec * 1000 + tv_usec div 1000)"

lemma getCurrentTimeMillis_value:
  assumes "0 \<le> tv_sec" "tv_sec < 2 ^ 53" "0 \<le> tv_usec" "tv_usec < 1000000"
  shows "unat (getCurrentTimeMillis tv_sec tv_usec) = nat (tv_sec * 1000 + tv_usec div 1000)"
proof -
  have "tv_usec div 1000 < 1000" using assms(4) by simp
  then have "0 \<le> tv_sec * 1000 + tv_usec div 1000" "tv_sec * 1000 + tv_usec div 1000 < 2 ^ 64" using assms by simp_all
  then have "uint (getCurrentTimeMillis tv_sec tv_usec) = tv_sec * 1000 + tv_usec div 1000"
    unfolding getCurrentTimeMillis_def by (subst uint_word_of_int) simp
  then show ?thesis by (metis nat_uint_eq)
qed

text \<open>The clock readings at which the loop of \<open>Router_Main\<close> broadcasts.\<close>

fun due_times :: "u64 \<Rightarrow> u64 list \<Rightarrow> u64 list" where
  "due_times last_broadcast [] = []"
| "due_times last_broadcast (now # nows) =
     (if 5000 < now - last_broadcast then now # due_times now nows else due_times last_broadcast nows)"

lemma serve_ready_last: "serve_ready ready i k s = Inr s' \<Longrightarrow> ms_last_broadcast s' = ms_last_broadcast s"
proof (induction k arbitrary: i s)
  case (Suc k)
  then obtain nb where nb: "arr_get (m_neighbors_table (ms_router s)) (int i) = Inr nb" by (auto simp: bindR_eq_Inr)
  show ?case
  proof (cases "ready (nb_sock_fd nb)")
    case None
    then show ?thesis using Suc nb by simp
  next
    case (Some d)
    then show ?thesis using Suc.prems nb by (cases d) (auto simp: bindR_eq_Inr split: option.splits dest!: Suc.IH)
  qed
qed simp

lemma round_last:
  "Router_Main_round rv now ready s = Inr s' \<Longrightarrow>
     ms_last_broadcast s' = (if 5000 < now - ms_last_broadcast s then now else ms_last_broadcast s)"
  by (auto simp: Router_Main_round_def broadcast_if_due_def bindR_eq_Inr split: if_splits dest!: serve_ready_last)

lemma loop_last:
  "Router_Main_loop rds s = Inr s' \<Longrightarrow> ms_exit s' = None \<Longrightarrow>
     ms_last_broadcast s' = last (ms_last_broadcast s # due_times (ms_last_broadcast s) (map rd_now rds))"
proof (induction rds arbitrary: s)
  case (Cons rd rds)
  then obtain s1 where s1: "Router_Main_round (rd_rv rd) (rd_now rd) (rd_ready rd) s = Inr s1"
    "(if ms_exit s1 = None then Router_Main_loop rds s1 else Inr s1) = Inr s'" by (auto simp: bindR_eq_Inr)
  then have "Router_Main_loop rds s1 = Inr s'" using Cons.prems(2) by (auto split: if_splits)
  from Cons.IH [OF this Cons.prems(2)] round_last [OF s1(1)] show ?case by (auto split: if_splits)
qed simp

text \<open>Readings that do not decrease, at most \<open>d\<close> milliseconds from one to the next.\<close>

fun ticks :: "nat \<Rightarrow> u64 list \<Rightarrow> bool" where
  "ticks d (a # b # ts) \<longleftrightarrow> unat a \<le> unat b \<and> unat b \<le> unat a + d \<and> ticks d (b # ts)"
| "ticks d _ \<longleftrightarrow> True"

definition spaced :: "nat \<Rightarrow> u64 \<Rightarrow> u64 \<Rightarrow> bool" where
  "spaced d a b \<longleftrightarrow> unat a + 5000 < unat b \<and> unat b \<le> unat a + 5000 + d"

lemma unat_minus: "unat a \<le> unat b \<Longrightarrow> unat (b - a) = unat b - unat (a :: u64)"
  by (simp add: unat_sub_if_size)

lemma due_spaced:
  assumes "ticks d (t # ts)" "unat last_b \<le> unat t" "unat t \<le> unat last_b + 5000"
  shows "successively (spaced d) (last_b # due_times last_b ts) \<and>
    unat (last (t # ts)) \<le> unat (last (last_b # due_times last_b ts)) + 5000"
  using assms
proof (induction ts arbitrary: t last_b)
  case (Cons now ts)
  have le: "unat last_b \<le> unat now" using Cons.prems by simp
  then have due: "5000 < now - last_b \<longleftrightarrow> unat last_b + 5000 < unat now" by (auto simp: word_less_nat_alt unat_minus)
  show ?case
  proof (cases "5000 < now - last_b")
    case True
    have "spaced d last_b now" using Cons.prems True due by (simp add: spaced_def)
    moreover have "successively (spaced d) (now # due_times now ts) \<and> unat (last (now # ts)) \<le> unat (last (now # due_times now ts)) + 5000"
      using Cons.prems by (intro Cons.IH) simp_all
    ultimately show ?thesis using True by simp
  next
    case False
    have "successively (spaced d) (last_b # due_times last_b ts) \<and> unat (last (now # ts)) \<le> unat (last (last_b # due_times last_b ts)) + 5000"
      using Cons.prems le False due by (intro Cons.IH) simp_all
    then show ?thesis using False by simp
  qed
qed simp


definition example_ticks :: "round list" where
  "example_ticks = [\<lparr>rd_rv = 0, rd_now = 6400, rd_ready = (\<lambda>_. None)\<rparr>, \<lparr>rd_rv = 0, rd_now = 11300, rd_ready = (\<lambda>_. None)\<rparr>]"


text \<open>A clock that is set back by a millisecond, or any time up to \<open>2 ^ 64 - 5001\<close>, makes the difference wrap around: a broadcast at once.\<close>

lemma clock_set_back:
  assumes "unat now < unat last_b" "unat last_b < unat now + (2 ^ 64 - 5000)"
  shows "due_times last_b [now] = [now]"
proof -
  have "unat (now - last_b) = 2 ^ 64 + unat now - unat last_b" using assms(1) by (simp add: unat_sub_if_size word_size)
  then have "5000 < now - last_b" using assms by (simp add: word_less_nat_alt)
  then show ?thesis by simp
qed

section \<open>Non-blocking sockets\<close>

definition O_NONBLOCK :: "32 word" where "O_NONBLOCK = 0x800"

text \<open>
  \<open>flags\<close>: what \<^verbatim>\<open>F_GETFL\<close> yields; \<open>setfl\<close>: what \<^verbatim>\<open>F_SETFL\<close> returns for the new flags.  The result, and the
  flags that are set.
\<close>

definition set_blocking :: "32 word \<Rightarrow> (32 word \<Rightarrow> int) \<Rightarrow> bool \<Rightarrow> int \<times> 32 word option" where
  "set_blocking flags setfl blocking =
     (if flags <s 0 then (1, None)
      else
        let flags = (if blocking then flags AND NOT O_NONBLOCK else flags OR O_NONBLOCK)
        in (if setfl flags = 0 then 0 else -1, Some flags))"

lemma set_blocking_bit:
  assumes "\<not> flags <s 0" "setfl = (\<lambda>_. 0)"
  shows "\<exists>flags'. set_blocking flags setfl blocking = (0, Some flags') \<and> (flags' AND O_NONBLOCK = (if blocking then 0 else O_NONBLOCK)) \<and>
    flags' AND NOT O_NONBLOCK = flags AND NOT O_NONBLOCK"
proof -
  have "(flags AND NOT O_NONBLOCK) AND O_NONBLOCK = 0" "(flags OR O_NONBLOCK) AND O_NONBLOCK = O_NONBLOCK"
    "(flags AND NOT O_NONBLOCK) AND NOT O_NONBLOCK = flags AND NOT O_NONBLOCK" "(flags OR O_NONBLOCK) AND NOT O_NONBLOCK = flags AND NOT O_NONBLOCK"
    by (auto intro!: bit_word_eqI simp: bit_simps)
  then show ?thesis using assms by (simp add: set_blocking_def Let_def)
qed

section \<open>The test program\<close>

text \<open>\<open>t1\<close> and \<open>t2\<close>: what the two packets on the stack hold before.\<close>

definition packet_update_test :: "ls_packet \<Rightarrow> ls_packet \<Rightarrow> unit result" where
  "packet_update_test t1 t2 =
     (let t1 = t1\<lparr>pkt_origin := 65, pkt_seq_num := 2\<rparr>;
          t2 = t2\<lparr>pkt_origin := 65, pkt_seq_num := 2\<rparr>
      in bindR (packet_has_update t1 t2) (\<lambda>b.
         if b then Inl AssertFailed
         else
           let t2 = t2\<lparr>pkt_seq_num := 3, pkt_num_entries := 1\<rparr> in
           bindR (arr_set (pkt_dest_id t2) 0 66) (\<lambda>ds.
           bindR (arr_set (pkt_cost t2) 0 5) (\<lambda>cs.
           let t2 = t2\<lparr>pkt_dest_id := ds, pkt_cost := cs\<rparr> in
           bindR (packet_has_update t1 t2) (\<lambda>b.
           if b then Inr () else Inl AssertFailed)))))"

definition routertest_main :: "ls_packet \<Rightarrow> ls_packet \<Rightarrow> int result" where
  "routertest_main t1 t2 = bindR (packet_update_test t1 t2) (\<lambda>_. Inr 0)"

text \<open>The test depends on what the stack holds: it fails if the first packet happens to have the links of the second.\<close>

lemma routertest_outcome:
  assumes "pkt_shape t1" "pkt_shape t2"
  shows "routertest_main t1 t2 = (if pkt_num_entries t1 = 1 \<and> pkt_dest_id t1 ! 0 = 66 \<and> pkt_cost t1 ! 0 = 5 then Inl AssertFailed else Inr 0)"
proof -
  have "0 < length (pkt_dest_id t1)" "0 < length (pkt_cost t1)" "0 < length (pkt_dest_id t2)" "0 < length (pkt_cost t2)"
    using assms by (simp_all add: pkt_shape_def MAX_NUM_ROUTERS_def)
  then show ?thesis by (auto simp: routertest_main_def packet_update_test_def packet_has_update_def Let_def)
qed

end
