(* ===== verification/FileStat.thy ===== *)
theory FileStat
  imports Prelude
begin

text \<open>
  The line format of the file sharing programs, \<^verbatim>\<open>name/size:owner:host:port\<close>
  (\<^verbatim>\<open>PA4/pa4str.c\<close>): the reader \<open>read_file_stat_end\<close>, the writer \<open>write_file_stat\<close>, and
  \<open>parse_port_num\<close> of \<^verbatim>\<open>server.c\<close> and \<^verbatim>\<open>client.c\<close>.  A stream is the list of the bytes not yet
  read; \<^verbatim>\<open>fgetc\<close> gives -1 at its end.
\<close>

section \<open>Data\<close>

record file_stat =
  fs_file_name :: "byte list"
  fs_file_size :: u64
  fs_owner :: "byte list"
  fs_host_name :: "byte list"
  fs_port :: u16

definition BUF_LEN :: nat where "BUF_LEN = 1024"

text \<open>What \<^verbatim>\<open>strdup\<close>, \<^verbatim>\<open>strcmp\<close> and \<^verbatim>\<open>printf\<close> see of a buffer: the bytes before the first 0.\<close>

definition c_str :: "byte list \<Rightarrow> byte list" where
  "c_str buf = takeWhile (\<lambda>c. c \<noteq> 0) buf"

section \<open>Reading\<close>

text \<open>How a loop over the characters of a field ends; the stream is what is left.\<close>

datatype field_end =
    FieldStop "byte list" "byte list"
  | FieldEof "byte list"
  | FieldNewline "byte list" "byte list"
  | FieldTooLong "byte list"

text \<open>The file name: the newline is tested before the length.\<close>

fun read_name :: "byte list \<Rightarrow> byte list \<Rightarrow> field_end" where
  "read_name buf [] = FieldEof buf"
| "read_name buf (ch # s) =
     (if ch = 0x2F then FieldStop buf s
      else if ch = 0x0A then FieldNewline buf s
      else if BUF_LEN - 1 \<le> length buf then FieldTooLong s
      else read_name (buf @ [ch]) s)"

text \<open>The owner and the host, up to the colon.\<close>

fun read_colon_field :: "byte list \<Rightarrow> byte list \<Rightarrow> field_end" where
  "read_colon_field buf [] = FieldEof buf"
| "read_colon_field buf (ch # s) =
     (if ch = 0x3A then FieldStop buf s
      else if BUF_LEN - 1 \<le> length buf then FieldTooLong s
      else read_colon_field (buf @ [ch]) s)"

text \<open>The size and the port: the number, whether the file ended, and the rest; \<open>Inl\<close> an invalid character.\<close>

fun read_number :: "byte \<Rightarrow> u64 \<Rightarrow> byte list \<Rightarrow> byte list + u64 \<times> bool \<times> byte list" where
  "read_number stop n [] = Inr (n, True, [])"
| "read_number stop n (ch # s) =
     (if ch = stop then Inr (n, False, s)
      else if ch < 0x30 \<or> 0x40 \<le> ch then Inl s
      else read_number stop (n * 10 + (ucast ch - 0x30)) s)"

text \<open>After the end of the file every further field is empty: \<^verbatim>\<open>fgetc\<close> goes on giving -1.\<close>

definition field_result :: "field_end \<Rightarrow> byte list + byte list \<times> byte list" where
  "field_result f =
     (case f of FieldStop buf s \<Rightarrow> Inr (c_str buf, s) | FieldEof buf \<Rightarrow> Inr (c_str buf, [])
      | FieldNewline buf s \<Rightarrow> Inl s | FieldTooLong s \<Rightarrow> Inl s)"

text \<open>The fields after the name; \<open>Inl\<close>: the null pointer is returned.\<close>

definition read_stat_tail :: "byte list \<Rightarrow> byte list \<Rightarrow> byte list + file_stat \<times> byte list" where
  "read_stat_tail name s =
     bindR (read_number 0x3A 0 s) (\<lambda>(n, _, s).
     bindR (field_result (read_colon_field [] s)) (\<lambda>(owner, s).
     bindR (field_result (read_colon_field [] s)) (\<lambda>(host, s).
     bindR (read_number 0x0A 0 s) (\<lambda>(port, eof, s).
     if eof then Inl s
     else Inr (\<lparr>fs_file_name = name, fs_file_size = n, fs_owner = owner, fs_host_name = host,
                fs_port = ucast port\<rparr>, s)))))"

text \<open>The result, whether \<^verbatim>\<open>*end\<close> is set, and the rest of the stream.\<close>

definition read_file_stat_end :: "byte list \<Rightarrow> file_stat option \<times> bool \<times> byte list" where
  "read_file_stat_end s =
     (case read_name [] s of
        FieldNewline buf s \<Rightarrow> (None, c_str buf = [0x45, 0x4E, 0x44], s)
      | FieldTooLong s \<Rightarrow> (None, False, s)
      | FieldStop buf s \<Rightarrow>
          (case read_stat_tail (c_str buf) s of Inl s \<Rightarrow> (None, False, s) | Inr (st, s) \<Rightarrow> (Some st, False, s))
      | FieldEof buf \<Rightarrow>
          (case read_stat_tail (c_str buf) [] of Inl s \<Rightarrow> (None, False, s) | Inr (st, s) \<Rightarrow> (Some st, False, s)))"

definition read_file_stat :: "byte list \<Rightarrow> file_stat option \<times> byte list" where
  "read_file_stat s = (case read_file_stat_end s of (r, _, s) \<Rightarrow> (r, s))"

section \<open>Writing\<close>

text \<open>\<^verbatim>\<open>%lu\<close> and \<^verbatim>\<open>%u\<close>.\<close>

fun decimal :: "nat \<Rightarrow> byte list" where
  "decimal n = (if n < 10 then [of_nat (48 + n)] else decimal (n div 10) @ [of_nat (48 + n mod 10)])"

declare decimal.simps [simp del]

definition stat_line :: "file_stat \<Rightarrow> byte list" where
  "stat_line st = c_str (fs_file_name st) @ [0x2F] @ decimal (unat (fs_file_size st)) @ [0x3A] @
     c_str (fs_owner st) @ [0x3A] @ c_str (fs_host_name st) @ [0x3A] @ decimal (unat (fs_port st)) @ [0x0A]"

text \<open>\<^verbatim>\<open>snprintf\<close> leaves room for the terminator in its 2048 bytes.\<close>

definition write_file_stat :: "file_stat \<Rightarrow> byte list" where
  "write_file_stat st = take 2047 (stat_line st)"

section \<open>Port numbers\<close>

text \<open>\<open>None\<close>: 0 is returned.  The characters are signed; from 128 on they are less than \<^verbatim>\<open>'0'\<close>.\<close>

fun parse_port_loop :: "u16 \<Rightarrow> byte list \<Rightarrow> u16 option" where
  "parse_port_loop ret [] = Some ret"
| "parse_port_loop ret (ch # s) =
     (if ch = 0 then Some ret
      else if 0x40 \<le> sint ch \<or> sint ch < 0x30 then None
      else parse_port_loop (ret * 10 + (ucast ch - 0x30)) s)"

definition parse_port_num :: "byte list \<Rightarrow> u16 option" where
  "parse_port_num s = parse_port_loop 0 s"

end
