(* ===== verification/FileStatProps.thy ===== *)
theory FileStatProps
  imports FileStat
begin

text \<open>
  The line format of \<open>FileStat\<close> read back: numbers, fields and whole records, and which inputs the
  digit test wrongly lets through.
\<close>

section \<open>Numbers\<close>

definition is_digit :: "byte \<Rightarrow> bool" where "is_digit c \<longleftrightarrow> 48 \<le> unat c \<and> unat c < 58"

lemma digit_char: "d < 10 \<Longrightarrow> unat (of_nat (48 + d) :: byte) = 48 + d"
  unfolding unat_of_nat by (intro mod_less) simp

lemma decimal_digits: "\<forall>c \<in> set (decimal n). is_digit c"
proof (induction n rule: decimal.induct)
  case (1 n)
  show ?case
  proof (cases "n < 10")
    case True
    then have "decimal n = [of_nat (48 + n)]" by (subst decimal.simps) simp
    then show ?thesis using True digit_char [OF True] by (simp add: is_digit_def del: of_nat_add)
  next
    case False
    then have "decimal n = decimal (n div 10) @ [of_nat (48 + n mod 10)]" by (subst decimal.simps) simp
    then show ?thesis using "1.IH" [OF False] digit_char [of "n mod 10"] by (auto simp: is_digit_def simp del: of_nat_add)
  qed
qed

lemma length_decimal: "n < 10 ^ k \<Longrightarrow> 0 < k \<Longrightarrow> length (decimal n) \<le> k"
proof (induction n arbitrary: k rule: decimal.induct)
  case (1 n)
  show ?case
  proof (cases "n < 10")
    case True
    then show ?thesis using 1 by (subst decimal.simps) simp
  next
    case False
    then obtain j where j: "k = Suc j" "0 < j" using "1.prems" by (cases k; cases "k - 1") auto
    then have "n div 10 < 10 ^ j" using "1.prems"(1) by (simp add: less_mult_imp_div_less mult.commute)
    then have "length (decimal (n div 10)) \<le> j" using "1.IH" [OF False] j(2) by simp
    moreover have "length (decimal n) = length (decimal (n div 10)) + 1" using False by (subst decimal.simps) simp
    ultimately show ?thesis using j(1) by simp
  qed
qed

lemma decimal_ne: "decimal n \<noteq> []"
  by (subst decimal.simps) simp

lemma read_number_digits:
  "\<forall>c \<in> set ds. is_digit c \<Longrightarrow> \<not> is_digit stop \<Longrightarrow>
    read_number stop acc (ds @ s) = read_number stop (foldl (\<lambda>a c. a * 10 + (ucast c - 0x30)) acc ds) s"
proof (induction ds arbitrary: acc)
  case (Cons c ds)
  have "unat c < 64" "48 \<le> unat c" "c \<noteq> stop" using Cons.prems by (auto simp: is_digit_def)
  then have "\<not> (c < 0x30 \<or> 0x40 \<le> c)" "c \<noteq> stop" by (simp_all add: word_less_nat_alt word_le_nat_alt)
  then show ?case using Cons by simp
qed simp

lemma parse_port_digits:
  "\<forall>c \<in> set ds. is_digit c \<Longrightarrow> parse_port_loop acc (ds @ s) = parse_port_loop (foldl (\<lambda>a c. a * 10 + (ucast c - 0x30)) acc ds) s"
proof (induction ds arbitrary: acc)
  case (Cons c ds)
  have u: "unat c < 64" "48 \<le> unat c" using Cons.prems by (auto simp: is_digit_def)
  then have "uint c < 128" unfolding uint_nat by linarith
  then have "signed_take_bit 7 (uint c) = uint c"
    by (intro signed_take_bit_int_eq_self) (simp_all add: order_trans [OF _ uint_ge_0])
  then have "sint c = uint c" by (simp add: sint_uint)
  moreover have "uint c < 0x40" "0x30 \<le> uint c" using u unfolding uint_nat by linarith+
  moreover have "c \<noteq> 0" using u by auto
  ultimately show ?case using Cons by simp
qed simp

lemma ucast_digit: "d < 10 \<Longrightarrow> (ucast (of_nat (48 + d) :: byte) :: 'a::len word) - 0x30 = of_nat d" if "8 \<le> LENGTH('a)"
proof -
  assume d: "d < 10"
  have "(ucast (of_nat (48 + d) :: byte) :: 'a word) = of_nat (unat (of_nat (48 + d) :: byte))" by simp
  also have "\<dots> = of_nat (48 + d)" by (simp only: digit_char [OF d])
  finally show ?thesis by simp
qed

lemma decimal_value:
  "foldl (\<lambda>a c. a * 10 + (ucast c - 0x30)) 0 (decimal n) = (of_nat n :: 'a::len word)" if "8 \<le> LENGTH('a)"
proof (induction n rule: decimal.induct)
  case (1 n)
  show ?case
  proof (cases "n < 10")
    case True
    then have "decimal n = [of_nat (48 + n)]" by (subst decimal.simps) simp
    then show ?thesis using ucast_digit [OF that True] by (simp del: of_nat_add)
  next
    case False
    then have "decimal n = decimal (n div 10) @ [of_nat (48 + n mod 10)]" by (subst decimal.simps) simp
    then have "foldl (\<lambda>a c. a * 10 + (ucast c - 0x30)) 0 (decimal n) = (of_nat (n div 10) * 10 + of_nat (n mod 10) :: 'a word)"
      using "1.IH" [OF False] ucast_digit [OF that, of "n mod 10"] by (simp del: of_nat_add)
    also have "\<dots> = of_nat (n div 10 * 10 + n mod 10)" by (simp only: of_nat_add of_nat_mult of_nat_numeral)
    finally show ?thesis by (simp only: div_mult_mod_eq)
  qed
qed

lemma read_number_decimal:
  "\<not> is_digit stop \<Longrightarrow> read_number stop 0 (decimal n @ stop # s) = Inr (of_nat n, False, s)"
  using read_number_digits [OF decimal_digits, of stop 0 n "stop # s"] decimal_value [where 'a = 64, of n] by simp

section \<open>Fields\<close>

lemma c_str_clean: "0 \<notin> set bs \<Longrightarrow> c_str bs = bs"
  by (auto simp: c_str_def takeWhile_eq_all_conv)

lemma read_name_ok:
  "0x2F \<notin> set n \<Longrightarrow> 0x0A \<notin> set n \<Longrightarrow> length buf + length n < BUF_LEN \<Longrightarrow> read_name buf (n @ 0x2F # s) = FieldStop (buf @ n) s"
  by (induction n arbitrary: buf) auto

lemma read_colon_field_ok:
  "0x3A \<notin> set n \<Longrightarrow> length buf + length n < BUF_LEN \<Longrightarrow> read_colon_field buf (n @ 0x3A # s) = FieldStop (buf @ n) s"
  by (induction n arbitrary: buf) auto

text \<open>The records the line format can carry.\<close>

definition stat_ok :: "file_stat \<Rightarrow> bool" where
  "stat_ok st \<longleftrightarrow> (\<forall>c \<in> {0, 0x2F, 0x0A}. c \<notin> set (fs_file_name st)) \<and> (\<forall>c \<in> {0, 0x3A}. c \<notin> set (fs_owner st)) \<and>
     (\<forall>c \<in> {0, 0x3A}. c \<notin> set (fs_host_name st)) \<and> length (fs_file_name st) < BUF_LEN \<and>
     length (fs_owner st) < BUF_LEN \<and> length (fs_host_name st) < BUF_LEN"

lemma read_stat_line:
  assumes "stat_ok st"
  shows "read_file_stat_end (stat_line st @ s) = (Some st, False, s)"
proof -
  have nd: "\<not> is_digit 0x3A" "\<not> is_digit 0x0A" by (simp_all add: is_digit_def)
  have c: "c_str (fs_file_name st) = fs_file_name st" "c_str (fs_owner st) = fs_owner st" "c_str (fs_host_name st) = fs_host_name st"
    using assms by (auto simp: stat_ok_def intro: c_str_clean)
  have ok: "field_result (read_colon_field [] (n @ 0x3A # q)) = Inr (n, q)" if "0x3A \<notin> set n" "0 \<notin> set n" "length n < BUF_LEN" for n q
    using read_colon_field_ok [OF that(1), of "[]" q] that by (simp add: field_result_def c_str_clean)
  have "(of_nat (unat (fs_port st)) :: u64) = ucast (fs_port st)" by simp
  moreover have "(ucast (ucast (fs_port st) :: u64) :: u16) = fs_port st" by (rule bit_word_eqI) (simp add: bit_ucast_iff)
  ultimately have p: "(ucast (of_nat (unat (fs_port st)) :: u64) :: u16) = fs_port st" by simp
  have "read_stat_tail (fs_file_name st) (decimal (unat (fs_file_size st)) @ 0x3A # fs_owner st @ 0x3A # fs_host_name st @ 0x3A #
      decimal (unat (fs_port st)) @ 0x0A # s) = Inr (st, s)"
    using assms p by (simp add: read_stat_tail_def read_number_decimal nd ok stat_ok_def)
  moreover have "read_name [] (fs_file_name st @ 0x2F # q) = FieldStop (fs_file_name st) q" for q
    using read_name_ok [of "fs_file_name st" "[]" q] assms by (simp add: stat_ok_def)
  ultimately show ?thesis by (simp add: read_file_stat_end_def stat_line_def c)
qed


section \<open>Properties\<close>

definition example_stat :: file_stat where
  "example_stat = \<lparr>fs_file_name = [97, 46, 99], fs_file_size = 1500, fs_owner = [98, 111, 98],
     fs_host_name = [104], fs_port = 9000\<rparr>"

lemma example_stat_line:
  "stat_line example_stat = [97, 46, 99, 47, 49, 53, 48, 48, 58, 98, 111, 98, 58, 104, 58, 57, 48, 48, 48, 10]"
  by (simp add: stat_line_def example_stat_def c_str_def decimal.simps)

lemma example_stat_ok: "stat_ok example_stat" "length (stat_line example_stat) \<le> 2047"
  by (simp add: stat_ok_def example_stat_def BUF_LEN_def, simp add: example_stat_line)

text \<open>
  C34. A file record survives the wire: reading what \<^verbatim>\<open>write_file_stat\<close> wrote gives the record back and
  leaves the stream just behind it, for every size and port, if no field contains its own
  delimiter, a 0 or (the name) a newline, no field is longer than the reader's buffer and the line
  fits into the writer's.
\<close>

theorem file_stat_roundtrip:
  assumes "stat_ok st" and "length (stat_line st) \<le> 2047"
  shows "read_file_stat_end (write_file_stat st @ s) = (Some st, False, s)"
  using read_stat_line [OF assms(1)] assms(2) by (simp add: write_file_stat_def)

theorem file_stat_roundtrip_witness:
  "read_file_stat_end (write_file_stat example_stat @ [1, 2]) = (Some example_stat, False, [1, 2]) \<and>
   write_file_stat example_stat = [97, 46, 99, 47, 49, 53, 48, 48, 58, 98, 111, 98, 58, 104, 58, 57, 48, 48, 48, 10]"
proof -
  have "write_file_stat example_stat = [97, 46, 99, 47, 49, 53, 48, 48, 58, 98, 111, 98, 58, 104, 58, 57, 48, 48, 48, 10]"
    by (simp add: write_file_stat_def example_stat_line)
  with file_stat_roundtrip [OF example_stat_ok, of "[1, 2]"] show ?thesis by simp
qed

text \<open>
  A port number in decimal digits is read as its value modulo 65536, and the six characters
  after \<^verbatim>\<open>'9'\<close> are taken for digits worth 10 to 15: the range test compares with 0x40, not
  with 0x3A.
\<close>

lemma parse_port_value:
  "parse_port_num (decimal n @ 0 # s) = Some (of_nat n) \<and>
   (\<forall>d < 16. parse_port_num [of_nat (48 + d), 0] = Some (of_nat d))"
proof (intro conjI allI impI)
  show "parse_port_num (decimal n @ 0 # s) = Some (of_nat n)"
    using parse_port_digits [OF decimal_digits, of 0 n "0 # s"] decimal_value [where 'a = 16, of n]
    by (simp add: parse_port_num_def)
  fix d :: nat assume "d < 16"
  then have "d \<in> set [0..<16]" by simp
  moreover have "list_all (\<lambda>d. parse_port_num [of_nat (48 + d), 0] = Some (of_nat d)) [0..<16]" by code_simp
  ultimately show "parse_port_num [of_nat (48 + d), 0] = Some (of_nat d)" by (simp only: list_all_iff)
qed

lemma parse_port_value_example:
  "parse_port_num [0x3A, 0] = Some 10 \<and> parse_port_num (decimal 65616 @ [0]) = Some 80"
  using parse_port_value [of 65616 "[]"] by (auto dest: spec [of _ 10])

text \<open>
  The reader on the end marker of a list, and on a stream that ends inside a record: \<^verbatim>\<open>END\<close>
  sets the flag and yields no record; a record whose final newline is missing is not returned.
\<close>

lemma file_stat_end:
  "read_file_stat_end ([0x45, 0x4E, 0x44, 0x0A] @ s) = (None, True, s) \<and>
   (stat_ok st \<longrightarrow> read_file_stat_end (butlast (stat_line st)) = (None, False, []))"
proof
  show "read_file_stat_end ([0x45, 0x4E, 0x44, 0x0A] @ s) = (None, True, s)"
    by (simp add: read_file_stat_end_def BUF_LEN_def c_str_def)
  show "stat_ok st \<longrightarrow> read_file_stat_end (butlast (stat_line st)) = (None, False, [])"
  proof
    assume ok: "stat_ok st"
    have nd: "\<not> is_digit 0x3A" "\<not> is_digit 0x0A" by (simp_all add: is_digit_def)
    have c: "c_str (fs_file_name st) = fs_file_name st" "c_str (fs_owner st) = fs_owner st" "c_str (fs_host_name st) = fs_host_name st"
      using ok by (auto simp: stat_ok_def intro: c_str_clean)
    have f: "field_result (read_colon_field [] (n @ 0x3A # q)) = Inr (n, q)" if "0x3A \<notin> set n" "0 \<notin> set n" "length n < BUF_LEN" for n q
      using read_colon_field_ok [OF that(1), of "[]" q] that by (simp add: field_result_def c_str_clean)
    have e: "read_number 0x0A 0 (decimal n) = Inr (of_nat n, True, [])" for n
      using read_number_digits [OF decimal_digits nd(2), of 0 n "[]"] decimal_value [where 'a = 64, of n] by simp
    have "read_name [] (fs_file_name st @ 0x2F # q) = FieldStop (fs_file_name st) q" for q
      using read_name_ok [of "fs_file_name st" "[]" q] ok by (simp add: stat_ok_def)
    moreover have "butlast (stat_line st) = fs_file_name st @ 0x2F # decimal (unat (fs_file_size st)) @ 0x3A #
        fs_owner st @ 0x3A # fs_host_name st @ 0x3A # decimal (unat (fs_port st))"
      by (simp add: stat_line_def c butlast_append decimal_ne)
    ultimately show "read_file_stat_end (butlast (stat_line st)) = (None, False, [])"
      using ok by (simp add: read_file_stat_end_def c read_stat_tail_def read_number_decimal nd f e stat_ok_def)
  qed
qed

lemma file_stat_end_example:
  "read_file_stat_end (butlast (stat_line example_stat)) = (None, False, [])"
  using file_stat_end example_stat_ok(1) by blast

end
