(* ===== verification/FileStatTest.thy ===== *)
theory FileStatTest
  imports FileStatProps
begin

text \<open>
  The test program of the file records (\<^verbatim>\<open>main\<close> of \<^verbatim>\<open>PA4/pa4str.c\<close>, compiled with
  \<^verbatim>\<open>FILE_STAT_TESTING\<close>): it prints every record that it can read from a file.
\<close>

section \<open>Every read takes something from the stream\<close>

text \<open>\<open>rest\<close>: where a successful read leaves the stream.\<close>

definition leaves :: "('a \<Rightarrow> byte list) \<Rightarrow> byte list \<Rightarrow> byte list + 'a \<Rightarrow> bool" where
  "leaves rest s x \<longleftrightarrow> length (case x of Inl r \<Rightarrow> r | Inr y \<Rightarrow> rest y) \<le> length s"

lemma leaves_bind:
  "leaves rest s x \<Longrightarrow> (\<And>y. leaves rest' (rest y) (f y)) \<Longrightarrow> leaves rest' s (bindR x f)"
  by (cases x) (auto simp: leaves_def intro: order.trans)

lemma read_name_rest:
  "read_name buf s = FieldStop b r \<Longrightarrow> length r < length s" "read_name buf s = FieldNewline b r \<Longrightarrow> length r < length s"
  "read_name buf s = FieldTooLong r \<Longrightarrow> length r < length s"
  by (induction buf s rule: read_name.induct) (auto split: if_splits)

lemma read_colon_rest:
  "read_colon_field buf s = FieldStop b r \<Longrightarrow> length r < length s" "read_colon_field buf s = FieldNewline b r \<Longrightarrow> length r < length s"
  "read_colon_field buf s = FieldTooLong r \<Longrightarrow> length r < length s"
  by (induction buf s rule: read_colon_field.induct) (auto split: if_splits)

lemma leaves_field: "leaves snd s (field_result (read_colon_field [] s))"
  by (cases "read_colon_field [] s") (auto simp: leaves_def field_result_def dest: read_colon_rest)

lemma leaves_number: "leaves (\<lambda>(n, e, r). r) s (read_number stop n s)"
  by (induction stop n s rule: read_number.induct) (auto simp: leaves_def split: sum.splits)

lemma leaves_tail: "leaves snd s (read_stat_tail name s)"
  unfolding read_stat_tail_def
proof (intro leaves_bind [OF leaves_number])
  fix x :: "u64 \<times> bool \<times> byte list"
  show "leaves snd (case x of (n, e, r) \<Rightarrow> r) (case x of (n, uu, s) \<Rightarrow>
      bindR (field_result (read_colon_field [] s)) (\<lambda>(owner, s). bindR (field_result (read_colon_field [] s)) (\<lambda>(host, s).
      bindR (read_number 0x0A 0 s) (\<lambda>(port, eof, s). if eof then Inl s
        else Inr (\<lparr>fs_file_name = name, fs_file_size = n, fs_owner = owner, fs_host_name = host, fs_port = ucast port\<rparr>, s)))))"
  proof (cases x)
    case (fields n e s)
    show ?thesis unfolding fields prod.case
    proof (rule leaves_bind [OF leaves_field])
      fix y :: "byte list \<times> byte list"
      show "leaves snd (snd y) (case y of (owner, s) \<Rightarrow> bindR (field_result (read_colon_field [] s)) (\<lambda>(host, s).
        bindR (read_number 0x0A 0 s) (\<lambda>(port, eof, s). if eof then Inl s
          else Inr (\<lparr>fs_file_name = name, fs_file_size = n, fs_owner = owner, fs_host_name = host, fs_port = ucast port\<rparr>, s))))"
        unfolding case_prod_beta
        by (intro leaves_bind [OF leaves_field] leaves_bind [OF leaves_number]) (auto simp: leaves_def case_prod_beta)
    qed
  qed
qed

lemma read_file_stat_rest:
  assumes "s \<noteq> []"
  shows "length (snd (read_file_stat s)) < length s"
proof (cases "read_name [] s")
  case (FieldStop b r)
  then show ?thesis using read_name_rest(1) leaves_tail [of r "c_str b"]
    by (fastforce simp: read_file_stat_def read_file_stat_end_def leaves_def split: sum.splits)
next
  case (FieldEof b)
  then show ?thesis using leaves_tail [of "[]" "c_str b"] assms
    by (auto simp: read_file_stat_def read_file_stat_end_def leaves_def split: sum.splits)
qed (use read_name_rest(2,3) in \<open>simp_all add: read_file_stat_def read_file_stat_end_def\<close>)

lemma read_file_stat_smaller: "s \<noteq> [] \<Longrightarrow> (y, r) = read_file_stat s \<Longrightarrow> length r < length s"
  using read_file_stat_rest [of s] by (metis snd_conv)

section \<open>The program\<close>

text \<open>
  The records printed.  The loop ends when a read has met the end of the file; a further round with
  nothing left reads no record, so it is left out.
\<close>

function test_loop :: "byte list \<Rightarrow> file_stat list" where
  "test_loop s =
     (if s = [] then []
      else case read_file_stat s of
        (None, r) \<Rightarrow> test_loop r
      | (Some tmp, r) \<Rightarrow> tmp # test_loop r)"
  by pat_completeness auto
termination
  by (relation "measure length") (auto intro: read_file_stat_smaller)

declare test_loop.simps [simp del]

text \<open>\<open>file\<close>: the contents of \<^verbatim>\<open>test_file_stat.txt\<close>, if it can be opened.  The exit status and what is printed.\<close>

definition file_stat_test_main :: "byte list option \<Rightarrow> int \<times> file_stat list" where
  "file_stat_test_main file = (case file of None \<Rightarrow> (1, []) | Some content \<Rightarrow> (0, test_loop content))"

lemma read_nothing: "fst (read_file_stat []) = None"
  by (simp add: read_file_stat_def read_file_stat_end_def read_stat_tail_def field_result_def)

text \<open>All records of a file that \<open>write_file_stat\<close> has written are printed.\<close>

lemma test_prints_all:
  "\<forall>st \<in> set sts. stat_ok st \<and> length (stat_line st) \<le> 2047 \<Longrightarrow>
     file_stat_test_main (Some (concat (map write_file_stat sts))) = (0, sts)"
proof (induction sts)
  case (Cons st sts)
  then have "read_file_stat (write_file_stat st @ concat (map write_file_stat sts)) = (Some st, concat (map write_file_stat sts))"
    using read_stat_line [of st] by (simp add: read_file_stat_def write_file_stat_def)
  moreover have "write_file_stat st \<noteq> []" by (simp add: write_file_stat_def stat_line_def)
  ultimately have "test_loop (write_file_stat st @ concat (map write_file_stat sts)) = st # test_loop (concat (map write_file_stat sts))"
    by (subst test_loop.simps) simp
  then show ?case using Cons by (simp add: file_stat_test_main_def)
qed (simp add: file_stat_test_main_def test_loop.simps)

end
