(* ===== verification/Trie.thy ===== *)
theory Trie
  imports Prelude
begin

text \<open>
  The nibble trie of \<^verbatim>\<open>PA4/trie.c\<close> and the set built on it (\<^verbatim>\<open>PA4/trie_set.c\<close>).  A node holds 16
  values, chosen by the low nibble of the last character of a key, and 16 second-level nodes,
  which choose the next node by the high nibble of the following character.  The null pointer is
  \<open>None\<close>; no node has two parents, so the heap is a tree.  A key is the memory from the pointer
  on: its characters, the terminating 0 and whatever follows.
\<close>

section \<open>Data\<close>

datatype 'v trie = Trie (trie_children: "'v trie_lev2 option list") (trie_values: "'v option list")
  and 'v trie_lev2 = TrieLev2 (lev2_children: "'v trie option list")

text \<open>What \<^verbatim>\<open>calloc\<close> gives.\<close>

definition new_trie :: "'v trie" where
  "new_trie = Trie (replicate 16 None) (replicate 16 None)"

definition new_lev2 :: "'v trie_lev2" where
  "new_lev2 = TrieLev2 (replicate 16 None)"

text \<open>
  The three ways the code computes an index.  A \<^verbatim>\<open>char\<close> is signed: the shift of a character from
  128 on is negative.
\<close>

definition low_nibble :: "byte \<Rightarrow> int" where
  "low_nibble ch = uint (ch AND 0x0F)"

definition high_nibble :: "byte \<Rightarrow> int" where
  "high_nibble ch = drop_bit 4 (uint (ch AND 0xF0))"

definition shifted_char :: "byte \<Rightarrow> int" where
  "shifted_char ch = drop_bit 4 (sint ch)"

section \<open>Lookup and insertion\<close>

fun trie_loose_search :: "'v trie option \<Rightarrow> byte list \<Rightarrow> 'v option result" where
  "trie_loose_search None key = Inr None"
| "trie_loose_search (Some t) [] = Inl OutOfBounds"
| "trie_loose_search (Some t) [ch] = Inl OutOfBounds"
| "trie_loose_search (Some t) (ch # ch1 # rest) =
     (if ch1 = 0 then arr_get (trie_values t) (low_nibble ch)
      else
        bindR (arr_get (trie_children t) (low_nibble ch)) (\<lambda>next.
        case next of None \<Rightarrow> Inr None
        | Some l \<Rightarrow>
            bindR (arr_get (lev2_children l) (shifted_char ch1)) (\<lambda>n.
            trie_loose_search n (ch1 # rest))))"

definition trie_get :: "'v trie_lev2 \<Rightarrow> byte list \<Rightarrow> 'v option result" where
  "trie_get ths key =
     bindR (arr_get key 0) (\<lambda>ch.
     bindR (arr_get (lev2_children ths) (high_nibble ch)) (\<lambda>next.
     trie_loose_search next key))"

fun trie_loose_insert :: "'v trie \<Rightarrow> byte list \<Rightarrow> 'v option \<Rightarrow> 'v trie result" where
  "trie_loose_insert t [] v = Inl OutOfBounds"
| "trie_loose_insert t [ch] v = Inl OutOfBounds"
| "trie_loose_insert t (ch # ch1 # rest) v =
     (if ch1 = 0 then
        bindR (arr_set (trie_values t) (low_nibble ch) v) (\<lambda>vs. Inr (Trie (trie_children t) vs))
      else
        bindR (arr_get (trie_children t) (low_nibble ch)) (\<lambda>next.
        let l = (case next of None \<Rightarrow> new_lev2 | Some l \<Rightarrow> l) in
        bindR (arr_get (lev2_children l) (shifted_char ch1)) (\<lambda>nextnext.
        let n = (case nextnext of None \<Rightarrow> new_trie | Some n \<Rightarrow> n) in
        bindR (trie_loose_insert n (ch1 # rest) v) (\<lambda>n.
        bindR (arr_set (lev2_children l) (shifted_char ch1) (Some n)) (\<lambda>ns.
        bindR (arr_set (trie_children t) (low_nibble ch) (Some (TrieLev2 ns))) (\<lambda>ls.
        Inr (Trie ls (trie_values t))))))))"

definition trie_put :: "'v trie_lev2 \<Rightarrow> byte list \<Rightarrow> 'v option \<Rightarrow> 'v trie_lev2 result" where
  "trie_put ths key v =
     bindR (arr_get key 0) (\<lambda>ch.
     bindR (arr_get (lev2_children ths) (high_nibble ch)) (\<lambda>next.
     let n = (case next of None \<Rightarrow> new_trie | Some n \<Rightarrow> n) in
     bindR (trie_loose_insert n key v) (\<lambda>n.
     bindR (arr_set (lev2_children ths) (high_nibble ch) (Some n)) (\<lambda>ns.
     Inr (TrieLev2 ns)))))"

section \<open>Iteration\<close>

text \<open>The values in the order in which \<^verbatim>\<open>trie_iterate\<close> hands them to its function.\<close>

definition some_values :: "'v option list \<Rightarrow> 'v list" where
  "some_values vs = concat (map (\<lambda>v. case v of None \<Rightarrow> [] | Some x \<Rightarrow> [x]) vs)"

text \<open>The lists of the children that are there, one after the other.\<close>

definition some_lists :: "'v list option list \<Rightarrow> 'v list" where
  "some_lists xs = concat (some_values xs)"

primrec node_values :: "'v trie \<Rightarrow> 'v list"
  and lev2_values :: "'v trie_lev2 \<Rightarrow> 'v list" where
  "node_values (Trie cs vs) = some_values vs @ some_lists (map (map_option lev2_values) cs)"
| "lev2_values (TrieLev2 ns) = some_lists (map (map_option node_values) ns)"

text \<open>A function that does not change the trie, with its own state.\<close>

fun iterate_values :: "('s \<Rightarrow> 'v \<Rightarrow> 's result) \<Rightarrow> 'v list \<Rightarrow> 's \<Rightarrow> 's result" where
  "iterate_values f [] s = Inr s"
| "iterate_values f (v # vs) s = bindR (f s v) (\<lambda>s. iterate_values f vs s)"

definition trie_iterate :: "'v trie_lev2 \<Rightarrow> ('s \<Rightarrow> 'v \<Rightarrow> 's result) \<Rightarrow> 's \<Rightarrow> 's result" where
  "trie_iterate ths f s = iterate_values f (lev2_values ths) s"

section \<open>The set\<close>

definition trie_set_contains :: "unit trie_lev2 \<Rightarrow> byte list \<Rightarrow> bool result" where
  "trie_set_contains s key = bindR (trie_get s key) (\<lambda>v. Inr (v \<noteq> None))"

definition trie_set_insert :: "unit trie_lev2 \<Rightarrow> byte list \<Rightarrow> unit trie_lev2 result" where
  "trie_set_insert s key = trie_put s key (Some ())"

definition trie_set_remove :: "unit trie_lev2 \<Rightarrow> byte list \<Rightarrow> unit trie_lev2 result" where
  "trie_set_remove s key = trie_put s key None"

section \<open>Indices\<close>

lemma pow_4_16: "(2 :: nat) ^ 4 = 16"
  by simp

lemma unat_low: "unat (ch AND 0x0F :: byte) = unat ch mod 16"
proof -
  have "(0x0F :: byte) = mask 4" by (simp add: mask_eq_exp_minus_1)
  then have "ch AND 0x0F = take_bit 4 ch" by (metis take_bit_eq_mask)
  moreover have "unat (take_bit 4 ch) = take_bit 4 (unat ch)" by (rule unsigned_take_bit_eq)
  ultimately show ?thesis by (metis take_bit_eq_mod pow_4_16)
qed

lemma low_nibble_eq: "low_nibble ch = int (unat ch mod 16)"
  by (simp only: low_nibble_def uint_nat unat_low)

lemma high_nibble_eq: "high_nibble ch = int (unat ch div 16)"
proof -
  have "bit (uint (ch AND 0xF0)) n \<longleftrightarrow> bit (uint ch) n" if "4 \<le> n" for n
  proof (cases "n < 8")
    case True
    then have "n = 4 \<or> n = 5 \<or> n = 6 \<or> n = 7" using that by auto
    then have "bit (0xF0 :: byte) n" by (elim disjE) simp_all
    then show ?thesis unfolding bit_uint_iff bit_and_iff by simp
  qed (simp add: bit_uint_iff)
  then have "drop_bit 4 (uint (ch AND 0xF0)) = drop_bit 4 (uint ch)"
    by (intro bit_eqI) (simp add: bit_drop_bit_eq)
  also have "\<dots> = uint ch div 16" by (simp add: drop_bit_eq_div)
  finally show ?thesis unfolding high_nibble_def uint_nat zdiv_int by simp
qed

lemma shifted_char_ascii: "unat ch < 128 \<Longrightarrow> shifted_char ch = int (unat ch div 16)"
proof -
  assume a: "unat ch < 128"
  then have "uint ch < 128" unfolding uint_nat by linarith
  then have "signed_take_bit 7 (uint ch) = uint ch"
    by (intro signed_take_bit_int_eq_self) (simp_all add: order_trans [OF _ uint_ge_0])
  then have "sint ch = uint ch" by (simp add: sint_uint)
  then show ?thesis unfolding shifted_char_def drop_bit_eq_div uint_nat zdiv_int by simp
qed

lemma shifted_char_negative: "128 \<le> unat ch \<Longrightarrow> shifted_char ch < 0"
proof -
  assume a: "128 \<le> unat ch"
  moreover have "unat ch < 256" using unsigned_less [of ch] by simp
  ultimately have "unat ch div 2 ^ 7 = 1" by (simp add: div_nat_eqI)
  then have "bit (unat ch) 7" by (simp add: bit_iff_odd)
  then have "bit ch 7" by (simp add: bit_unsigned_iff)
  then have "sint ch < 0" by (simp add: sint_uint bit_uint_iff)
  then show ?thesis by (simp add: shifted_char_def)
qed

end
