(* ===== verification/TrieMap.thy ===== *)
theory TrieMap
  imports Trie
begin

text \<open>
  The trie is a map from strings: the shape its nodes keep (\<open>trie_wf\<close>, \<open>root_wf\<close>), what a lookup
  returns after an insertion, and which values the iteration visits.  \<open>string_map\<close> is the
  interface its clients use, with \<open>nibble_trie\<close> as its instance.
\<close>

section \<open>Well-formed tries\<close>

text \<open>
  \<open>trie_wf h t\<close>: the node \<open>t\<close> for characters with the high nibble \<open>h\<close>.  Nothing is stored for the
  character 0, and below the first character only the high nibbles of ASCII occur.
\<close>

inductive trie_wf :: "nat \<Rightarrow> 'v trie \<Rightarrow> bool" and lev2_wf :: "'v trie_lev2 \<Rightarrow> bool" where
  trie_wfI: "length cs = 16 \<Longrightarrow> length vs = 16 \<Longrightarrow> (h = 0 \<Longrightarrow> cs ! 0 = None \<and> vs ! 0 = None) \<Longrightarrow>
    (\<And>i l. i < 16 \<Longrightarrow> cs ! i = Some l \<Longrightarrow> lev2_wf l) \<Longrightarrow> trie_wf h (Trie cs vs)"
| lev2_wfI: "length ns = 16 \<Longrightarrow> (\<And>j t. j < 16 \<Longrightarrow> ns ! j = Some t \<Longrightarrow> j < 8 \<and> trie_wf j t) \<Longrightarrow> lev2_wf (TrieLev2 ns)"

definition root_wf :: "'v trie_lev2 \<Rightarrow> bool" where
  "root_wf r \<longleftrightarrow> length (lev2_children r) = 16 \<and> (\<forall>j t. j < 16 \<and> lev2_children r ! j = Some t \<longrightarrow> trie_wf j t)"

inductive_simps trie_wf_iff: "trie_wf h (Trie cs vs)"
inductive_simps lev2_wf_iff: "lev2_wf (TrieLev2 ns)"

lemma new_trie_wf: "trie_wf h new_trie" "lev2_wf new_lev2" "root_wf new_lev2"
  by (auto simp: new_trie_def new_lev2_def trie_wf_iff lev2_wf_iff root_wf_def)

lemma trie_wf_lengths: "trie_wf h t \<Longrightarrow> length (trie_children t) = 16 \<and> length (trie_values t) = 16"
  by (cases t) (simp add: trie_wf_iff)

lemma lev2_wf_length: "lev2_wf l \<Longrightarrow> length (lev2_children l) = 16"
  by (cases l) (simp add: lev2_wf_iff)

lemma trie_wf_child: "trie_wf h t \<Longrightarrow> i < 16 \<Longrightarrow> trie_children t ! i = Some l \<Longrightarrow> lev2_wf l"
  by (cases t) (simp add: trie_wf_iff)

lemma lev2_wf_child: "lev2_wf l \<Longrightarrow> j < 16 \<Longrightarrow> lev2_children l ! j = Some t \<Longrightarrow> j < 8 \<and> trie_wf j t"
  by (cases l) (simp add: lev2_wf_iff)

section \<open>Keys\<close>

text \<open>
  The keys the code can work with: not empty, and plain ASCII after the first character.
  \<open>c_string k rest\<close> is the memory at a pointer to the string \<open>k\<close>.
\<close>

definition ascii_key :: "byte list \<Rightarrow> bool" where
  "ascii_key k \<longleftrightarrow> k \<noteq> [] \<and> 0 \<notin> set k \<and> (\<forall>c \<in> set (tl k). unat c < 128)"

definition c_string :: "byte list \<Rightarrow> byte list \<Rightarrow> byte list" where
  "c_string k rest = k @ 0 # rest"

text \<open>The two nibbles of a character.\<close>

definition hi :: "byte \<Rightarrow> nat" where "hi c = unat c div 16"
definition lo :: "byte \<Rightarrow> nat" where "lo c = unat c mod 16"

lemma nibbles_less [simp]: "hi c < 16" "lo c < 16"
  using unat_byte_less [of c] by (simp_all add: hi_def lo_def less_mult_imp_div_less)

lemma nibbles_determine: "hi c = hi d \<Longrightarrow> lo c = lo d \<Longrightarrow> c = d"
  unfolding hi_def lo_def by (metis div_mult_mod_eq word_unat_eq_iff)

lemma nibbles_exist: "h < 16 \<Longrightarrow> l < 16 \<Longrightarrow> \<exists>c. hi c = h \<and> lo c = l"
proof -
  assume "h < 16" "l < 16"
  moreover from this have "unat (of_nat (16 * h + l) :: byte) = 16 * h + l"
    unfolding unat_of_nat by (intro mod_less) simp
  ultimately show ?thesis unfolding hi_def lo_def by (intro exI [of _ "of_nat (16 * h + l)"]) simp
qed

lemma nibbles_zero: "hi c = 0 \<Longrightarrow> lo c = 0 \<Longrightarrow> c = 0"
  by (rule nibbles_determine) (simp_all add: hi_def lo_def)

lemma nibbles_of_zero [simp]: "hi 0 = 0" "lo 0 = 0"
  by (simp_all add: hi_def lo_def)

lemma hi_ascii: "hi c < 8 \<longleftrightarrow> unat c < 128"
  by (auto simp: hi_def)

lemma char_indices:
  "low_nibble c = int (lo c)" "high_nibble c = int (hi c)" "unat c < 128 \<Longrightarrow> shifted_char c = int (hi c)"
  by (simp_all add: low_nibble_eq high_nibble_eq shifted_char_ascii hi_def lo_def)

section \<open>One character\<close>

text \<open>The child of a node that a key goes on to, as the two levels of arrays hold it.\<close>

definition step_to :: "'v trie \<Rightarrow> byte \<Rightarrow> byte \<Rightarrow> 'v trie option" where
  "step_to t ch ch1 = (case trie_children t ! lo ch of None \<Rightarrow> None
     | Some l \<Rightarrow> lev2_children l ! hi ch1)"

definition child_or_new :: "'v trie \<Rightarrow> byte \<Rightarrow> 'v trie_lev2" where
  "child_or_new t ch = (case trie_children t ! lo ch of None \<Rightarrow> new_lev2 | Some l \<Rightarrow> l)"

definition set_step :: "'v trie \<Rightarrow> byte \<Rightarrow> byte \<Rightarrow> 'v trie \<Rightarrow> 'v trie" where
  "set_step t ch ch1 n =
     Trie ((trie_children t)[lo ch := Some (TrieLev2 ((lev2_children (child_or_new t ch))[hi ch1 := Some n]))])
       (trie_values t)"

lemma child_or_new_wf: "trie_wf h t \<Longrightarrow> lev2_wf (child_or_new t ch)"
  using trie_wf_child [of h t "lo ch"] new_trie_wf(2) by (auto simp: child_or_new_def split: option.splits)

lemma search_last: "trie_wf h t \<Longrightarrow> trie_loose_search (Some t) (ch # 0 # rest) = Inr (trie_values t ! lo ch)"
  using trie_wf_lengths [of h t] by (simp add: char_indices)

lemma search_step:
  assumes "trie_wf h t" "ch1 \<noteq> 0" "unat ch1 < 128"
  shows "trie_loose_search (Some t) (ch # ch1 # rest) = trie_loose_search (step_to t ch ch1) (ch1 # rest)"
proof (cases "trie_children t ! lo ch")
  case None
  then show ?thesis using assms trie_wf_lengths [OF assms(1)] by (simp add: char_indices step_to_def)
next
  case (Some l)
  then have "lev2_wf l" using trie_wf_child [OF assms(1), of "lo ch" l] by simp
  then show ?thesis
    using assms trie_wf_lengths [OF assms(1)] Some lev2_wf_length [of l]
    by (simp add: char_indices step_to_def)
qed

lemma insert_last:
  "trie_wf h t \<Longrightarrow> trie_loose_insert t (ch # 0 # rest) v = Inr (Trie (trie_children t) ((trie_values t)[lo ch := v]))"
  using trie_wf_lengths [of h t] by (simp add: char_indices)

lemma insert_step:
  assumes "trie_wf h t" "ch1 \<noteq> 0" "unat ch1 < 128"
    and "trie_loose_insert (case step_to t ch ch1 of None \<Rightarrow> new_trie | Some n \<Rightarrow> n) (ch1 # rest) v = Inr n"
  shows "trie_loose_insert t (ch # ch1 # rest) v = Inr (set_step t ch ch1 n)"
proof -
  have len: "length (lev2_children (child_or_new t ch)) = 16"
    by (rule lev2_wf_length [OF child_or_new_wf [OF assms(1)]])
  have "lev2_children (child_or_new t ch) ! hi ch1 = step_to t ch ch1"
    by (simp add: child_or_new_def step_to_def new_lev2_def split: option.splits)
  with len show ?thesis
    using assms trie_wf_lengths [OF assms(1)]
    by (simp add: char_indices set_step_def Let_def flip: child_or_new_def)
qed

lemma step_to_wf: "trie_wf h t \<Longrightarrow> step_to t ch ch1 = Some n \<Longrightarrow> hi ch1 < 8 \<and> trie_wf (hi ch1) n"
  using trie_wf_child [of h t "lo ch"] lev2_wf_child [of _ "hi ch1" n]
  by (auto simp: step_to_def split: option.splits)

lemma set_value_wf:
  assumes "trie_wf (hi ch) t" "ch \<noteq> 0"
  shows "trie_wf (hi ch) (Trie (trie_children t) ((trie_values t)[lo ch := v]))"
proof -
  have "lo ch \<noteq> 0" if "hi ch = 0" using assms(2) that nibbles_zero [of ch] by blast
  with assms(1) show ?thesis by (cases t) (simp add: trie_wf_iff)
qed

lemma set_step_wf:
  assumes "trie_wf (hi ch) t" "ch \<noteq> 0" "unat ch1 < 128" "trie_wf (hi ch1) n"
  shows "trie_wf (hi ch) (set_step t ch ch1 n)"
proof -
  have "lev2_wf (TrieLev2 ((lev2_children (child_or_new t ch))[hi ch1 := Some n]))"
    using child_or_new_wf [OF assms(1), of ch] assms(3,4) hi_ascii [of ch1]
    by (cases "child_or_new t ch") (auto simp: lev2_wf_iff nth_list_update split: if_splits)
  moreover have "lo ch \<noteq> 0" if "hi ch = 0" using assms(2) that nibbles_zero [of ch] by blast
  ultimately show ?thesis
    using assms(1)
    by (cases t) (auto simp: set_step_def trie_wf_iff nth_list_update split: if_splits)
qed

lemma step_to_set_step:
  assumes "trie_wf h t"
  shows "step_to (set_step t ch ch1 n) c c1 =
    (if lo c = lo ch \<and> hi c1 = hi ch1 then Some n else step_to t c c1)"
  using trie_wf_lengths [OF assms] lev2_wf_length [OF child_or_new_wf [OF assms, of ch]]
  by (auto simp: step_to_def set_step_def child_or_new_def nth_list_update new_lev2_def split: option.splits)

section \<open>Whole keys\<close>

fun find_in :: "'v trie option \<Rightarrow> byte list \<Rightarrow> 'v option" where
  "find_in None k = None"
| "find_in (Some t) [] = None"
| "find_in (Some t) [ch] = trie_values t ! lo ch"
| "find_in (Some t) (ch # ch1 # k) = find_in (step_to t ch ch1) (ch1 # k)"

lemma search_find:
  "\<forall>n. t = Some n \<longrightarrow> trie_wf (hi (hd k)) n \<Longrightarrow> ascii_key k \<Longrightarrow> trie_loose_search t (c_string k rest) = Inr (find_in t k)"
proof (induction t k rule: find_in.induct)
  case (3 t ch)
  then show ?case using search_last [of "hi ch" t ch rest] by (simp add: c_string_def del: trie_loose_search.simps)
next
  case (4 t ch ch1 k)
  have "trie_wf (hi ch) t" using "4.prems"(1) by simp
  from search_step [OF this, of ch1 ch] step_to_wf [OF this, of ch ch1] 4 show ?case
    by (simp add: c_string_def ascii_key_def del: trie_loose_search.simps)
qed (simp_all add: ascii_key_def)

lemma find_in_new [simp]: "find_in (Some new_trie) k = None"
proof (cases "(Some new_trie :: 'a trie option, k)" rule: find_in.cases)
  case (4 t ch ch1 k')
  then show ?thesis by (auto simp: step_to_def new_trie_def)
qed (simp_all add: new_trie_def)

lemma insert_find:
  "trie_wf (hi (hd k)) t \<Longrightarrow> ascii_key k \<Longrightarrow> \<exists>t'. trie_loose_insert t (c_string k rest) v = Inr t' \<and> trie_wf (hi (hd k)) t' \<and>
    (\<forall>k'. ascii_key k' \<longrightarrow> find_in (Some t') k' = (if lo (hd k') = lo (hd k) \<and> tl k' = tl k then v else find_in (Some t) k'))"
proof (induction k arbitrary: t rule: induct_list012)
  case (2 ch)
  then have wf: "trie_wf (hi ch) t" and ch: "ch \<noteq> 0" by (simp_all add: ascii_key_def)
  let ?t = "Trie (trie_children t) ((trie_values t)[lo ch := v])"
  have "find_in (Some ?t) k' = (if lo (hd k') = lo ch \<and> tl k' = [] then v else find_in (Some t) k')"
    if "ascii_key k'" for k'
  proof (cases "(Some t, k')" rule: find_in.cases)
    case (4 t c c1 k)
    then show ?thesis by (simp add: step_to_def)
  qed (use that trie_wf_lengths [OF wf] in \<open>auto simp: ascii_key_def nth_list_update\<close>)
  then show ?case
    using insert_last [OF wf] set_value_wf [OF wf ch] by (simp add: c_string_def del: trie_loose_insert.simps)
next
  case (3 ch ch1 k)
  then have wf: "trie_wf (hi ch) t" and ch: "ch \<noteq> 0" "ch1 \<noteq> 0" "unat ch1 < 128" and key: "ascii_key (ch1 # k)"
    by (simp_all add: ascii_key_def)
  let ?n = "case step_to t ch ch1 of None \<Rightarrow> new_trie | Some n \<Rightarrow> n"
  have find_n: "find_in (Some ?n) q = find_in (step_to t ch ch1) q" for q by (simp split: option.splits)
  have "trie_wf (hi ch1) ?n" using step_to_wf [OF wf, of ch ch1] new_trie_wf(1) by (auto split: option.splits)
  then obtain n where n: "trie_loose_insert ?n (c_string (ch1 # k) rest) v = Inr n" "trie_wf (hi ch1) n"
    "\<And>k'. ascii_key k' \<Longrightarrow> find_in (Some n) k' = (if lo (hd k') = lo ch1 \<and> tl k' = k then v else find_in (Some ?n) k')"
    using "3.IH"(2) [of ?n] key by auto
  have "find_in (Some (set_step t ch ch1 n)) k' = (if lo (hd k') = lo ch \<and> tl k' = ch1 # k then v else find_in (Some t) k')"
    if k': "ascii_key k'" for k'
  proof (cases "(Some (set_step t ch ch1 n), k')" rule: find_in.cases)
    case (4 t' c c1 q)
    then have cq: "k' = c # c1 # q" by simp
    then have q: "ascii_key (c1 # q)" using k' by (simp add: ascii_key_def)
    show ?thesis
    proof (cases "lo c = lo ch \<and> hi c1 = hi ch1")
      case True
      then have "step_to t c c1 = step_to t ch ch1" unfolding step_to_def by metis
      moreover have "lo c1 = lo ch1 \<longleftrightarrow> c1 = ch1" using True nibbles_determine by blast
      ultimately show ?thesis using True cq n(3) [OF q] find_n step_to_set_step [OF wf] by auto
    next
      case False
      then show ?thesis using cq step_to_set_step [OF wf, of ch ch1 n c c1] by auto
    qed
  qed (use k' in \<open>auto simp: ascii_key_def set_step_def\<close>)
  moreover have "trie_loose_insert t (c_string (ch # ch1 # k) rest) v = Inr (set_step t ch ch1 n)"
    using insert_step [OF wf ch(2,3)] n(1) by (simp add: c_string_def del: trie_loose_insert.simps)
  ultimately show ?case using set_step_wf [OF wf ch(1,3) n(2)] by auto
qed (simp add: ascii_key_def)

section \<open>The whole trie\<close>

definition trie_find :: "'v trie_lev2 \<Rightarrow> byte list \<Rightarrow> 'v option" where
  "trie_find r k = find_in (lev2_children r ! hi (hd k)) k"

lemma trie_get_find:
  assumes "root_wf r" "ascii_key k"
  shows "trie_get r (c_string k rest) = Inr (trie_find r k)"
proof -
  have k: "c_string k rest = hd k # tl (c_string k rest)" using assms(2) by (simp add: c_string_def ascii_key_def)
  have "arr_get (lev2_children r) (high_nibble (hd k)) = Inr (lev2_children r ! hi (hd k))"
    using assms(1) by (simp add: char_indices root_wf_def)
  moreover have "trie_loose_search (lev2_children r ! hi (hd k)) (c_string k rest) = Inr (trie_find r k)"
    unfolding trie_find_def using assms by (intro search_find) (auto simp: root_wf_def)
  moreover have "arr_get (c_string k rest) 0 = Inr (hd k)" by (subst k) simp
  ultimately show ?thesis by (simp add: trie_get_def)
qed

lemma trie_put_find:
  assumes "root_wf r" "ascii_key k"
  shows "\<exists>r'. trie_put r (c_string k rest) v = Inr r' \<and> root_wf r' \<and>
    (\<forall>k'. ascii_key k' \<longrightarrow> trie_find r' k' = (if k' = k then v else trie_find r k'))"
proof -
  let ?h = "hi (hd k)"
  let ?n = "case lev2_children r ! ?h of None \<Rightarrow> new_trie | Some n \<Rightarrow> n"
  have k: "c_string k rest = hd k # tl (c_string k rest)" using assms(2) by (simp add: c_string_def ascii_key_def)
  have len: "length (lev2_children r) = 16" using assms(1) by (simp add: root_wf_def)
  have "trie_wf ?h ?n" using assms(1) new_trie_wf(1) by (auto simp: root_wf_def split: option.splits)
  then obtain n where n: "trie_loose_insert ?n (c_string k rest) v = Inr n" "trie_wf ?h n"
    "\<And>k'. ascii_key k' \<Longrightarrow> find_in (Some n) k' = (if lo (hd k') = lo (hd k) \<and> tl k' = tl k then v else find_in (Some ?n) k')"
    using insert_find [OF _ assms(2)] by metis
  let ?r = "TrieLev2 ((lev2_children r)[?h := Some n])"
  have find_n: "find_in (Some ?n) q = find_in (lev2_children r ! ?h) q" for q by (simp split: option.splits)
  have a0: "arr_get (c_string k rest) 0 = Inr (hd k)" by (subst k) simp
  have ah: "arr_get (lev2_children r) (high_nibble (hd k)) = Inr (lev2_children r ! ?h)"
    using len by (simp add: char_indices)
  have as: "arr_set (lev2_children r) (high_nibble (hd k)) (Some n) = Inr ((lev2_children r)[?h := Some n])"
    using len by (simp add: char_indices)
  have "trie_put r (c_string k rest) v = Inr ?r"
    unfolding trie_put_def a0 bindR_Inr ah Let_def n(1) as ..
  moreover have "root_wf ?r" using assms(1) n(2) by (auto simp: root_wf_def nth_list_update split: if_splits)
  moreover have "trie_find ?r k' = (if k' = k then v else trie_find r k')" if k': "ascii_key k'" for k'
  proof (cases "hi (hd k') = ?h")
    case True
    have "lo (hd k') = lo (hd k) \<and> tl k' = tl k \<longleftrightarrow> k' = k"
      using True nibbles_determine [OF True] k' assms(2) by (cases k; cases k') (auto simp: ascii_key_def)
    then show ?thesis using True len n(3) [OF k'] find_n by (simp add: trie_find_def)
  next
    case False
    then show ?thesis using len by (auto simp: trie_find_def)
  qed
  ultimately show ?thesis by blast
qed

lemma trie_find_new: "trie_find new_lev2 k = None"
  by (simp add: trie_find_def new_lev2_def)

section \<open>The values\<close>

lemma set_some_values: "x \<in> set (some_values vs) \<longleftrightarrow> Some x \<in> set vs"
  by (force simp: some_values_def split: option.splits)

lemma set_some_lists: "x \<in> set (some_lists xs) \<longleftrightarrow> (\<exists>l. Some l \<in> set xs \<and> x \<in> set l)"
  by (auto simp: some_lists_def set_some_values)

lemma Some_in_map_option: "Some y \<in> set (map (map_option f) xs) \<longleftrightarrow> (\<exists>i x. i < length xs \<and> xs ! i = Some x \<and> y = f x)"
  unfolding in_set_conv_nth length_map by (auto simp: map_option_eq_Some, blast)

lemma lists_memI: "i < length xs \<Longrightarrow> xs ! i = Some x \<Longrightarrow> v \<in> set (f x) \<Longrightarrow> v \<in> set (some_lists (map (map_option f) xs))"
  unfolding set_some_lists Some_in_map_option by blast

lemma values_find:
  shows "trie_wf h t \<Longrightarrow> h < 16 \<Longrightarrow> v \<in> set (node_values t) \<longleftrightarrow> (\<exists>k. ascii_key k \<and> hi (hd k) = h \<and> find_in (Some t) k = Some v)"
    and "lev2_wf l \<Longrightarrow> v \<in> set (lev2_values l) \<longleftrightarrow>
      (\<exists>k. ascii_key k \<and> hi (hd k) < 8 \<and> find_in (lev2_children l ! hi (hd k)) k = Some v)"
proof (induction h t and l rule: trie_wf_lev2_wf.inducts)
  case (trie_wfI cs vs h)
  have zero: "lo c \<noteq> 0" if "hi c = h" "h = 0" "c \<noteq> 0" for c using that nibbles_zero [of c] by blast
  have here: "v \<in> set (some_values vs) \<longleftrightarrow> (\<exists>c. c \<noteq> 0 \<and> hi c = h \<and> vs ! lo c = Some v)"
  proof
    assume "v \<in> set (some_values vs)"
    then have "Some v \<in> set vs" by (simp add: set_some_values)
    then obtain i where i: "i < 16" "vs ! i = Some v" using trie_wfI(2) by (auto simp: in_set_conv_nth)
    obtain c where c: "hi c = h" "lo c = i" using nibbles_exist [OF trie_wfI.prems i(1)] by blast
    have "c \<noteq> 0" using c i(2) trie_wfI(3) by auto
    then show "\<exists>c. c \<noteq> 0 \<and> hi c = h \<and> vs ! lo c = Some v" using c i by blast
  next
    assume "\<exists>c. c \<noteq> 0 \<and> hi c = h \<and> vs ! lo c = Some v"
    then show "v \<in> set (some_values vs)" using trie_wfI(2) by (metis nibbles_less(2) nth_mem set_some_values)
  qed
  have below: "v \<in> set (some_lists (map (map_option lev2_values) cs)) \<longleftrightarrow>
    (\<exists>c k. c \<noteq> 0 \<and> hi c = h \<and> ascii_key k \<and> hi (hd k) < 8 \<and> find_in (step_to (Trie cs vs) c (hd k)) k = Some v)" (is "?L \<longleftrightarrow> ?R")
  proof
    assume ?L
    then obtain i l where i: "i < 16" "cs ! i = Some l" "v \<in> set (lev2_values l)"
      using trie_wfI(1) by (auto simp: set_some_lists Some_in_map_option simp del: set_map)
    then obtain k where k: "ascii_key k" "hi (hd k) < 8" "find_in (lev2_children l ! hi (hd k)) k = Some v"
      using trie_wfI.IH by blast
    obtain c where c: "hi c = h" "lo c = i" using nibbles_exist [OF trie_wfI.prems i(1)] by blast
    have "c \<noteq> 0" using c i(2) trie_wfI(3) by auto
    moreover have "find_in (step_to (Trie cs vs) c (hd k)) k = Some v" using c(2) i(2) k(3) by (simp add: step_to_def)
    ultimately show ?R using c(1) k(1,2) by blast
  next
    assume ?R
    then obtain c k where ck: "c \<noteq> 0" "hi c = h" "ascii_key k" "hi (hd k) < 8" "find_in (step_to (Trie cs vs) c (hd k)) k = Some v" by blast
    then obtain l where l: "cs ! lo c = Some l" "find_in (lev2_children l ! hi (hd k)) k = Some v"
      by (auto simp: step_to_def split: option.splits)
    then have "v \<in> set (lev2_values l)" using trie_wfI.IH [of "lo c" l] ck(3,4) by auto
    then show ?L using l(1) trie_wfI(1) by (intro lists_memI) auto
  qed
  show ?case
  proof
    assume "v \<in> set (node_values (Trie cs vs))"
    then consider "v \<in> set (some_values vs)" | "v \<in> set (some_lists (map (map_option lev2_values) cs))" by auto
    then show "\<exists>k. ascii_key k \<and> hi (hd k) = h \<and> find_in (Some (Trie cs vs)) k = Some v"
    proof cases
      case 1
      then obtain c where "c \<noteq> 0" "hi c = h" "vs ! lo c = Some v" using here by blast
      then show ?thesis by (intro exI [of _ "[c]"]) (simp add: ascii_key_def)
    next
      case 2
      then obtain c k where "c \<noteq> 0" "hi c = h" "ascii_key k" "hi (hd k) < 8" "find_in (step_to (Trie cs vs) c (hd k)) k = Some v"
        using below by blast
      then show ?thesis by (intro exI [of _ "c # k"]) (cases k, auto simp: ascii_key_def hi_ascii)
    qed
  next
    assume "\<exists>k. ascii_key k \<and> hi (hd k) = h \<and> find_in (Some (Trie cs vs)) k = Some v"
    then obtain k where k: "ascii_key k" "hi (hd k) = h" "find_in (Some (Trie cs vs)) k = Some v" by blast
    show "v \<in> set (node_values (Trie cs vs))"
    proof (cases "tl k = []")
      case True
      then obtain c where "k = [c]" using k(1) by (cases k) (auto simp: ascii_key_def)
      then show ?thesis using here k by (auto simp: ascii_key_def)
    next
      case False
      then obtain c c1 q where q: "k = c # c1 # q" by (cases k; cases "tl k") auto
      have "ascii_key (c1 # q)" "hi c1 < 8" "c \<noteq> 0" using k(1) q by (simp_all add: ascii_key_def hi_ascii)
      then have "\<exists>c k. c \<noteq> 0 \<and> hi c = h \<and> ascii_key k \<and> hi (hd k) < 8 \<and> find_in (step_to (Trie cs vs) c (hd k)) k = Some v"
        using k q by (intro exI [of _ c] exI [of _ "c1 # q"]) simp
      then show ?thesis using below by simp
    qed
  qed
next
  case (lev2_wfI ns)
  show ?case
  proof
    assume "v \<in> set (lev2_values (TrieLev2 ns))"
    then obtain j t where j: "j < 16" "ns ! j = Some t" "v \<in> set (node_values t)"
      using lev2_wfI(1) by (auto simp: set_some_lists Some_in_map_option simp del: set_map)
    then show "\<exists>k. ascii_key k \<and> hi (hd k) < 8 \<and> find_in (lev2_children (TrieLev2 ns) ! hi (hd k)) k = Some v"
      using lev2_wfI(2) [OF j(1,2)] by auto
  next
    assume "\<exists>k. ascii_key k \<and> hi (hd k) < 8 \<and> find_in (lev2_children (TrieLev2 ns) ! hi (hd k)) k = Some v"
    then obtain k where k: "ascii_key k" "hi (hd k) < 8" "find_in (ns ! hi (hd k)) k = Some v" by auto
    then obtain t where t: "ns ! hi (hd k) = Some t" by (cases "ns ! hi (hd k)") auto
    then have "v \<in> set (node_values t)" using lev2_wfI(2) [OF _ t] k by auto
    then show "v \<in> set (lev2_values (TrieLev2 ns))"
      using t lev2_wfI(1) unfolding lev2_values.simps by (intro lists_memI) auto
  qed
qed

lemma trie_values_find:
  assumes "root_wf r"
  shows "v \<in> set (lev2_values r) \<longleftrightarrow> (\<exists>k. ascii_key k \<and> trie_find r k = Some v)"
proof
  obtain ns where r: "r = TrieLev2 ns" by (cases r)
  assume "v \<in> set (lev2_values r)"
  then obtain j t where j: "j < 16" "ns ! j = Some t" "v \<in> set (node_values t)"
    using assms r by (auto simp: set_some_lists Some_in_map_option root_wf_def simp del: set_map)
  then show "\<exists>k. ascii_key k \<and> trie_find r k = Some v"
    using values_find(1) [of j t v] assms r by (auto simp: root_wf_def trie_find_def)
next
  obtain ns where r: "r = TrieLev2 ns" by (cases r)
  assume "\<exists>k. ascii_key k \<and> trie_find r k = Some v"
  then obtain k where k: "ascii_key k" "find_in (ns ! hi (hd k)) k = Some v" using r by (auto simp: trie_find_def)
  then obtain t where t: "ns ! hi (hd k) = Some t" by (cases "ns ! hi (hd k)") auto
  then have "v \<in> set (node_values t)" using k values_find(1) [of "hi (hd k)" t v] assms r by (auto simp: root_wf_def)
  then show "v \<in> set (lev2_values r)"
    using t assms unfolding r lev2_values.simps root_wf_def by (intro lists_memI) auto
qed

section \<open>The interface\<close>

text \<open>A sequence of insertions, and what it means for the map.\<close>

fun put_list :: "('t \<Rightarrow> byte list \<Rightarrow> 'v option \<Rightarrow> 't result) \<Rightarrow> 't \<Rightarrow> (byte list \<times> 'v option) list \<Rightarrow> 't result" where
  "put_list put t [] = Inr t"
| "put_list put t ((k, v) # ops) = bindR (put t (c_string k []) v) (\<lambda>t. put_list put t ops)"

fun map_updates :: "(byte list \<Rightarrow> 'v option) \<Rightarrow> (byte list \<times> 'v option) list \<Rightarrow> (byte list \<Rightarrow> 'v option)" where
  "map_updates m [] = m"
| "map_updates m ((k, v) # ops) = map_updates (m(k := v)) ops"

locale string_map =
  fixes inv :: "'t \<Rightarrow> bool"
    and empty :: 't
    and get :: "'t \<Rightarrow> byte list \<Rightarrow> 'v option result"
    and put :: "'t \<Rightarrow> byte list \<Rightarrow> 'v option \<Rightarrow> 't result"
    and lookup :: "'t \<Rightarrow> byte list \<Rightarrow> 'v option"
    and elems :: "'t \<Rightarrow> 'v list"
  assumes inv_empty: "inv empty"
    and lookup_empty: "lookup empty k = None"
    and get_lookup: "inv t \<Longrightarrow> ascii_key k \<Longrightarrow> get t (c_string k rest) = Inr (lookup t k)"
    and put_lookup: "inv t \<Longrightarrow> ascii_key k \<Longrightarrow> \<exists>t'. put t (c_string k rest) v = Inr t' \<and> inv t' \<and>
      (\<forall>k'. ascii_key k' \<longrightarrow> lookup t' k' = (if k' = k then v else lookup t k'))"
    and elems_lookup: "inv t \<Longrightarrow> x \<in> set (elems t) \<longleftrightarrow> (\<exists>k. ascii_key k \<and> lookup t k = Some x)"
begin

lemma put_list_lookup:
  "inv t \<Longrightarrow> \<forall>(k, v) \<in> set ops. ascii_key k \<Longrightarrow> (\<And>k. ascii_key k \<Longrightarrow> lookup t k = m k) \<Longrightarrow>
    \<exists>t'. put_list put t ops = Inr t' \<and> inv t' \<and> (\<forall>k. ascii_key k \<longrightarrow> lookup t' k = map_updates m ops k)"
proof (induction ops arbitrary: t m)
  case (Cons op ops)
  obtain k v where op: "op = (k, v)" by (cases op)
  then obtain t1 where t1: "put t (c_string k []) v = Inr t1" "inv t1"
    "\<And>k'. ascii_key k' \<Longrightarrow> lookup t1 k' = (m(k := v)) k'"
    using put_lookup [OF Cons.prems(1), of k "[]" v] Cons.prems(2,3) by auto
  have "\<forall>(k, v) \<in> set ops. ascii_key k" using Cons.prems(2) by simp
  from Cons.IH [OF t1(2) this, where m = "m(k := v)"] t1(3) obtain t' where
    "put_list put t1 ops = Inr t'" "inv t'" "\<And>q. ascii_key q \<Longrightarrow> lookup t' q = map_updates (m(k := v)) ops q" by blast
  with t1(1) op show ?case by simp
qed simp

lemma get_after_puts:
  assumes "\<forall>(k, v) \<in> set ops. ascii_key k" and "ascii_key k"
  shows "\<exists>t. put_list put empty ops = Inr t \<and> get t (c_string k rest) = Inr (map_updates Map.empty ops k)"
  using put_list_lookup [OF inv_empty assms(1), of Map.empty] get_lookup [OF _ assms(2)] assms(2)
  by (auto simp: lookup_empty)

lemma elems_after_put:
  assumes "inv t" "ascii_key k" "put t (c_string k rest) (Some v) = Inr t'"
  shows "set (elems t') = insert v {x. \<exists>k'. ascii_key k' \<and> k' \<noteq> k \<and> lookup t k' = Some x}"
proof -
  have "inv t'" "\<And>k'. ascii_key k' \<Longrightarrow> lookup t' k' = (if k' = k then Some v else lookup t k')"
    using put_lookup [OF assms(1,2), of rest "Some v"] assms(3) by auto
  then show ?thesis using assms(2) unfolding set_eq_iff elems_lookup [OF \<open>inv t'\<close>] by (simp, metis option.inject)
qed

end

interpretation nibble_trie: string_map root_wf new_lev2 trie_get trie_put trie_find lev2_values
proof unfold_locales
  show "root_wf (new_lev2 :: 'a trie_lev2)" by (rule new_trie_wf)
qed (rule trie_find_new trie_get_find trie_put_find trie_values_find; assumption)+

section \<open>Properties\<close>

text \<open>
  C6. The trie implements a finite map on strings: after any sequence of insertions (and removals,
  which insert the null pointer) into an empty trie, a lookup returns the value last stored
  under the key, whatever follows the keys in memory, and no access leaves an array, provided every
  key is non-empty and ASCII after its first character.
\<close>

theorem trie_is_map:
  assumes "\<forall>(k, v) \<in> set ops. ascii_key k" and "ascii_key k"
  shows "\<exists>t. put_list trie_put new_lev2 ops = Inr t \<and> trie_get t (c_string k rest) = Inr (map_updates Map.empty ops k)"
  by (rule nibble_trie.get_after_puts [OF assms])

theorem trie_is_map_witness:
  "\<exists>t. put_list trie_put new_lev2 [([97, 98], Some (1 :: nat)), ([97], Some 2), ([97, 98], Some 3), ([97], None)] = Inr t \<and>
     trie_get t (c_string [97, 98] [7]) = Inr (Some 3)"
  using trie_is_map [of "[([97, 98], Some (1 :: nat)), ([97], Some 2), ([97, 98], Some 3), ([97], None)]" "[97, 98]" "[7]"]
  by (simp add: ascii_key_def)

text \<open>
  The iteration hands over exactly the values stored: in any trie built by insertions, a value
  is visited if and only if some key is mapped to it.
\<close>

lemma trie_iterates_all:
  assumes "\<forall>(k, v) \<in> set ops. ascii_key k" and "put_list trie_put new_lev2 ops = Inr t"
  shows "trie_iterate t (\<lambda>vs v. Inr (vs @ [v])) [] = Inr (lev2_values t) \<and>
    set (lev2_values t) = {v. \<exists>k. ascii_key k \<and> map_updates Map.empty ops k = Some v}"
proof -
  have "iterate_values (\<lambda>vs v. Inr (vs @ [v])) xs acc = Inr (acc @ xs)" for xs acc :: "'a list"
    by (induction xs arbitrary: acc) simp_all
  then have it: "trie_iterate t (\<lambda>vs v. Inr (vs @ [v])) [] = Inr (lev2_values t)" by (simp add: trie_iterate_def)
  have "root_wf t" "\<And>k. ascii_key k \<Longrightarrow> trie_find t k = map_updates Map.empty ops k"
    using nibble_trie.put_list_lookup [OF new_trie_wf(3) assms(1), of Map.empty] assms(2) by (auto simp: trie_find_new)
  with it show ?thesis unfolding set_eq_iff trie_values_find [OF \<open>root_wf t\<close>] by fastforce
qed

lemma trie_iterates_all_example:
  "\<exists>t. put_list trie_put new_lev2 [([97, 98], Some (1 :: nat)), ([200], Some 2)] = Inr t \<and> set (lev2_values t) = {1, 2} \<and>
     trie_iterate t (\<lambda>vs v. Inr (vs @ [v])) [] = Inr (lev2_values t)"
proof -
  let ?ops = "[([97, 98], Some (1 :: nat)), ([200 :: byte], Some 2)]"
  have ok: "\<forall>(k, v) \<in> set ?ops. ascii_key k" by (simp add: ascii_key_def)
  obtain t where t: "put_list trie_put new_lev2 ?ops = Inr t"
    using nibble_trie.get_after_puts [OF ok, of "[97]"] by (auto simp: ascii_key_def)
  have "{v. \<exists>k. ascii_key k \<and> map_updates Map.empty ?ops k = Some v} = {1, 2}"
    by (auto simp: ascii_key_def split: if_splits)
  with trie_iterates_all [OF ok t] t show ?thesis by auto
qed

lemma trie_put_bad:
  assumes "root_wf t" "ch \<noteq> 0" "128 \<le> unat ch1"
  shows "trie_put t (ch # ch1 # rest) v = Inl OutOfBounds \<and> trie_put t (c_string [] []) v = Inl OutOfBounds"
proof -
  have c1: "ch1 \<noteq> 0" using assms(3) by auto
  have wf: "trie_wf (hi c) (case lev2_children t ! hi c of None \<Rightarrow> new_trie | Some n \<Rightarrow> n)" for c
    using assms(1) new_trie_wf(1) by (auto simp: root_wf_def split: option.splits)
  have "arr_get (trie_children n) (low_nibble ch) = Inr (trie_children n ! lo ch)" if "trie_wf h n" for h and n :: "'a trie"
    using trie_wf_lengths [OF that] by (simp add: char_indices)
  then have ins: "trie_loose_insert n (ch # ch1 # rest) v = Inl OutOfBounds" if "trie_wf h n" for h and n :: "'a trie"
    using c1 that shifted_char_negative [OF assms(3)] by (simp add: Let_def)
  have len: "length (lev2_children t) = 16" using assms(1) by (simp add: root_wf_def)
  have "arr_get (lev2_children t) (high_nibble c) = Inr (lev2_children t ! hi c)" for c
    using len by (simp add: char_indices)
  then show ?thesis
    using ins [OF wf] by (simp add: trie_put_def c_string_def Let_def del: trie_loose_insert.simps(3))
qed

text \<open>
  Keys the trie cannot handle.  A character from 128 on that is not the first is shifted as a
  negative number and indexes before the array of children; the empty string makes the code
  read the byte behind its terminator, outside the string.
\<close>

lemma trie_bad_keys:
  assumes "root_wf t" "ch \<noteq> 0" "128 \<le> unat ch1"
  shows "trie_put t (ch # ch1 # rest) v = Inl OutOfBounds \<and> trie_put t (c_string [] []) v = Inl OutOfBounds"
  by (rule trie_put_bad [OF assms])

lemma trie_bad_keys_example:
  "trie_put (new_lev2 :: nat trie_lev2) [99, 0xC3, 0xA9, 0] (Some 1) = Inl OutOfBounds"
  using trie_bad_keys [OF new_trie_wf(3), of 99 "0xC3" "[0xA9, 0]" "Some (1 :: nat)"] by simp

text \<open>
  The set keeps its members: after inserting or removing one string, membership of it is as
  told and membership of every other string is as before.
\<close>

lemma trie_set_operations:
  assumes "root_wf s" "ascii_key k" "ascii_key k'"
  shows "\<exists>s1 s2 b. trie_set_insert s (c_string k rest) = Inr s1 \<and> root_wf s1 \<and>
    trie_set_remove s (c_string k rest) = Inr s2 \<and> root_wf s2 \<and>
    trie_set_contains s (c_string k' rest') = Inr b \<and>
    trie_set_contains s1 (c_string k' rest') = Inr (k' = k \<or> b) \<and>
    trie_set_contains s2 (c_string k' rest') = Inr (k' \<noteq> k \<and> b)"
proof -
  obtain s1 where s1: "trie_put s (c_string k rest) (Some ()) = Inr s1" "root_wf s1"
    "\<And>q. ascii_key q \<Longrightarrow> trie_find s1 q = (if q = k then Some () else trie_find s q)"
    using nibble_trie.put_lookup [OF assms(1,2), of rest "Some ()"] by auto
  obtain s2 where s2: "trie_put s (c_string k rest) None = Inr s2" "root_wf s2"
    "\<And>q. ascii_key q \<Longrightarrow> trie_find s2 q = (if q = k then None else trie_find s q)"
    using nibble_trie.put_lookup [OF assms(1,2), of rest None] by auto
  have "trie_set_contains t (c_string k' rest') = Inr (trie_find t k' \<noteq> None)" if "root_wf t" for t
    using nibble_trie.get_lookup [OF that assms(3)] by (simp add: trie_set_contains_def)
  then show ?thesis
    using assms s1 s2 by (auto simp: trie_set_insert_def trie_set_remove_def)
qed

lemma trie_set_operations_example:
  "\<exists>s1. trie_set_insert new_lev2 (c_string [97, 98] []) = Inr s1 \<and> trie_set_contains s1 (c_string [97] []) = Inr False \<and>
     trie_set_contains new_lev2 (c_string [97] []) = Inr False"
proof -
  have k: "ascii_key [97, 98]" "ascii_key [97]" by (simp_all add: ascii_key_def)
  have "trie_set_contains new_lev2 (c_string [97] []) = Inr False" by code_simp
  with trie_set_operations [OF new_trie_wf(3) k, of "[]" "[]"] show ?thesis by auto
qed

end
