(* ===== verification/Server.thy ===== *)
theory Server
  imports TrieMap FileStatProps
begin

text \<open>
  The directory server (\<^verbatim>\<open>PA4/server.c\<close>): the map of the files the clients offer, the set of the
  clients' names, and the commands of \<^verbatim>\<open>connection_callback\<close>.  The mutexes make each operation on
  a trie one step; a connection is the sequence of its commands.
\<close>

section \<open>State\<close>

record server =
  g_file_map :: "file_stat trie_lev2"
  g_client_set :: "unit trie_lev2"

text \<open>
  The local state of a connection: the buffer \<^verbatim>\<open>word\<close>, what is left of the stream and its end of
  file indicator.
\<close>

record conn =
  cn_word :: "byte list"
  cn_stream :: "byte list"
  cn_eof :: bool

text \<open>Whether the callback goes on, has closed the stream and goes on, or has returned.\<close>

datatype conn_status = Running | StreamClosed | Returned

section \<open>Words\<close>

definition isspace :: "byte \<Rightarrow> bool" where
  "isspace ch \<longleftrightarrow> ch = 0x20 \<or> 0x09 \<le> ch \<and> ch \<le> 0x0D"

text \<open>
  The byte 0xFF reads as -1 and ends a word like the end of the file; the character at which a word
  that is too long is cut is lost.
\<close>

fun read_word_loop :: "byte list \<Rightarrow> nat \<Rightarrow> nat \<Rightarrow> byte list \<Rightarrow> byte list \<times> nat \<times> byte list \<times> bool" where
  "read_word_loop into wordptr sz [] = (into, wordptr, [], True)"
| "read_word_loop into wordptr sz (ch # s) =
     (if \<not> isspace ch \<and> ch \<noteq> 0xFF \<and> wordptr < sz - 1
      then read_word_loop (into[wordptr := ch]) (wordptr + 1) sz s
      else (into, wordptr, s, False))"

definition read_word :: "conn \<Rightarrow> conn" where
  "read_word c =
     (case read_word_loop (cn_word c) 0 128 (cn_stream c) of (into, wordptr, s, eof) \<Rightarrow>
        c\<lparr>cn_word := into[wordptr := 0], cn_stream := s, cn_eof := eof\<rparr>)"

section \<open>Operations on the tries\<close>

definition printitr :: "byte list \<Rightarrow> file_stat \<Rightarrow> byte list result" where
  "printitr out element = Inr (out @ write_file_stat element)"

definition deregister_itr :: "byte list \<Rightarrow> file_stat trie_lev2 \<Rightarrow> file_stat \<Rightarrow> file_stat trie_lev2 result" where
  "deregister_itr name files element =
     (if c_str (fs_owner element) = name then trie_put files (c_string (fs_file_name element) []) None
      else Inr files)"

text \<open>
  The files of one owner are taken out while the trie is traversed.  The traversal is over the
  values it held at the start: an erased element is the one just visited, and storing the null
  pointer under a name that is there adds no node.
\<close>

definition deregister_files :: "byte list \<Rightarrow> file_stat trie_lev2 \<Rightarrow> file_stat trie_lev2 result" where
  "deregister_files name files = trie_iterate files (deregister_itr name) files"

definition new_file :: "byte list \<Rightarrow> file_stat \<Rightarrow> server \<Rightarrow> server result" where
  "new_file ip tmp sv =
     (if fs_file_name tmp \<noteq> ascii ''.'' \<and> fs_file_name tmp \<noteq> ascii ''..'' then
        bindR (trie_put (g_file_map sv) (c_string (fs_file_name tmp) []) (Some (tmp\<lparr>fs_host_name := ip\<rparr>)))
          (\<lambda>files. Inr (sv\<lparr>g_file_map := files\<rparr>))
      else Inr sv)"

section \<open>Commands\<close>

text \<open>One round of the loop; the byte string is what is written to the client.\<close>

definition serve_command :: "byte list \<Rightarrow> server \<Rightarrow> conn \<Rightarrow> (server \<times> conn \<times> byte list \<times> conn_status) result" where
  "serve_command ip sv c =
     (let c = read_word c; word = c_str (cn_word c) in
      if word = ascii ''REGISTER'' then
        let c = read_word c in
        bindR (trie_set_contains (g_client_set sv) (cn_word c)) (\<lambda>known.
        if known then Inr (sv, c, [], Returned)
        else bindR (trie_set_insert (g_client_set sv) (cn_word c)) (\<lambda>clients.
             Inr (sv\<lparr>g_client_set := clients\<rparr>, c, [], Running)))
      else if word = ascii ''NEWFILE'' then
        (case read_file_stat (cn_stream c) of
           (None, s) \<Rightarrow> Inr (sv, c\<lparr>cn_stream := s\<rparr>, [], Running)
         | (Some tmp, s) \<Rightarrow>
             bindR (new_file ip tmp sv) (\<lambda>sv. Inr (sv, c\<lparr>cn_stream := s\<rparr>, [], Running)))
      else if word = ascii ''LIST'' then
        bindR (trie_iterate (g_file_map sv) printitr []) (\<lambda>out.
        Inr (sv, c, out @ ascii ''END'' @ [0x0A], Running))
      else if word = ascii ''DEREGISTER'' then
        let c = read_word c in
        bindR (deregister_files (c_str (cn_word c)) (g_file_map sv)) (\<lambda>files.
        bindR (trie_set_remove (g_client_set sv) (cn_word c)) (\<lambda>clients.
        Inr (\<lparr>g_file_map = files, g_client_set = clients\<rparr>, c, [], StreamClosed)))
      else Inr (sv, c, [], Running))"

section \<open>The connection\<close>

lemma read_word_loop_shorter:
  "read_word_loop w p n s = (w', p', s', e) \<Longrightarrow> length s' + (if e then 0 else 1) \<le> length s"
  by (induction w p n s rule: read_word_loop.induct) (auto split: if_splits)

lemma read_word_shorter: "length (cn_stream (read_word c)) + (if cn_eof (read_word c) then 0 else 1) \<le> length (cn_stream c)"
proof -
  obtain w p s e where l: "read_word_loop (cn_word c) 0 128 (cn_stream c) = (w, p, s, e)"
    by (cases "read_word_loop (cn_word c) 0 128 (cn_stream c)") auto
  from read_word_loop_shorter [OF l] l show ?thesis by (simp add: read_word_def)
qed

lemma read_name_shorter:
  "read_name buf s = FieldStop b q \<Longrightarrow> length q \<le> length s"
  "read_name buf s = FieldNewline b q \<Longrightarrow> length q \<le> length s"
  "read_name buf s = FieldTooLong q \<Longrightarrow> length q \<le> length s"
  by (induction buf s rule: read_name.induct) (auto split: if_splits)

lemma read_colon_shorter:
  "field_result (read_colon_field buf s) = Inr (b, q) \<Longrightarrow> length q \<le> length s"
  "field_result (read_colon_field buf s) = Inl q \<Longrightarrow> length q \<le> length s"
  by (induction buf s rule: read_colon_field.induct) (auto simp: field_result_def split: if_splits)

lemma read_number_shorter:
  "read_number stop n s = Inr (m, e, q) \<Longrightarrow> length q \<le> length s"
  "read_number stop n s = Inl q \<Longrightarrow> length q \<le> length s"
  by (induction stop n s rule: read_number.induct) (auto split: if_splits)

lemma bindR_eq_Inl: "bindR m f = Inl e \<longleftrightarrow> m = Inl e \<or> (\<exists>x. m = Inr x \<and> f x = Inl e)"
  by (cases m) auto

lemma read_stat_tail_shorter:
  "read_stat_tail nm s = Inr (st, q) \<Longrightarrow> length q \<le> length s"
  "read_stat_tail nm s = Inl q \<Longrightarrow> length q \<le> length s"
  unfolding read_stat_tail_def
  by (auto simp: bindR_eq_Inr bindR_eq_Inl split: if_splits dest!: read_number_shorter read_colon_shorter)

lemma read_file_stat_shorter: "read_file_stat s = (r, q) \<Longrightarrow> length q \<le> length s"
  unfolding read_file_stat_def read_file_stat_end_def
  by (auto split: field_end.splits sum.splits prod.splits dest!: read_stat_tail_shorter dest: read_name_shorter order_trans)

lemma serve_command_shorter:
  assumes "serve_command ip sv c = Inr (sv', c', out, st)"
  shows "length (cn_stream c') + (if cn_eof c' then 0 else 1) \<le> length (cn_stream c)"
proof -
  have 1: "length (cn_stream (read_word c)) + (if cn_eof (read_word c) then 0 else 1) \<le> length (cn_stream c)"
    by (rule read_word_shorter)
  have 2: "length (cn_stream (read_word (read_word c))) + (if cn_eof (read_word (read_word c)) then 0 else 1) \<le> length (cn_stream (read_word c))"
    by (rule read_word_shorter)
  have 3: "c' = read_word c \<or> c' = read_word (read_word c) \<or>
     (\<exists>r s. read_file_stat (cn_stream (read_word c)) = (r, s) \<and> c' = (read_word c)\<lparr>cn_stream := s\<rparr>)"
    using assms by (auto simp: serve_command_def Let_def bindR_eq_Inr split: if_splits prod.splits option.splits)
  then show ?thesis
    using 1 2 read_file_stat_shorter [of "cn_stream (read_word c)"] by (auto split: if_splits) 
qed

text \<open>
  The loop tests the end of file indicator of the stream before every round: after the stream has
  been closed that is a use of freed memory.
\<close>

function connection_loop :: "byte list \<Rightarrow> server \<Rightarrow> conn \<Rightarrow> byte list \<Rightarrow> (server \<times> byte list) result" where
  "connection_loop ip sv c out =
     (if cn_eof c then Inr (sv, out)
      else
        bindR (serve_command ip sv c) (\<lambda>(sv, c, w, st).
        case st of
          Returned \<Rightarrow> Inr (sv, out @ w)
        | StreamClosed \<Rightarrow> Inl UseAfterFree
        | Running \<Rightarrow> connection_loop ip sv c (out @ w)))"
  by pat_completeness auto
termination
proof (relation "measure (\<lambda>(ip, sv, c, out). length (cn_stream c) + (if cn_eof c then 0 else 1))")
  fix ip sv c out x sv' y c' z w st
  assume "\<not> cn_eof c" "serve_command ip sv c = Inr x" "(sv', y) = x" "(c', z) = y" "(w, st) = z" "st = Running"
  then show "((ip, sv', c', out @ w), ip, sv, c, out) \<in> measure (\<lambda>(ip, sv, c, out). length (cn_stream c) + (if cn_eof c then 0 else 1))"
    using serve_command_shorter [of ip sv c sv' c' w st] by (auto split: if_splits)
qed simp

declare connection_loop.simps [simp del]

text \<open>\<open>junk\<close>: what \<^verbatim>\<open>word\<close> holds at first.\<close>

definition connection_callback :: "byte list \<Rightarrow> byte list \<Rightarrow> server \<Rightarrow> byte list \<Rightarrow> (server \<times> byte list) result" where
  "connection_callback ip junk sv s =
     connection_loop ip sv \<lparr>cn_word = junk, cn_stream = s, cn_eof = False\<rparr> []"

end
