(* ===== verification/ServerProps.thy ===== *)
theory ServerProps
  imports Server
begin

text \<open>
  The directory the server keeps: \<open>files_of\<close> and \<open>clients_of\<close> are the abstract state, a map and a set
  of names, and every command is an operation on them.
\<close>

section \<open>Words\<close>

text \<open>The words the buffer holds whole.\<close>

definition word_ok :: "byte list \<Rightarrow> bool" where
  "word_ok w \<longleftrightarrow> (\<forall>c \<in> set w. \<not> isspace c \<and> c \<noteq> 0xFF \<and> c \<noteq> 0) \<and> length w < 128"

lemma read_word_loop_ok:
  "\<forall>c \<in> set w. \<not> isspace c \<and> c \<noteq> 0xFF \<Longrightarrow> isspace sep \<Longrightarrow> p + length w < 128 \<Longrightarrow> p + length w < length buf \<Longrightarrow>
    read_word_loop buf p 128 (w @ sep # s) = (take p buf @ w @ drop (p + length w) buf, p + length w, s, False)"
proof (induction w arbitrary: buf p)
  case (Cons c w)
  have "take (Suc p) (buf[p := c]) = take p buf @ [c]" using Cons.prems(4) by (simp add: take_Suc_conv_app_nth)
  then show ?case using Cons by simp
qed simp

lemma read_word_ok:
  assumes "word_ok w" "isspace sep" "length buf = 128"
  shows "\<exists>rest. length rest + length w = 127 \<and> read_word \<lparr>cn_word = buf, cn_stream = w @ sep # s, cn_eof = e\<rparr>
    = \<lparr>cn_word = c_string w rest, cn_stream = s, cn_eof = False\<rparr>"
proof -
  have l: "read_word_loop buf 0 128 (w @ sep # s) = (w @ drop (length w) buf, length w, s, False)"
    using read_word_loop_ok [of w sep 0 buf s] assms by (simp add: word_ok_def)
  have "drop (length w) buf = buf ! length w # drop (Suc (length w)) buf"
    using assms(1,3) by (simp add: word_ok_def Cons_nth_drop_Suc)
  then have "(w @ drop (length w) buf)[length w := 0] = c_string w (drop (Suc (length w)) buf)"
    by (simp add: c_string_def)
  then show ?thesis
    using l assms(1,3) by (intro exI [of _ "drop (Suc (length w)) buf"]) (simp add: read_word_def word_ok_def)
qed

lemma c_str_c_string: "0 \<notin> set w \<Longrightarrow> c_str (c_string w rest) = w"
  by (simp add: c_str_def c_string_def takeWhile_append2 takeWhile_tail) (auto simp: takeWhile_append2)

lemma length_c_string [simp]: "length (c_string w rest) = length w + Suc (length rest)"
  by (simp add: c_string_def)

lemma command_words: "word_ok (ascii ''REGISTER'')" "word_ok (ascii ''NEWFILE'')" "word_ok (ascii ''LIST'')" "word_ok (ascii ''DEREGISTER'')"
  "isspace 0x20" "isspace 0x0A"
  by (simp_all add: word_ok_def isspace_def)

section \<open>The directory\<close>

text \<open>What the two tries stand for.\<close>

definition files_of :: "server \<Rightarrow> byte list \<Rightarrow> file_stat option" where
  "files_of sv k = (if ascii_key k then trie_find (g_file_map sv) k else None)"

definition clients_of :: "server \<Rightarrow> byte list set" where
  "clients_of sv = {k. ascii_key k \<and> trie_find (g_client_set sv) k \<noteq> None}"

text \<open>Every file is filed under its own name.\<close>

definition server_inv :: "server \<Rightarrow> bool" where
  "server_inv sv \<longleftrightarrow> root_wf (g_file_map sv) \<and> root_wf (g_client_set sv) \<and>
     (\<forall>k st. files_of sv k = Some st \<longrightarrow> fs_file_name st = k)"

definition new_server :: server where
  "new_server = \<lparr>g_file_map = new_lev2, g_client_set = new_lev2\<rparr>"

lemma new_server_inv: "server_inv new_server" "files_of new_server = Map.empty" "clients_of new_server = {}"
  by (auto simp: server_inv_def new_server_def new_trie_wf files_of_def clients_of_def trie_find_new)

lemma set_contains_clients:
  "server_inv sv \<Longrightarrow> ascii_key k \<Longrightarrow> trie_set_contains (g_client_set sv) (c_string k rest) = Inr (k \<in> clients_of sv)"
  using nibble_trie.get_lookup [of "g_client_set sv" k rest]
  by (simp add: trie_set_contains_def server_inv_def clients_of_def)

lemma put_client:
  assumes "server_inv sv" "ascii_key k"
  shows "\<exists>cs. trie_put (g_client_set sv) (c_string k rest) v = Inr cs \<and> server_inv (sv\<lparr>g_client_set := cs\<rparr>) \<and>
    files_of (sv\<lparr>g_client_set := cs\<rparr>) = files_of sv \<and>
    clients_of (sv\<lparr>g_client_set := cs\<rparr>) = (if v = None then clients_of sv - {k} else insert k (clients_of sv))"
proof -
  obtain cs where cs: "trie_put (g_client_set sv) (c_string k rest) v = Inr cs" "root_wf cs"
    "\<And>q. ascii_key q \<Longrightarrow> trie_find cs q = (if q = k then v else trie_find (g_client_set sv) q)"
    using nibble_trie.put_lookup [of "g_client_set sv" k rest v] assms by (auto simp: server_inv_def)
  have f: "files_of (sv\<lparr>g_client_set := cs\<rparr>) = files_of sv" by (intro ext) (simp add: files_of_def)
  moreover have "clients_of (sv\<lparr>g_client_set := cs\<rparr>) = (if v = None then clients_of sv - {k} else insert k (clients_of sv))"
    using cs(3) assms(2) by (auto simp: clients_of_def split: if_splits)
  moreover have "server_inv (sv\<lparr>g_client_set := cs\<rparr>)"
    using assms(1) cs(2) f by (simp add: server_inv_def)
  ultimately show ?thesis using cs(1) by blast
qed

lemma put_file:
  assumes "server_inv sv" "ascii_key k" "\<And>st. v = Some st \<Longrightarrow> fs_file_name st = k"
  shows "\<exists>fs. trie_put (g_file_map sv) (c_string k rest) v = Inr fs \<and> server_inv (sv\<lparr>g_file_map := fs\<rparr>) \<and>
    files_of (sv\<lparr>g_file_map := fs\<rparr>) = (files_of sv)(k := v) \<and> clients_of (sv\<lparr>g_file_map := fs\<rparr>) = clients_of sv"
proof -
  obtain fs where fs: "trie_put (g_file_map sv) (c_string k rest) v = Inr fs" "root_wf fs"
    "\<And>q. ascii_key q \<Longrightarrow> trie_find fs q = (if q = k then v else trie_find (g_file_map sv) q)"
    using nibble_trie.put_lookup [of "g_file_map sv" k rest v] assms(1,2) by (auto simp: server_inv_def)
  have f: "files_of (sv\<lparr>g_file_map := fs\<rparr>) = (files_of sv)(k := v)"
    using fs(3) assms(2) by (intro ext) (simp add: files_of_def)
  moreover have "clients_of (sv\<lparr>g_file_map := fs\<rparr>) = clients_of sv" by (simp add: clients_of_def)
  moreover have "server_inv (sv\<lparr>g_file_map := fs\<rparr>)"
    using assms fs(2) f by (auto simp: server_inv_def)
  ultimately show ?thesis using fs(1) by blast
qed

lemma file_values:
  assumes "server_inv sv"
  shows "st \<in> set (lev2_values (g_file_map sv)) \<longleftrightarrow> files_of sv (fs_file_name st) = Some st"
proof -
  have "root_wf (g_file_map sv)" using assms by (simp add: server_inv_def)
  then have "st \<in> set (lev2_values (g_file_map sv)) \<longleftrightarrow> (\<exists>k. files_of sv k = Some st)"
    by (auto simp: trie_values_find files_of_def)
  then show ?thesis using assms by (auto simp: server_inv_def)
qed

section \<open>Taking out the files of one owner\<close>

lemma deregister_values:
  "server_inv sv \<Longrightarrow> \<forall>st \<in> set sts. ascii_key (fs_file_name st) \<Longrightarrow>
    \<exists>fs. iterate_values (deregister_itr name) sts (g_file_map sv) = Inr fs \<and> server_inv (sv\<lparr>g_file_map := fs\<rparr>) \<and>
      clients_of (sv\<lparr>g_file_map := fs\<rparr>) = clients_of sv \<and>
      files_of (sv\<lparr>g_file_map := fs\<rparr>) = (\<lambda>k. if \<exists>st \<in> set sts. fs_file_name st = k \<and> c_str (fs_owner st) = name then None else files_of sv k)"
proof (induction sts arbitrary: sv)
  case (Cons st sts)
  show ?case
  proof (cases "c_str (fs_owner st) = name")
    case True
    obtain fs where fs: "trie_put (g_file_map sv) (c_string (fs_file_name st) []) None = Inr fs" "server_inv (sv\<lparr>g_file_map := fs\<rparr>)"
      "files_of (sv\<lparr>g_file_map := fs\<rparr>) = (files_of sv)(fs_file_name st := None)" "clients_of (sv\<lparr>g_file_map := fs\<rparr>) = clients_of sv"
      using put_file [OF Cons.prems(1), of "fs_file_name st" None "[]"] Cons.prems(2) by auto
    from Cons.IH [OF fs(2)] Cons.prems(2) obtain fs2 where
      "iterate_values (deregister_itr name) sts fs = Inr fs2" "server_inv (sv\<lparr>g_file_map := fs2\<rparr>)"
      "clients_of (sv\<lparr>g_file_map := fs2\<rparr>) = clients_of sv"
      "files_of (sv\<lparr>g_file_map := fs2\<rparr>) = (\<lambda>k. if \<exists>st \<in> set sts. fs_file_name st = k \<and> c_str (fs_owner st) = name then None
        else files_of (sv\<lparr>g_file_map := fs\<rparr>) k)"
      using fs(4) by auto
    moreover have "deregister_itr name (g_file_map sv) st = Inr fs" using fs(1) True by (simp add: deregister_itr_def)
    ultimately show ?thesis using True unfolding fs(3) by (intro exI [of _ fs2]) (auto simp: fun_eq_iff)
  next
    case False
    with Cons.IH [OF Cons.prems(1)] Cons.prems(2) show ?thesis by (auto simp: deregister_itr_def)
  qed
qed (auto simp: server_inv_def files_of_def)

lemma deregister_files_ok:
  assumes "server_inv sv"
  shows "\<exists>fs. deregister_files name (g_file_map sv) = Inr fs \<and> server_inv (sv\<lparr>g_file_map := fs\<rparr>) \<and>
      clients_of (sv\<lparr>g_file_map := fs\<rparr>) = clients_of sv \<and>
      files_of (sv\<lparr>g_file_map := fs\<rparr>) = (\<lambda>k. case files_of sv k of None \<Rightarrow> None | Some st \<Rightarrow> if c_str (fs_owner st) = name then None else Some st)"
proof -
  have "\<forall>st \<in> set (lev2_values (g_file_map sv)). ascii_key (fs_file_name st)"
    using assms by (auto simp: file_values files_of_def split: if_splits)
  from deregister_values [OF assms this, of name] obtain fs where fs:
    "deregister_files name (g_file_map sv) = Inr fs" "server_inv (sv\<lparr>g_file_map := fs\<rparr>)" "clients_of (sv\<lparr>g_file_map := fs\<rparr>) = clients_of sv"
    "files_of (sv\<lparr>g_file_map := fs\<rparr>) = (\<lambda>k. if \<exists>st \<in> set (lev2_values (g_file_map sv)). fs_file_name st = k \<and> c_str (fs_owner st) = name then None else files_of sv k)"
    unfolding deregister_files_def trie_iterate_def by blast
  have "(\<exists>st \<in> set (lev2_values (g_file_map sv)). fs_file_name st = k \<and> c_str (fs_owner st) = name) \<longleftrightarrow>
      (\<exists>st. files_of sv k = Some st \<and> c_str (fs_owner st) = name)" for k
    unfolding Bex_def file_values [OF assms] using assms by (auto simp: server_inv_def)
  then have "files_of (sv\<lparr>g_file_map := fs\<rparr>) = (\<lambda>k. case files_of sv k of None \<Rightarrow> None | Some st \<Rightarrow> if c_str (fs_owner st) = name then None else Some st)"
    unfolding fs(4) by (auto simp: fun_eq_iff split: option.splits)
  with fs show ?thesis by blast
qed


section \<open>Commands\<close>

lemma word_ok_c_str: "word_ok w \<Longrightarrow> c_str (c_string w rest) = w"
  by (rule c_str_c_string) (auto simp: word_ok_def)

lemma commands_differ:
  "ascii ''NEWFILE'' \<noteq> ascii ''REGISTER''" "ascii ''LIST'' \<noteq> ascii ''REGISTER''" "ascii ''LIST'' \<noteq> ascii ''NEWFILE''"
  "ascii ''DEREGISTER'' \<noteq> ascii ''REGISTER''" "ascii ''DEREGISTER'' \<noteq> ascii ''NEWFILE''" "ascii ''DEREGISTER'' \<noteq> ascii ''LIST''"
  by simp_all

text \<open>The command word, with what follows it still in the stream.\<close>

lemma read_command:
  assumes "word_ok w" "isspace sep" "length (cn_word c) = 128" "cn_stream c = w @ sep # s"
  shows "c_str (cn_word (read_word c)) = w" "length (cn_word (read_word c)) = 128" "cn_stream (read_word c) = s" "\<not> cn_eof (read_word c)"
    "\<exists>r. cn_word (read_word c) = c_string w r"
proof -
  have c: "c = \<lparr>cn_word = cn_word c, cn_stream = w @ sep # s, cn_eof = cn_eof c\<rparr>"
    using assms(4) by (cases c) simp
  obtain r where "length r + length w = 127" "read_word c = \<lparr>cn_word = c_string w r, cn_stream = s, cn_eof = False\<rparr>"
    using read_word_ok [OF assms(1,2,3)] c by metis
  then show "c_str (cn_word (read_word c)) = w" "length (cn_word (read_word c)) = 128" "cn_stream (read_word c) = s" "\<not> cn_eof (read_word c)"
    "\<exists>r. cn_word (read_word c) = c_string w r"
    using word_ok_c_str [OF assms(1)] by auto
qed

lemma serve_register:
  assumes "server_inv sv" "word_ok n" "ascii_key n" "length (cn_word c) = 128" "cn_stream c = ascii ''REGISTER'' @ 0x20 # n @ 0x0A # s"
  shows "\<exists>sv' c'. serve_command ip sv c = Inr (sv', c', [], if n \<in> clients_of sv then Returned else Running) \<and>
    server_inv sv' \<and> files_of sv' = files_of sv \<and> clients_of sv' = insert n (clients_of sv) \<and>
    cn_stream c' = s \<and> length (cn_word c') = 128 \<and> \<not> cn_eof c'"
proof -
  note c1 = read_command [OF command_words(1,5) assms(4,5)]
  note c2 = read_command [OF assms(2) command_words(6) c1(2,3)]
  obtain r2 where r2: "cn_word (read_word (read_word c)) = c_string n r2" using c2(5) by blast
  obtain cs where cs: "trie_put (g_client_set sv) (c_string n r2) (Some ()) = Inr cs" "server_inv (sv\<lparr>g_client_set := cs\<rparr>)"
    "files_of (sv\<lparr>g_client_set := cs\<rparr>) = files_of sv" "clients_of (sv\<lparr>g_client_set := cs\<rparr>) = insert n (clients_of sv)"
    using put_client [OF assms(1,3), of r2 "Some ()"] by auto
  have head: "serve_command ip sv c = (if n \<in> clients_of sv then Inr (sv, read_word (read_word c), [], Returned)
      else Inr (sv\<lparr>g_client_set := cs\<rparr>, read_word (read_word c), [], Running))"
    unfolding serve_command_def Let_def c1(1) if_P [OF refl] r2 set_contains_clients [OF assms(1,3)] trie_set_insert_def cs(1) by simp
  show ?thesis
  proof (cases "n \<in> clients_of sv")
    case True
    then show ?thesis using head assms(1) c2 by (auto simp: insert_absorb)
  next
    case False
    then show ?thesis using head cs c2 by auto
  qed
qed

lemma serve_newfile:
  assumes "server_inv sv" "stat_ok st" "ascii_key (fs_file_name st)" "length (stat_line st) \<le> 2047"
    and "length (cn_word c) = 128" "cn_stream c = ascii ''NEWFILE'' @ 0x20 # write_file_stat st @ s"
  shows "\<exists>sv' c'. serve_command ip sv c = Inr (sv', c', [], Running) \<and> server_inv sv' \<and> clients_of sv' = clients_of sv \<and>
    files_of sv' = (if fs_file_name st \<in> {ascii ''.'', ascii ''..''} then files_of sv
      else (files_of sv)(fs_file_name st := Some (st\<lparr>fs_host_name := ip\<rparr>))) \<and>
    cn_stream c' = s \<and> length (cn_word c') = 128 \<and> \<not> cn_eof c'"
proof -
  note c1 = read_command [OF command_words(2,5) assms(5,6)]
  have rd: "read_file_stat (cn_stream (read_word c)) = (Some st, s)"
    unfolding c1(3) read_file_stat_def using read_stat_line [OF assms(2)] assms(4) by (simp add: write_file_stat_def)
  obtain fs where fs: "trie_put (g_file_map sv) (c_string (fs_file_name st) []) (Some (st\<lparr>fs_host_name := ip\<rparr>)) = Inr fs"
    "server_inv (sv\<lparr>g_file_map := fs\<rparr>)" "clients_of (sv\<lparr>g_file_map := fs\<rparr>) = clients_of sv"
    "files_of (sv\<lparr>g_file_map := fs\<rparr>) = (files_of sv)(fs_file_name st := Some (st\<lparr>fs_host_name := ip\<rparr>))"
    using put_file [OF assms(1,3), of "Some (st\<lparr>fs_host_name := ip\<rparr>)" "[]"] by auto
  have head: "serve_command ip sv c = bindR (new_file ip st sv) (\<lambda>sv. Inr (sv, (read_word c)\<lparr>cn_stream := s\<rparr>, [], Running))"
    unfolding serve_command_def Let_def c1(1) rd using commands_differ by simp
  show ?thesis
  proof (cases "fs_file_name st \<in> {ascii ''.'', ascii ''..''}")
    case True
    then have "new_file ip st sv = Inr sv" unfolding new_file_def by auto
    then show ?thesis using head True assms(1) c1 by auto
  next
    case False
    then have "new_file ip st sv = Inr (sv\<lparr>g_file_map := fs\<rparr>)" unfolding new_file_def using fs(1) by simp
    then show ?thesis using head False fs c1 by auto
  qed
qed

lemma iterate_printitr: "iterate_values printitr sts out = Inr (out @ concat (map write_file_stat sts))"
  by (induction sts arbitrary: out) (simp_all add: printitr_def)

lemma serve_list:
  assumes "server_inv sv" "length (cn_word c) = 128" "cn_stream c = ascii ''LIST'' @ 0x0A # s"
  shows "\<exists>sts c'. serve_command ip sv c = Inr (sv, c', concat (map write_file_stat sts) @ ascii ''END'' @ [0x0A], Running) \<and>
    set sts = {st. files_of sv (fs_file_name st) = Some st} \<and>
    cn_stream c' = s \<and> length (cn_word c') = 128 \<and> \<not> cn_eof c'"
proof -
  note c1 = read_command [OF command_words(3,6) assms(2,3)]
  have "serve_command ip sv c = Inr (sv, read_word c, concat (map write_file_stat (lev2_values (g_file_map sv))) @ ascii ''END'' @ [0x0A], Running)"
    unfolding serve_command_def Let_def c1(1) trie_iterate_def iterate_printitr using commands_differ by simp
  moreover have "set (lev2_values (g_file_map sv)) = {st. files_of sv (fs_file_name st) = Some st}"
    using file_values [OF assms(1)] by auto
  ultimately show ?thesis using c1 by blast
qed

lemma serve_deregister:
  assumes "server_inv sv" "word_ok n" "ascii_key n" "length (cn_word c) = 128" "cn_stream c = ascii ''DEREGISTER'' @ 0x20 # n @ 0x0A # s"
  shows "\<exists>sv' c'. serve_command ip sv c = Inr (sv', c', [], StreamClosed) \<and> server_inv sv' \<and> clients_of sv' = clients_of sv - {n} \<and>
    files_of sv' = (\<lambda>k. case files_of sv k of None \<Rightarrow> None | Some st \<Rightarrow> if c_str (fs_owner st) = n then None else Some st)"
proof -
  note c1 = read_command [OF command_words(4,5) assms(4,5)]
  note c2 = read_command [OF assms(2) command_words(6) c1(2,3)]
  obtain r2 where r2: "cn_word (read_word (read_word c)) = c_string n r2" using c2(5) by blast
  obtain fs where fs: "deregister_files n (g_file_map sv) = Inr fs" "server_inv (sv\<lparr>g_file_map := fs\<rparr>)"
    "clients_of (sv\<lparr>g_file_map := fs\<rparr>) = clients_of sv"
    "files_of (sv\<lparr>g_file_map := fs\<rparr>) = (\<lambda>k. case files_of sv k of None \<Rightarrow> None | Some st \<Rightarrow> if c_str (fs_owner st) = n then None else Some st)"
    using deregister_files_ok [OF assms(1)] by blast
  obtain cs where cs: "trie_put (g_client_set sv) (c_string n r2) None = Inr cs" "server_inv (sv\<lparr>g_file_map := fs, g_client_set := cs\<rparr>)"
    "files_of (sv\<lparr>g_file_map := fs, g_client_set := cs\<rparr>) = files_of (sv\<lparr>g_file_map := fs\<rparr>)"
    "clients_of (sv\<lparr>g_file_map := fs, g_client_set := cs\<rparr>) = clients_of sv - {n}"
    using put_client [OF fs(2) assms(3), of r2 None] fs(3) by auto
  have eq: "\<lparr>g_file_map = fs, g_client_set = cs\<rparr> = sv\<lparr>g_file_map := fs, g_client_set := cs\<rparr>" by simp
  have "serve_command ip sv c = Inr (sv\<lparr>g_file_map := fs, g_client_set := cs\<rparr>, read_word (read_word c), [], StreamClosed)"
    unfolding serve_command_def Let_def c1(1) c2(1) r2 trie_set_remove_def using commands_differ fs(1) cs(1) c2(1) r2 eq by simp
  then show ?thesis using cs fs(4) by auto
qed


section \<open>Sessions\<close>

text \<open>The commands a client sends before it leaves, on the wire and as operations on the directory.\<close>

datatype command = Register "byte list" | NewFile file_stat | ListFiles

fun wire :: "command \<Rightarrow> byte list" where
  "wire (Register n) = ascii ''REGISTER'' @ 0x20 # n @ [0x0A]"
| "wire (NewFile st) = ascii ''NEWFILE'' @ 0x20 # write_file_stat st"
| "wire ListFiles = ascii ''LIST'' @ [0x0A]"

fun command_ok :: "command \<Rightarrow> bool" where
  "command_ok (Register n) \<longleftrightarrow> word_ok n \<and> ascii_key n"
| "command_ok (NewFile st) \<longleftrightarrow> stat_ok st \<and> ascii_key (fs_file_name st) \<and> length (stat_line st) \<le> 2047"
| "command_ok ListFiles \<longleftrightarrow> True"

type_synonym directory = "(byte list \<Rightarrow> file_stat option) \<times> byte list set"

fun session :: "byte list \<Rightarrow> directory \<Rightarrow> command list \<Rightarrow> directory" where
  "session ip d [] = d"
| "session ip (files, clients) (Register n # cs) =
     (if n \<in> clients then (files, clients) else session ip (files, insert n clients) cs)"
| "session ip (files, clients) (NewFile st # cs) =
     session ip (if fs_file_name st \<in> {ascii ''.'', ascii ''..''} then files
       else files(fs_file_name st \<mapsto> st\<lparr>fs_host_name := ip\<rparr>), clients) cs"
| "session ip (files, clients) (ListFiles # cs) = session ip (files, clients) cs"

lemma read_at_eof:
  assumes "length (cn_word c) = 128" "cn_stream c = []"
  shows "c_str (cn_word (read_word c)) = []" "cn_eof (read_word c)"
proof -
  have r: "read_word c = c\<lparr>cn_word := (cn_word c)[0 := 0], cn_stream := [], cn_eof := True\<rparr>"
    using assms by (simp add: read_word_def)
  have "(cn_word c)[0 := 0] = 0 # tl (cn_word c)" using assms(1) by (cases "cn_word c") auto
  then show "c_str (cn_word (read_word c)) = []" by (simp add: r c_str_def)
  show "cn_eof (read_word c)" by (simp add: r)
qed

lemma serve_eof:
  assumes "length (cn_word c) = 128" "cn_stream c = []"
  shows "\<exists>c'. serve_command ip sv c = Inr (sv, c', [], Running) \<and> cn_eof c'"
  using read_at_eof [OF assms] by (simp add: serve_command_def Let_def)

lemma connection_loop_step:
  assumes "\<not> cn_eof c" "serve_command ip sv c = Inr (sv', c', w, st)"
  shows "connection_loop ip sv c out = (case st of Returned \<Rightarrow> Inr (sv', out @ w) | StreamClosed \<Rightarrow> Inl UseAfterFree
    | Running \<Rightarrow> connection_loop ip sv' c' (out @ w))"
  using assms by (simp add: connection_loop.simps [of ip sv c])

lemma loop_session:
  "server_inv sv \<Longrightarrow> list_all command_ok cs \<Longrightarrow> length (cn_word c) = 128 \<Longrightarrow> cn_stream c = concat (map wire cs) \<Longrightarrow> \<not> cn_eof c \<Longrightarrow>
    \<exists>sv' out'. connection_loop ip sv c out = Inr (sv', out') \<and> server_inv sv' \<and>
      (files_of sv', clients_of sv') = session ip (files_of sv, clients_of sv) cs"
proof (induction cs arbitrary: sv c out)
  case Nil
  obtain c' where c': "serve_command ip sv c = Inr (sv, c', [], Running)" "cn_eof c'"
    using serve_eof [OF Nil.prems(3)] Nil.prems(4) by auto
  then show ?case
    using connection_loop_step [OF Nil.prems(5) c'(1)] Nil.prems(1) by (simp add: connection_loop.simps [of ip sv c'])
next
  case (Cons cmd cs)
  let ?s = "concat (map wire cs)"
  show ?case
  proof (cases cmd)
    case (Register n)
    have "cn_stream c = ascii ''REGISTER'' @ 0x20 # n @ 0x0A # ?s" using Cons.prems(4) Register by simp
    from serve_register [OF Cons.prems(1) _ _ Cons.prems(3) this, of ip] Cons.prems(2) Register obtain sv' c' where
      c': "serve_command ip sv c = Inr (sv', c', [], if n \<in> clients_of sv then Returned else Running)" "server_inv sv'"
      "files_of sv' = files_of sv" "clients_of sv' = insert n (clients_of sv)" "cn_stream c' = ?s" "length (cn_word c') = 128" "\<not> cn_eof c'"
      by auto
    show ?thesis
    proof (cases "n \<in> clients_of sv")
      case True
      then show ?thesis using connection_loop_step [OF Cons.prems(5) c'(1)] c' Register by (auto simp: insert_absorb)
    next
      case False
      then show ?thesis
        using connection_loop_step [OF Cons.prems(5) c'(1), of out] c' Register Cons.IH [OF c'(2) _ c'(6,5,7), of out] Cons.prems(2) by auto
    qed
  next
    case (NewFile st)
    have "cn_stream c = ascii ''NEWFILE'' @ 0x20 # write_file_stat st @ ?s" using Cons.prems(4) NewFile by simp
    from serve_newfile [OF Cons.prems(1) _ _ _ Cons.prems(3) this, of ip] Cons.prems(2) NewFile obtain sv' c' where
      c': "serve_command ip sv c = Inr (sv', c', [], Running)" "server_inv sv'" "clients_of sv' = clients_of sv"
      "files_of sv' = (if fs_file_name st \<in> {ascii ''.'', ascii ''..''} then files_of sv
        else (files_of sv)(fs_file_name st := Some (st\<lparr>fs_host_name := ip\<rparr>)))" "cn_stream c' = ?s" "length (cn_word c') = 128" "\<not> cn_eof c'"
      by auto
    from Cons.IH [OF c'(2) _ c'(6,5,7), of out] Cons.prems(2) obtain sv2 out2 where
      "connection_loop ip sv' c' out = Inr (sv2, out2)" "server_inv sv2" "(files_of sv2, clients_of sv2) = session ip (files_of sv', clients_of sv') cs" by auto
    then show ?thesis
      using connection_loop_step [OF Cons.prems(5) c'(1), of out] NewFile unfolding c'(3,4) by simp
  next
    case ListFiles
    have "cn_stream c = ascii ''LIST'' @ 0x0A # ?s" using Cons.prems(4) ListFiles by simp
    from serve_list [OF Cons.prems(1,3) this, of ip] obtain w c' where
      c': "serve_command ip sv c = Inr (sv, c', w, Running)" "cn_stream c' = ?s" "length (cn_word c') = 128" "\<not> cn_eof c'" by auto
    from Cons.IH [OF Cons.prems(1) _ c'(3,2,4), of "out @ w"] Cons.prems(2) show ?thesis
      using connection_loop_step [OF Cons.prems(5) c'(1), of out] ListFiles by auto
  qed
qed

section \<open>Properties\<close>

definition bob :: "byte list" where "bob = [98, 111, 98]"
definition localhost :: "byte list" where "localhost = [49, 50, 55, 46, 48, 46, 48, 46, 49]"

lemma bob_ok: "word_ok bob" "ascii_key bob"
  by (simp_all add: bob_def word_ok_def isspace_def ascii_key_def)

lemma example_stat_key: "ascii_key (fs_file_name example_stat)" "c_str (fs_owner example_stat) = bob" "fs_file_name example_stat = [97, 46, 99]"
  by (simp_all add: example_stat_def ascii_key_def bob_def c_str_def)



text \<open>
  \<^verbatim>\<open>LIST\<close> answers with the line of every file in the directory, and of nothing else, and then the
  end marker; the directory stays as it is.
\<close>

lemma server_list:
  assumes "server_inv sv" "length (cn_word c) = 128" "cn_stream c = ascii ''LIST'' @ 0x0A # s"
  shows "\<exists>sts c'. serve_command ip sv c = Inr (sv, c', concat (map write_file_stat sts) @ ascii ''END'' @ [0x0A], Running) \<and>
    set sts = {st. files_of sv (fs_file_name st) = Some st} \<and> cn_stream c' = s"
  using serve_list [OF assms] by blast

lemma server_list_example:
  "\<exists>sts c'. serve_command localhost new_server \<lparr>cn_word = replicate 128 0, cn_stream = ascii ''LIST'' @ [0x0A], cn_eof = False\<rparr> =
     Inr (new_server, c', concat (map write_file_stat sts) @ ascii ''END'' @ [0x0A], Running) \<and> set sts = {}"
  using server_list [OF new_server_inv(1), of "\<lparr>cn_word = replicate 128 0, cn_stream = ascii ''LIST'' @ [0x0A], cn_eof = False\<rparr>" "[]" localhost]
  by (auto simp: new_server_inv)

text \<open>
  \<^verbatim>\<open>DEREGISTER\<close> takes out exactly the files whose owner has the given name, and the name itself;
  the files of other owners stay.
\<close>

lemma server_deregister:
  assumes "server_inv sv" "word_ok n" "ascii_key n" "length (cn_word c) = 128"
    and "cn_stream c = ascii ''DEREGISTER'' @ 0x20 # n @ 0x0A # s"
  shows "\<exists>sv' c'. serve_command ip sv c = Inr (sv', c', [], StreamClosed) \<and> server_inv sv' \<and> clients_of sv' = clients_of sv - {n} \<and>
    files_of sv' = (\<lambda>k. case files_of sv k of None \<Rightarrow> None | Some st \<Rightarrow> if c_str (fs_owner st) = n then None else Some st)"
  by (rule serve_deregister [OF assms])

text \<open>A server that has the example file of bob.\<close>

lemma example_server:
  "\<exists>sv. server_inv sv \<and> clients_of sv = {bob} \<and> files_of sv = [[97, 46, 99] \<mapsto> example_stat\<lparr>fs_host_name := localhost\<rparr>]"
proof -
  have "list_all command_ok [Register bob, NewFile example_stat]"
    using bob_ok example_stat_ok example_stat_key by simp
  from loop_session [OF new_server_inv(1) this, of "\<lparr>cn_word = replicate 128 0, cn_stream = concat (map wire [Register bob, NewFile example_stat]), cn_eof = False\<rparr>" localhost "[]"]
  show ?thesis by (auto simp: new_server_inv example_stat_key)
qed

lemma server_deregister_example:
  "\<exists>sv sv' c'. files_of sv [97, 46, 99] \<noteq> None \<and> bob \<in> clients_of sv \<and>
     serve_command localhost sv \<lparr>cn_word = replicate 128 0, cn_stream = ascii ''DEREGISTER'' @ 0x20 # bob @ [0x0A], cn_eof = False\<rparr> = Inr (sv', c', [], StreamClosed) \<and>
     files_of sv' [97, 46, 99] = None \<and> clients_of sv' = {}"
proof -
  obtain sv where sv: "server_inv sv" "clients_of sv = {bob}" "files_of sv = [[97, 46, 99] \<mapsto> example_stat\<lparr>fs_host_name := localhost\<rparr>]"
    using example_server by blast
  from server_deregister [OF sv(1) bob_ok, of "\<lparr>cn_word = replicate 128 0, cn_stream = ascii ''DEREGISTER'' @ 0x20 # bob @ [0x0A], cn_eof = False\<rparr>" "[]" localhost]
  obtain sv' c' where "serve_command localhost sv \<lparr>cn_word = replicate 128 0, cn_stream = ascii ''DEREGISTER'' @ 0x20 # bob @ [0x0A], cn_eof = False\<rparr> = Inr (sv', c', [], StreamClosed)"
    "clients_of sv' = {}" "files_of sv' = (\<lambda>k. case files_of sv k of None \<Rightarrow> None | Some st \<Rightarrow> if c_str (fs_owner st) = bob then None else Some st)"
    using sv(2) by auto
  then show ?thesis using sv(2,3) example_stat_key(2) by (intro exI [of _ sv] exI [of _ sv'] exI [of _ c']) simp
qed

text \<open>
  After \<^verbatim>\<open>DEREGISTER\<close> the callback does not return: it goes on to test the end of file indicator of
  the stream it has just closed, which is freed memory.
\<close>

lemma deregister_uses_closed_stream:
  assumes "server_inv sv" "word_ok n" "ascii_key n" "length junk = 128"
  shows "connection_callback ip junk sv (ascii ''DEREGISTER'' @ 0x20 # n @ 0x0A # s) = Inl UseAfterFree"
proof -
  let ?c = "\<lparr>cn_word = junk, cn_stream = ascii ''DEREGISTER'' @ 0x20 # n @ 0x0A # s, cn_eof = False\<rparr>"
  obtain sv' c' where "serve_command ip sv ?c = Inr (sv', c', [], StreamClosed)"
    using serve_deregister [OF assms(1-3), of ?c s ip] assms(4) by auto
  then show ?thesis using connection_loop_step [of ?c ip sv] by (simp add: connection_callback_def)
qed

lemma deregister_uses_closed_stream_example:
  "connection_callback localhost (replicate 128 0) new_server (ascii ''DEREGISTER'' @ 0x20 # bob @ [0x0A]) = Inl UseAfterFree"
  using deregister_uses_closed_stream [OF new_server_inv(1) bob_ok, of "replicate 128 0" localhost "[]"] by simp

text \<open>
  A posted record with an empty file name makes the server read behind the string it has just
  copied, and a name with a byte from 128 on behind its first character makes it index before an
  array of the trie.
\<close>

lemma server_bad_names:
  assumes "root_wf (g_file_map sv)"
    and "fs_file_name st = [] \<or> (\<exists>a b cs. fs_file_name st = a # b # cs \<and> a \<noteq> 0 \<and> 128 \<le> unat b)"
  shows "new_file ip st sv = Inl OutOfBounds"
proof -
  note put = trie_put_bad [OF assms(1)]
  have e: "trie_put (g_file_map sv) (c_string [] []) v = Inl OutOfBounds" for v using put [of 1 128 "[]" v] by simp
  have dots: "fs_file_name st \<noteq> ascii ''.'' \<and> fs_file_name st \<noteq> ascii ''..''" using assms(2) by auto
  from assms(2) show ?thesis
  proof
    assume "fs_file_name st = []"
    then show ?thesis using dots e unfolding new_file_def by simp
  next
    assume "\<exists>a b cs. fs_file_name st = a # b # cs \<and> a \<noteq> 0 \<and> 128 \<le> unat b"
    then obtain a b cs where "fs_file_name st = a # b # cs" "a \<noteq> 0" "128 \<le> unat b" by blast
    then have "trie_put (g_file_map sv) (c_string (fs_file_name st) []) v = Inl OutOfBounds" for v
      using put [of a b "cs @ [0]" v] by (simp add: c_string_def)
    then show ?thesis using dots unfolding new_file_def by simp
  qed
qed

lemma server_bad_names_example:
  "new_file localhost (example_stat\<lparr>fs_file_name := []\<rparr>) new_server = Inl OutOfBounds"
  using server_bad_names [of new_server "example_stat\<lparr>fs_file_name := []\<rparr>" localhost] by (simp add: new_server_def new_trie_wf)

end
