(* ===== verification/ServerThreads.thy ===== *)
theory ServerThreads
  imports ServerProps Runs
begin

text \<open>
  The directory server with all its connections (\<^verbatim>\<open>PA4/server.c\<close>): one thread per accepted
  connection, as \<open>start_server_socket\<close> creates them, on the two shared tries.  A step is what a
  thread does up to the release of the next mutex it takes: the work on its own stream and one of the
  operations \<open>trie_put_safe\<close>, \<open>trie_iterate_safe\<close>, \<open>trie_set_contains_safe\<close>, \<open>trie_set_insert_safe\<close>
  and \<open>trie_set_remove_safe\<close>.  So a registration takes two steps, and so does a deregistration.
  The specification is the same system over a map of files and a set of names, with clients that
  work through a list of commands; the server simulates it step by step.
\<close>

section \<open>Threads\<close>

text \<open>
  Where a thread stands: before \<open>inet_ntoa\<close>, before the test of the loop, before the insertion of a
  name it has not found, before the removal of a name whose files are gone, returned, or back at the
  test of the loop with the stream closed.
\<close>

datatype pc = AtStart | AtLoop | AtInsert | AtRemove | AtReturn | AtClosed

record thread =
  th_pc :: pc
  th_ip :: "byte list"
  th_conn :: conn
  th_out :: "byte list"

text \<open>
  \<open>host\<close>: the string that \<^verbatim>\<open>ipasstr\<close> points to now.  The word of a thread that is between its two
  operations is still in its buffer.
\<close>

definition thread_command :: "byte list \<Rightarrow> server \<Rightarrow> conn \<Rightarrow> (server \<times> conn \<times> byte list \<times> pc) result" where
  "thread_command host sv c =
     (let c = read_word c; word = c_str (cn_word c) in
      if word = ascii ''REGISTER'' then
        let c = read_word c in
        bindR (trie_set_contains (g_client_set sv) (cn_word c)) (\<lambda>known.
        Inr (sv, c, [], if known then AtReturn else AtInsert))
      else if word = ascii ''NEWFILE'' then
        (case read_file_stat (cn_stream c) of
           (None, s) \<Rightarrow> Inr (sv, c\<lparr>cn_stream := s\<rparr>, [], AtLoop)
         | (Some tmp, s) \<Rightarrow>
             bindR (new_file host tmp sv) (\<lambda>sv. Inr (sv, c\<lparr>cn_stream := s\<rparr>, [], AtLoop)))
      else if word = ascii ''LIST'' then
        bindR (trie_iterate (g_file_map sv) printitr []) (\<lambda>out.
        Inr (sv, c, out @ ascii ''END'' @ [0x0A], AtLoop))
      else if word = ascii ''DEREGISTER'' then
        let c = read_word c in
        bindR (deregister_files (c_str (cn_word c)) (g_file_map sv)) (\<lambda>files.
        Inr (sv\<lparr>g_file_map := files\<rparr>, c, [], AtRemove))
      else Inr (sv, c, [], AtLoop))"

definition thread_step :: "byte list \<Rightarrow> server \<Rightarrow> thread \<Rightarrow> (server \<times> thread) result" where
  "thread_step host sv th =
     (case th_pc th of
        AtStart \<Rightarrow> Inr (sv, th\<lparr>th_pc := AtLoop\<rparr>)
      | AtLoop \<Rightarrow>
          if cn_eof (th_conn th) then Inr (sv, th\<lparr>th_pc := AtReturn\<rparr>)
          else bindR (thread_command host sv (th_conn th)) (\<lambda>(sv, c, w, p).
               Inr (sv, th\<lparr>th_pc := p, th_conn := c, th_out := th_out th @ w\<rparr>))
      | AtInsert \<Rightarrow>
          bindR (trie_set_insert (g_client_set sv) (cn_word (th_conn th))) (\<lambda>clients.
          Inr (sv\<lparr>g_client_set := clients\<rparr>, th\<lparr>th_pc := AtLoop\<rparr>))
      | AtRemove \<Rightarrow>
          bindR (trie_set_remove (g_client_set sv) (cn_word (th_conn th))) (\<lambda>clients.
          Inr (sv\<lparr>g_client_set := clients\<rparr>, th\<lparr>th_pc := AtClosed\<rparr>))
      | AtReturn \<Rightarrow> Inr (sv, th)
      | AtClosed \<Rightarrow> Inl UseAfterFree)"

section \<open>The process\<close>

text \<open>
  \<open>ss_ntoa\<close>: the buffer of \<open>inet_ntoa\<close>.  POSIX allows it to be one for the process, which the
  parameter \<open>shared\<close> says; otherwise every thread has its own.
\<close>

record server_sys =
  ss_server :: server
  ss_ntoa :: "byte list"
  ss_threads :: "thread list"

definition new_thread :: "byte list \<Rightarrow> byte list \<Rightarrow> byte list \<Rightarrow> thread" where
  "new_thread ip junk s =
     \<lparr>th_pc = AtStart, th_ip = ip, th_conn = \<lparr>cn_word = junk, cn_stream = s, cn_eof = False\<rparr>, th_out = []\<rparr>"

definition host_of :: "bool \<Rightarrow> byte list \<Rightarrow> byte list \<Rightarrow> byte list" where
  "host_of shared ntoa ip = (if shared then ntoa else ip)"

definition run_thread :: "bool \<Rightarrow> nat \<Rightarrow> server_sys \<Rightarrow> server_sys result" where
  "run_thread shared i S =
     (let th = ss_threads S ! i in
      bindR (thread_step (host_of shared (ss_ntoa S) (th_ip th)) (ss_server S) th) (\<lambda>(sv, th').
      Inr (S\<lparr>ss_server := sv, ss_ntoa := (if th_pc th = AtStart then th_ip th else ss_ntoa S),
             ss_threads := (ss_threads S)[i := th']\<rparr>)))"

text \<open>What happens: a connection is accepted, or a thread makes a step.\<close>

datatype sys_event = Accept "byte list" "byte list" "byte list" | Run nat

inductive sys_step :: "bool \<Rightarrow> server_sys \<Rightarrow> sys_event \<Rightarrow> server_sys \<Rightarrow> bool"
  for shared :: bool
where
  sys_accept: "sys_step shared S (Accept ip junk s) (S\<lparr>ss_threads := ss_threads S @ [new_thread ip junk s]\<rparr>)"
| sys_run: "i < length (ss_threads S) \<Longrightarrow> run_thread shared i S = Inr S' \<Longrightarrow> sys_step shared S (Run i) S'"

definition start_sys :: server_sys where
  "start_sys = \<lparr>ss_server = new_server, ss_ntoa = [], ss_threads = []\<rparr>"

abbreviation sys_runs :: "bool \<Rightarrow> sys_event list \<Rightarrow> server_sys \<Rightarrow> bool" where
  "sys_runs shared \<equiv> runs (sys_step shared) start_sys"

section \<open>One thread alone\<close>

text \<open>
  A command that no other thread interrupts is the command as \<open>serve_command\<close> has it: one step, or
  two for those that have a second operation.
\<close>

definition finish_command :: "server \<times> conn \<times> byte list \<times> pc \<Rightarrow> (server \<times> conn \<times> byte list \<times> conn_status) result" where
  "finish_command x =
     (case x of (sv, c, w, p) \<Rightarrow>
        case p of
          AtInsert \<Rightarrow> bindR (trie_set_insert (g_client_set sv) (cn_word c)) (\<lambda>cs. Inr (sv\<lparr>g_client_set := cs\<rparr>, c, w, Running))
        | AtRemove \<Rightarrow> bindR (trie_set_remove (g_client_set sv) (cn_word c)) (\<lambda>cs. Inr (sv\<lparr>g_client_set := cs\<rparr>, c, w, StreamClosed))
        | AtReturn \<Rightarrow> Inr (sv, c, w, Returned)
        | _ \<Rightarrow> Inr (sv, c, w, Running))"

lemma bindR_if: "bindR (if b then x else y) f = (if b then bindR x f else bindR y f)"
  by simp

lemma serve_command_is_steps:
  "serve_command ip sv c = bindR (thread_command ip sv c) finish_command"
proof -
  have rem: "\<lparr>g_file_map = fs, g_client_set = cs\<rparr> = sv\<lparr>g_file_map := fs, g_client_set := cs\<rparr>" for fs cs by simp
  show ?thesis
    unfolding serve_command_def thread_command_def Let_def bindR_if rem
    by (auto simp: bindR_assoc finish_command_def bindR_def [of "trie_set_contains _ _"]
        split: prod.splits option.splits sum.splits intro!: arg_cong2 [of _ _ _ _ bindR])
qed

end
