(* ===== verification/ServerThreadsProps.thy ===== *)
theory ServerThreadsProps
  imports ServerThreads
begin

text \<open>
  The specification of the server with many connections, and the simulation: clients work through
  their commands on a map of files and a set of names, one operation at a time in any order.
\<close>

section \<open>Specification\<close>

text \<open>What a client sends: commands, and at last perhaps the deregistration of a name.\<close>

type_synonym plan = "command list \<times> byte list option"

abbreviation name_ok :: "byte list \<Rightarrow> bool" where
  "name_ok n \<equiv> word_ok n \<and> ascii_key n"

definition plan_ok :: "plan \<Rightarrow> bool" where
  "plan_ok p \<longleftrightarrow> list_all command_ok (fst p) \<and> (case snd p of None \<Rightarrow> True | Some n \<Rightarrow> name_ok n)"

definition plan_stream :: "plan \<Rightarrow> byte list \<Rightarrow> bool" where
  "plan_stream p s \<longleftrightarrow>
     (case snd p of None \<Rightarrow> s = concat (map wire (fst p))
      | Some n \<Rightarrow> \<exists>rest. s = concat (map wire (fst p)) @ ascii ''DEREGISTER'' @ 0x20 # n @ 0x0A # rest)"

datatype agent = Starting plan | Serving plan | Inserting "byte list" plan | Leaving "byte list" | EndSeen | Ended | Dangling

definition post_file :: "byte list \<Rightarrow> file_stat \<Rightarrow> (byte list \<Rightarrow> file_stat option) \<Rightarrow> byte list \<Rightarrow> file_stat option" where
  "post_file host st files =
     (if fs_file_name st \<in> {ascii ''.'', ascii ''..''} then files else files(fs_file_name st \<mapsto> st\<lparr>fs_host_name := host\<rparr>))"

definition drop_owner :: "byte list \<Rightarrow> (byte list \<Rightarrow> file_stat option) \<Rightarrow> byte list \<Rightarrow> file_stat option" where
  "drop_owner n files =
     (\<lambda>k. case files k of None \<Rightarrow> None | Some st \<Rightarrow> if c_str (fs_owner st) = n then None else Some st)"

definition is_listing :: "(byte list \<Rightarrow> file_stat option) \<Rightarrow> byte list \<Rightarrow> bool" where
  "is_listing files out \<longleftrightarrow>
     (\<exists>sts. set sts = {st. files (fs_file_name st) = Some st} \<and>
        out = concat (map write_file_stat sts) @ ascii ''END'' @ [0x0A])"

inductive spec_thread :: "byte list \<Rightarrow> directory \<Rightarrow> agent \<Rightarrow> byte list \<Rightarrow> directory \<Rightarrow> agent \<Rightarrow> bool"
  for host :: "byte list"
where
  sp_start: "spec_thread host d (Starting p) [] d (Serving p)"
| sp_known: "n \<in> clients \<Longrightarrow> spec_thread host (files, clients) (Serving (Register n # cs, lv)) [] (files, clients) Ended"
| sp_unknown: "n \<notin> clients \<Longrightarrow>
    spec_thread host (files, clients) (Serving (Register n # cs, lv)) [] (files, clients) (Inserting n (cs, lv))"
| sp_insert: "spec_thread host (files, clients) (Inserting n p) [] (files, insert n clients) (Serving p)"
| sp_post: "spec_thread host (files, clients) (Serving (NewFile st # cs, lv)) [] (post_file host st files, clients) (Serving (cs, lv))"
| sp_list: "is_listing files out \<Longrightarrow>
    spec_thread host (files, clients) (Serving (ListFiles # cs, lv)) out (files, clients) (Serving (cs, lv))"
| sp_leave: "spec_thread host (files, clients) (Serving ([], Some n)) [] (drop_owner n files, clients) (Leaving n)"
| sp_remove: "spec_thread host (files, clients) (Leaving n) [] (files, clients - {n}) Dangling"
| sp_eof: "spec_thread host d (Serving ([], None)) [] d EndSeen"
| sp_end: "spec_thread host d EndSeen [] d Ended"
| sp_ended: "spec_thread host d Ended [] d Ended"

text \<open>A client of the specification: its address, where it stands, what was written to it.\<close>

record spec_sys =
  sp_dir :: directory
  sp_ntoa :: "byte list"
  sp_agents :: "(byte list \<times> agent \<times> byte list) list"

inductive spec_step :: "bool \<Rightarrow> spec_sys \<Rightarrow> sys_event \<Rightarrow> spec_sys \<Rightarrow> bool"
  for shared :: bool
where
  spec_accept: "plan_ok p \<Longrightarrow> plan_stream p s \<Longrightarrow>
    spec_step shared P (Accept ip junk s) (P\<lparr>sp_agents := sp_agents P @ [(ip, Starting p, [])]\<rparr>)"
| spec_run: "i < length (sp_agents P) \<Longrightarrow> sp_agents P ! i = (ip, ag, out) \<Longrightarrow>
    spec_thread (host_of shared (sp_ntoa P) ip) (sp_dir P) ag w d ag' \<Longrightarrow>
    spec_step shared P (Run i)
      \<lparr>sp_dir = d, sp_ntoa = (case ag of Starting _ \<Rightarrow> ip | _ \<Rightarrow> sp_ntoa P), sp_agents = (sp_agents P)[i := (ip, ag', out @ w)]\<rparr>"

definition start_spec :: spec_sys where
  "start_spec = \<lparr>sp_dir = (Map.empty, {}), sp_ntoa = [], sp_agents = []\<rparr>"

abbreviation spec_runs :: "bool \<Rightarrow> sys_event list \<Rightarrow> spec_sys \<Rightarrow> bool" where
  "spec_runs shared \<equiv> runs (spec_step shared) start_spec"

section \<open>Simulation\<close>

definition dir_of :: "server \<Rightarrow> directory" where
  "dir_of sv = (files_of sv, clients_of sv)"

definition conn_sim :: "conn \<Rightarrow> plan \<Rightarrow> bool" where
  "conn_sim c p \<longleftrightarrow> length (cn_word c) = 128 \<and> \<not> cn_eof c \<and> plan_ok p \<and> plan_stream p (cn_stream c)"

definition word_sim :: "conn \<Rightarrow> byte list \<Rightarrow> bool" where
  "word_sim c n \<longleftrightarrow> name_ok n \<and> (\<exists>r. cn_word c = c_string n r)"

definition stage_sim :: "pc \<Rightarrow> conn \<Rightarrow> agent \<Rightarrow> bool" where
  "stage_sim q c ag =
     (case ag of
        Starting p \<Rightarrow> q = AtStart \<and> conn_sim c p
      | Serving p \<Rightarrow> q = AtLoop \<and> conn_sim c p
      | Inserting n p \<Rightarrow> q = AtInsert \<and> conn_sim c p \<and> word_sim c n
      | Leaving n \<Rightarrow> q = AtRemove \<and> word_sim c n
      | EndSeen \<Rightarrow> q = AtLoop \<and> cn_eof c
      | Ended \<Rightarrow> q = AtReturn
      | Dangling \<Rightarrow> q = AtClosed)"

abbreviation thread_sim :: "thread \<Rightarrow> agent \<Rightarrow> bool" where
  "thread_sim th ag \<equiv> stage_sim (th_pc th) (th_conn th) ag"

text \<open>Commands with one operation are steps of \<open>serve_command\<close>.\<close>

lemma thread_command_single:
  assumes "c_str (cn_word (read_word c)) \<noteq> ascii ''REGISTER''" "c_str (cn_word (read_word c)) \<noteq> ascii ''DEREGISTER''"
    and "serve_command host sv c = Inr (sv', c', w, st)"
  shows "thread_command host sv c = Inr (sv', c', w, AtLoop)"
  using assms unfolding serve_command_def thread_command_def Let_def
  by (auto simp: bindR_eq_Inr split: if_splits prod.splits option.splits)

lemma step_newfile:
  assumes "server_inv sv" "conn_sim c (NewFile st # cs, lv)"
  shows "\<exists>sv' c'. thread_command host sv c = Inr (sv', c', [], AtLoop) \<and> server_inv sv' \<and>
    dir_of sv' = (post_file host st (files_of sv), clients_of sv) \<and> conn_sim c' (cs, lv)"
proof -
  obtain s where s: "cn_stream c = ascii ''NEWFILE'' @ 0x20 # write_file_stat st @ s" "plan_stream (cs, lv) s"
    using assms(2) by (cases lv) (auto simp: conn_sim_def plan_stream_def)
  have ok: "stat_ok st" "ascii_key (fs_file_name st)" "length (stat_line st) \<le> 2047" "length (cn_word c) = 128" "plan_ok (cs, lv)"
    using assms(2) by (auto simp: conn_sim_def plan_ok_def)
  note c1 = read_command [OF command_words(2,5) ok(4) s(1)]
  obtain sv' c' where c': "serve_command host sv c = Inr (sv', c', [], Running)" "server_inv sv'" "clients_of sv' = clients_of sv"
    "files_of sv' = post_file host st (files_of sv)" "cn_stream c' = s" "length (cn_word c') = 128" "\<not> cn_eof c'"
    using serve_newfile [OF assms(1) ok(1-4) s(1), of host] unfolding post_file_def by blast
  have "thread_command host sv c = Inr (sv', c', [], AtLoop)"
    by (rule thread_command_single [OF _ _ c'(1)]) (simp_all add: c1(1) commands_differ)
  with c' s(2) ok(5) show ?thesis by (auto simp: dir_of_def conn_sim_def)
qed

lemma step_list:
  assumes "server_inv sv" "conn_sim c (ListFiles # cs, lv)"
  shows "\<exists>w c'. thread_command host sv c = Inr (sv, c', w, AtLoop) \<and> is_listing (files_of sv) w \<and> conn_sim c' (cs, lv)"
proof -
  obtain s where s: "cn_stream c = ascii ''LIST'' @ 0x0A # s" "plan_stream (cs, lv) s"
    using assms(2) by (cases lv) (auto simp: conn_sim_def plan_stream_def)
  have ok: "length (cn_word c) = 128" "plan_ok (cs, lv)" using assms(2) by (auto simp: conn_sim_def plan_ok_def)
  note c1 = read_command [OF command_words(3,6) ok(1) s(1)]
  obtain sts c' where c': "serve_command host sv c = Inr (sv, c', concat (map write_file_stat sts) @ ascii ''END'' @ [0x0A], Running)"
    "set sts = {st. files_of sv (fs_file_name st) = Some st}" "cn_stream c' = s" "length (cn_word c') = 128" "\<not> cn_eof c'"
    using serve_list [OF assms(1) ok(1) s(1), of host] by blast
  have "thread_command host sv c = Inr (sv, c', concat (map write_file_stat sts) @ ascii ''END'' @ [0x0A], AtLoop)"
    by (rule thread_command_single [OF _ _ c'(1)]) (simp_all add: c1(1) commands_differ)
  moreover have "is_listing (files_of sv) (concat (map write_file_stat sts) @ ascii ''END'' @ [0x0A])"
    unfolding is_listing_def using c'(2) by blast
  moreover have "conn_sim c' (cs, lv)" using c'(3-5) s(2) ok(2) by (simp add: conn_sim_def)
  ultimately show ?thesis by blast
qed

lemma step_register:
  assumes "server_inv sv" "conn_sim c (Register n # cs, lv)"
  shows "\<exists>c'. thread_command host sv c = Inr (sv, c', [], if n \<in> clients_of sv then AtReturn else AtInsert) \<and>
    conn_sim c' (cs, lv) \<and> word_sim c' n"
proof -
  obtain s where s: "cn_stream c = ascii ''REGISTER'' @ 0x20 # n @ 0x0A # s" "plan_stream (cs, lv) s"
    using assms(2) by (cases lv) (auto simp: conn_sim_def plan_stream_def)
  have ok: "length (cn_word c) = 128" "plan_ok (cs, lv)" "word_ok n" "ascii_key n"
    using assms(2) by (auto simp: conn_sim_def plan_ok_def)
  note c1 = read_command [OF command_words(1,5) ok(1) s(1)]
  note c2 = read_command [OF ok(3) command_words(6) c1(2,3)]
  obtain r where r: "cn_word (read_word (read_word c)) = c_string n r" using c2(5) by blast
  have "thread_command host sv c = Inr (sv, read_word (read_word c), [], if n \<in> clients_of sv then AtReturn else AtInsert)"
    unfolding thread_command_def Let_def c1(1) if_P [OF refl] r set_contains_clients [OF assms(1) ok(4)] by simp
  moreover have "conn_sim (read_word (read_word c)) (cs, lv)" using c2 s(2) ok(2) by (simp add: conn_sim_def)
  moreover have "word_sim (read_word (read_word c)) n" using r ok(3,4) by (auto simp: word_sim_def)
  ultimately show ?thesis by blast
qed

lemma step_leave:
  assumes "server_inv sv" "conn_sim c ([], Some n)"
  shows "\<exists>sv' c'. thread_command host sv c = Inr (sv', c', [], AtRemove) \<and> server_inv sv' \<and>
    dir_of sv' = (drop_owner n (files_of sv), clients_of sv) \<and> word_sim c' n"
proof -
  obtain s where s: "cn_stream c = ascii ''DEREGISTER'' @ 0x20 # n @ 0x0A # s"
    using assms(2) by (auto simp: conn_sim_def plan_stream_def)
  have ok: "length (cn_word c) = 128" "word_ok n" "ascii_key n" using assms(2) by (auto simp: conn_sim_def plan_ok_def)
  note c1 = read_command [OF command_words(4,5) ok(1) s]
  note c2 = read_command [OF ok(2) command_words(6) c1(2,3)]
  obtain fs where fs: "deregister_files n (g_file_map sv) = Inr fs" "server_inv (sv\<lparr>g_file_map := fs\<rparr>)"
    "clients_of (sv\<lparr>g_file_map := fs\<rparr>) = clients_of sv" "files_of (sv\<lparr>g_file_map := fs\<rparr>) = drop_owner n (files_of sv)"
    using deregister_files_ok [OF assms(1), of n] unfolding drop_owner_def by blast
  have "thread_command host sv c = Inr (sv\<lparr>g_file_map := fs\<rparr>, read_word (read_word c), [], AtRemove)"
    unfolding thread_command_def Let_def c1(1) c2(1) fs(1) using commands_differ by simp
  moreover have "word_sim (read_word (read_word c)) n" using c2(5) ok(2,3) by (auto simp: word_sim_def)
  ultimately show ?thesis using fs(2-4) by (auto simp: dir_of_def)
qed

lemma step_eof:
  assumes "conn_sim c ([], None)"
  shows "\<exists>c'. thread_command host sv c = Inr (sv, c', [], AtLoop) \<and> cn_eof c'"
  using read_at_eof [of c] assms by (auto simp: conn_sim_def plan_stream_def thread_command_def Let_def)

text \<open>Every command is a step of its client.\<close>

lemma thread_command_sim:
  assumes "server_inv sv" "conn_sim c p"
  shows "\<exists>sv' c' w q ag. thread_command host sv c = Inr (sv', c', w, q) \<and> server_inv sv' \<and>
    spec_thread host (dir_of sv) (Serving p) w (dir_of sv') ag \<and> stage_sim q c' ag"
proof (cases p)
  case (Pair cs lv)
  show ?thesis
  proof (cases cs)
    case Nil
    show ?thesis
    proof (cases lv)
      case None
      with step_eof [of c host sv] assms Pair Nil obtain c' where
        "thread_command host sv c = Inr (sv, c', [], AtLoop)" "stage_sim AtLoop c' EndSeen" by (auto simp: stage_sim_def)
      with assms(1) show ?thesis unfolding Pair Nil None by (blast intro: sp_eof)
    next
      case (Some n)
      with step_leave [OF assms(1), of c n host] assms(2) Pair Nil obtain sv' c' where
        "thread_command host sv c = Inr (sv', c', [], AtRemove)" "server_inv sv'"
        "dir_of sv' = (drop_owner n (files_of sv), clients_of sv)" "stage_sim AtRemove c' (Leaving n)" by (auto simp: stage_sim_def)
      then show ?thesis unfolding Pair Nil Some dir_of_def [of sv] by (metis sp_leave)
    qed
  next
    case (Cons cmd cs')
    show ?thesis
    proof (cases cmd)
      case (Register n)
      with step_register [OF assms(1), of c n cs' lv host] assms(2) Pair Cons obtain c' where
        c': "thread_command host sv c = Inr (sv, c', [], if n \<in> clients_of sv then AtReturn else AtInsert)"
        "stage_sim (if n \<in> clients_of sv then AtReturn else AtInsert) c' (if n \<in> clients_of sv then Ended else Inserting n (cs', lv))"
        by (auto simp: stage_sim_def)
      have "spec_thread host (dir_of sv) (Serving p) [] (dir_of sv) (if n \<in> clients_of sv then Ended else Inserting n (cs', lv))"
        by (simp add: Pair Cons Register dir_of_def sp_known sp_unknown)
      with c' assms(1) show ?thesis by blast
    next
      case (NewFile st)
      with step_newfile [OF assms(1), of c st cs' lv host] assms(2) Pair Cons obtain sv' c' where
        "thread_command host sv c = Inr (sv', c', [], AtLoop)" "server_inv sv'"
        "dir_of sv' = (post_file host st (files_of sv), clients_of sv)" "stage_sim AtLoop c' (Serving (cs', lv))" by (auto simp: stage_sim_def)
      then show ?thesis unfolding Pair Cons NewFile dir_of_def [of sv] by (metis sp_post)
    next
      case ListFiles
      with step_list [OF assms(1), of c cs' lv host] assms(2) Pair Cons obtain w c' where
        "thread_command host sv c = Inr (sv, c', w, AtLoop)" "is_listing (files_of sv) w" "stage_sim AtLoop c' (Serving (cs', lv))"
        by (auto simp: stage_sim_def)
      with assms(1) show ?thesis unfolding Pair Cons ListFiles dir_of_def by (blast intro: sp_list)
    qed
  qed
qed

text \<open>Every step of a thread whose stream is open is a step of its client.\<close>

lemma insert_step_sim:
  assumes "server_inv sv" "thread_sim th (Inserting n p)"
  shows "\<exists>sv' th'. thread_step host sv th = Inr (sv', th') \<and> server_inv sv' \<and> th_ip th' = th_ip th \<and> th_out th' = th_out th \<and>
    spec_thread host (dir_of sv) (Inserting n p) [] (dir_of sv') (Serving p) \<and> thread_sim th' (Serving p)"
proof -
  obtain r where r: "th_pc th = AtInsert" "conn_sim (th_conn th) p" "cn_word (th_conn th) = c_string n r" "ascii_key n"
    using assms(2) by (auto simp: stage_sim_def word_sim_def)
  obtain cs where cs: "trie_put (g_client_set sv) (c_string n r) (Some ()) = Inr cs" "server_inv (sv\<lparr>g_client_set := cs\<rparr>)"
    "dir_of (sv\<lparr>g_client_set := cs\<rparr>) = (files_of sv, insert n (clients_of sv))"
    using put_client [OF assms(1) r(4), of r "Some ()"] by (auto simp: dir_of_def)
  have "thread_step host sv th = Inr (sv\<lparr>g_client_set := cs\<rparr>, th\<lparr>th_pc := AtLoop\<rparr>)"
    by (simp add: thread_step_def r trie_set_insert_def cs(1))
  then show ?thesis using cs(2,3) r(2) by (simp add: stage_sim_def dir_of_def [of sv] sp_insert)
qed

lemma remove_step_sim:
  assumes "server_inv sv" "thread_sim th (Leaving n)"
  shows "\<exists>sv' th'. thread_step host sv th = Inr (sv', th') \<and> server_inv sv' \<and> th_ip th' = th_ip th \<and> th_out th' = th_out th \<and>
    spec_thread host (dir_of sv) (Leaving n) [] (dir_of sv') Dangling \<and> thread_sim th' Dangling"
proof -
  obtain r where r: "th_pc th = AtRemove" "cn_word (th_conn th) = c_string n r" "ascii_key n"
    using assms(2) by (auto simp: stage_sim_def word_sim_def)
  obtain cs where cs: "trie_put (g_client_set sv) (c_string n r) None = Inr cs" "server_inv (sv\<lparr>g_client_set := cs\<rparr>)"
    "dir_of (sv\<lparr>g_client_set := cs\<rparr>) = (files_of sv, clients_of sv - {n})"
    using put_client [OF assms(1) r(3), of r None] by (auto simp: dir_of_def)
  have "thread_step host sv th = Inr (sv\<lparr>g_client_set := cs\<rparr>, th\<lparr>th_pc := AtClosed\<rparr>)"
    by (simp add: thread_step_def r trie_set_remove_def cs(1))
  then show ?thesis using cs(2,3) by (simp add: stage_sim_def dir_of_def [of sv] sp_remove)
qed

lemma serving_step_sim:
  assumes "server_inv sv" "thread_sim th (Serving p)"
  shows "\<exists>sv' th' w ag. thread_step host sv th = Inr (sv', th') \<and> server_inv sv' \<and> th_ip th' = th_ip th \<and>
    th_out th' = th_out th @ w \<and> spec_thread host (dir_of sv) (Serving p) w (dir_of sv') ag \<and> thread_sim th' ag"
proof -
  have th: "th_pc th = AtLoop" "conn_sim (th_conn th) p" "\<not> cn_eof (th_conn th)"
    using assms(2) by (auto simp: stage_sim_def conn_sim_def)
  obtain sv' c' w q ag where c': "thread_command host sv (th_conn th) = Inr (sv', c', w, q)" "server_inv sv'"
    "spec_thread host (dir_of sv) (Serving p) w (dir_of sv') ag" "stage_sim q c' ag"
    using thread_command_sim [OF assms(1) th(2)] by blast
  then have "thread_step host sv th = Inr (sv', th\<lparr>th_pc := q, th_conn := c', th_out := th_out th @ w\<rparr>)"
    using th by (simp add: thread_step_def)
  with c'(2-4) show ?thesis
    by (intro exI [of _ sv'] exI [of _ "th\<lparr>th_pc := q, th_conn := c', th_out := th_out th @ w\<rparr>"] exI [of _ w] exI [of _ ag]) simp
qed

lemma thread_step_sim:
  assumes "server_inv sv" "thread_sim th ag" "ag \<noteq> Dangling"
  shows "\<exists>sv' th' w ag'. thread_step host sv th = Inr (sv', th') \<and> server_inv sv' \<and> th_ip th' = th_ip th \<and>
    th_out th' = th_out th @ w \<and> spec_thread host (dir_of sv) ag w (dir_of sv') ag' \<and> thread_sim th' ag'"
proof (cases ag)
  case (Starting p)
  then show ?thesis using assms(1,2) by (auto simp: stage_sim_def thread_step_def intro!: exI [of _ "Serving p"] sp_start)
next
  case (Inserting n p)
  with insert_step_sim [OF assms(1), of th n p host] assms(2) show ?thesis by fastforce
next
  case (Leaving n)
  with remove_step_sim [OF assms(1), of th n host] assms(2) show ?thesis by fastforce
next
  case EndSeen
  then show ?thesis using assms(1,2) by (auto simp: stage_sim_def thread_step_def intro!: exI [of _ Ended] sp_end)
next
  case Ended
  then show ?thesis using assms(1,2) by (auto simp: stage_sim_def thread_step_def intro!: exI [of _ Ended] sp_ended)
next
  case (Serving p)
  with serving_step_sim [OF assms(1), of th p host] assms(2) show ?thesis by simp
qed (use assms(3) in simp)

section \<open>The whole process\<close>

definition slot_sim :: "thread \<Rightarrow> byte list \<times> agent \<times> byte list \<Rightarrow> bool" where
  "slot_sim th x \<longleftrightarrow> fst x = th_ip th \<and> thread_sim th (fst (snd x)) \<and> snd (snd x) = th_out th"

definition sys_sim :: "server_sys \<Rightarrow> spec_sys \<Rightarrow> bool" where
  "sys_sim S P \<longleftrightarrow> server_inv (ss_server S) \<and> sp_dir P = dir_of (ss_server S) \<and> sp_ntoa P = ss_ntoa S \<and>
     list_all2 slot_sim (ss_threads S) (sp_agents P)"

text \<open>A connection of a well-behaved client.\<close>

definition client_event :: "sys_event \<Rightarrow> bool" where
  "client_event e =
     (case e of Accept ip junk s \<Rightarrow> length junk = 128 \<and> (\<exists>p. plan_ok p \<and> plan_stream p s) | Run i \<Rightarrow> True)"

lemma stage_start: "stage_sim q c ag \<Longrightarrow> q = AtStart \<longleftrightarrow> (\<exists>p. ag = Starting p)"
  by (cases ag) (auto simp: stage_sim_def)

lemma stage_closed: "stage_sim q c ag \<Longrightarrow> q = AtClosed \<longleftrightarrow> ag = Dangling"
  by (cases ag) (auto simp: stage_sim_def)

lemma accept_sim:
  assumes "sys_sim S P" "client_event (Accept ip junk s)"
  shows "\<exists>P'. spec_step shared P (Accept ip junk s) P' \<and> sys_sim (S\<lparr>ss_threads := ss_threads S @ [new_thread ip junk s]\<rparr>) P'"
proof -
  obtain p where p: "plan_ok p" "plan_stream p s" "length junk = 128" using assms(2) by (auto simp: client_event_def)
  then have "slot_sim (new_thread ip junk s) (ip, Starting p, [])"
    by (simp add: slot_sim_def new_thread_def stage_sim_def conn_sim_def)
  with assms(1) have "sys_sim (S\<lparr>ss_threads := ss_threads S @ [new_thread ip junk s]\<rparr>) (P\<lparr>sp_agents := sp_agents P @ [(ip, Starting p, [])]\<rparr>)"
    by (auto simp: sys_sim_def intro: list_all2_appendI)
  with spec_accept [OF p(1,2)] show ?thesis by blast
qed

lemma run_sim:
  assumes "sys_sim S P" "i < length (ss_threads S)" "th_pc (ss_threads S ! i) \<noteq> AtClosed"
  shows "\<exists>S' P'. run_thread shared i S = Inr S' \<and> spec_step shared P (Run i) P' \<and> sys_sim S' P'"
proof -
  let ?th = "ss_threads S ! i"
  have inv: "server_inv (ss_server S)" and all: "list_all2 slot_sim (ss_threads S) (sp_agents P)"
    and eqs: "sp_dir P = dir_of (ss_server S)" "sp_ntoa P = ss_ntoa S" using assms(1) by (auto simp: sys_sim_def)
  have i: "i < length (sp_agents P)" using all assms(2) by (simp add: list_all2_lengthD)
  have slot: "slot_sim ?th (sp_agents P ! i)" using all assms(2) by (rule list_all2_nthD)
  obtain ag where ag: "sp_agents P ! i = (th_ip ?th, ag, th_out ?th)" "thread_sim ?th ag"
    using slot by (cases "sp_agents P ! i") (auto simp: slot_sim_def)
  let ?h = "host_of shared (ss_ntoa S) (th_ip ?th)"
  let ?n = "if th_pc ?th = AtStart then th_ip ?th else ss_ntoa S"
  from thread_step_sim [OF inv ag(2), of ?h] stage_closed [OF ag(2)] assms(3) obtain sv' th' w ag' where
    st: "thread_step ?h (ss_server S) ?th = Inr (sv', th')" "server_inv sv'" "th_ip th' = th_ip ?th" "th_out th' = th_out ?th @ w"
    "spec_thread ?h (dir_of (ss_server S)) ag w (dir_of sv') ag'" "thread_sim th' ag'" by blast
  have n: "?n = (case ag of Starting _ \<Rightarrow> th_ip ?th | _ \<Rightarrow> ss_ntoa S)"
    using stage_start [OF ag(2)] by (cases ag) auto
  have "run_thread shared i S = Inr (S\<lparr>ss_server := sv', ss_ntoa := ?n, ss_threads := (ss_threads S)[i := th']\<rparr>)"
    by (simp add: run_thread_def Let_def st(1))
  moreover have "spec_step shared P (Run i) \<lparr>sp_dir = dir_of sv', sp_ntoa = ?n, sp_agents = (sp_agents P)[i := (th_ip ?th, ag', th_out ?th @ w)]\<rparr>"
    using spec_run [OF i ag(1), of shared w "dir_of sv'" ag'] st(5) unfolding eqs n by simp
  moreover have "slot_sim th' (th_ip ?th, ag', th_out ?th @ w)" using st(3,4,6) by (simp add: slot_sim_def)
  then have "sys_sim (S\<lparr>ss_server := sv', ss_ntoa := ?n, ss_threads := (ss_threads S)[i := th']\<rparr>)
      \<lparr>sp_dir = dir_of sv', sp_ntoa = ?n, sp_agents = (sp_agents P)[i := (th_ip ?th, ag', th_out ?th @ w)]\<rparr>"
    using st(2) all by (simp add: sys_sim_def list_all2_update_cong)
  ultimately show ?thesis by blast
qed

lemma run_thread_closed: "th_pc (ss_threads S ! i) = AtClosed \<Longrightarrow> run_thread shared i S = Inl UseAfterFree"
  by (simp add: run_thread_def Let_def thread_step_def)

lemma sys_step_sim:
  assumes "sys_step shared S e S'" "client_event e" "sys_sim S P"
  shows "\<exists>P'. spec_step shared P e P' \<and> sys_sim S' P'"
  using assms(1)
proof cases
  case (sys_accept ip junk s)
  with accept_sim [OF assms(3)] assms(2) show ?thesis by simp
next
  case (sys_run i)
  then have "th_pc (ss_threads S ! i) \<noteq> AtClosed" using run_thread_closed by fastforce
  with run_sim [OF assms(3) sys_run(2), of shared] sys_run(1,3) show ?thesis by auto
qed

interpretation directory: forward_simulation "sys_step shared" "spec_step shared" sys_sim client_event for shared
  by unfold_locales (rule sys_step_sim)

lemma start_sim: "sys_sim start_sys start_spec"
  by (simp add: sys_sim_def start_sys_def start_spec_def new_server_inv dir_of_def)

section \<open>Where the files come from\<close>

text \<open>What the client at an address has announced it will post.\<close>

definition offered :: "sys_event list \<Rightarrow> byte list \<Rightarrow> file_stat \<Rightarrow> bool" where
  "offered es ip st \<longleftrightarrow>
     (\<exists>junk s p. Accept ip junk s \<in> set es \<and> plan_ok p \<and> plan_stream p s \<and> NewFile st \<in> set (fst p))"

fun to_post :: "agent \<Rightarrow> command list" where
  "to_post (Starting p) = fst p"
| "to_post (Serving p) = fst p"
| "to_post (Inserting n p) = fst p"
| "to_post _ = []"

definition origin_inv :: "sys_event list \<Rightarrow> spec_sys \<Rightarrow> bool" where
  "origin_inv es P \<longleftrightarrow>
     (\<forall>k st. fst (sp_dir P) k = Some st \<longrightarrow> (\<exists>ip st0. offered es ip st0 \<and> k = fs_file_name st0 \<and> st = st0\<lparr>fs_host_name := ip\<rparr>)) \<and>
     (\<forall>(ip, ag, out) \<in> set (sp_agents P). \<forall>st. NewFile st \<in> set (to_post ag) \<longrightarrow> offered es ip st)"

lemma offered_mono: "offered es ip st \<Longrightarrow> offered (es @ fs) ip st"
  by (auto simp: offered_def)

lemma spec_thread_origin:
  assumes "spec_thread host d ag w d' ag'"
  shows "set (to_post ag') \<subseteq> set (to_post ag) \<and>
    (\<forall>k st. fst d' k = Some st \<longrightarrow> fst d k = Some st \<or>
       (\<exists>st0. NewFile st0 \<in> set (to_post ag) \<and> k = fs_file_name st0 \<and> st = st0\<lparr>fs_host_name := host\<rparr>))"
  using assms by cases (auto simp: post_file_def drop_owner_def split: if_splits option.splits)

lemma origin_inv_later: "origin_inv es P \<Longrightarrow> origin_inv (es @ fs) P"
  unfolding origin_inv_def by (fast intro: offered_mono)

lemma origin_invD:
  "origin_inv es P \<Longrightarrow> fst (sp_dir P) k = Some st \<Longrightarrow> \<exists>ip st0. offered es ip st0 \<and> k = fs_file_name st0 \<and> st = st0\<lparr>fs_host_name := ip\<rparr>"
  "origin_inv es P \<Longrightarrow> (ip, ag, out) \<in> set (sp_agents P) \<Longrightarrow> NewFile st \<in> set (to_post ag) \<Longrightarrow> offered es ip st"
  unfolding origin_inv_def by auto

lemma origin_step:
  assumes "spec_step False P e P'" "origin_inv es P"
  shows "origin_inv (es @ [e]) P'"
proof -
  have inv: "origin_inv (es @ [e]) P" by (rule origin_inv_later [OF assms(2)])
  from assms(1) show ?thesis
  proof cases
    case (spec_accept p s ip junk)
    have "offered (es @ [e]) ip st" if "NewFile st \<in> set (fst p)" for st
      unfolding offered_def using that spec_accept by (intro exI [of _ junk] exI [of _ s] exI [of _ p]) simp
    then show ?thesis using inv unfolding origin_inv_def spec_accept(2) by auto
  next
    case (spec_run i ip ag out w d ag')
    have mem: "(ip, ag, out) \<in> set (sp_agents P)" using spec_run(3,4) nth_mem by metis
    note th = spec_thread_origin [OF spec_run(5)]
    have files: "\<exists>ip st0. offered (es @ [e]) ip st0 \<and> k = fs_file_name st0 \<and> st = st0\<lparr>fs_host_name := ip\<rparr>" if "fst d k = Some st" for k st
      using th that origin_invD(1) [OF inv] origin_invD(2) [OF inv mem] unfolding host_of_def by (metis (full_types))
    have "offered (es @ [e]) ip' st"
      if "(ip', ag2, out2) \<in> set ((sp_agents P)[i := (ip, ag', out @ w)])" "NewFile st \<in> set (to_post ag2)" for ip' ag2 out2 st
      using that set_update_subset_insert [of "sp_agents P" i "(ip, ag', out @ w)"] th origin_invD(2) [OF inv] mem
      by blast
    with files show ?thesis unfolding origin_inv_def spec_run(2) by auto
  qed
qed

interpretation origin: run_invariant "spec_step False" origin_inv
  by unfold_locales (rule origin_step)

lemma origin_start: "origin_inv [] start_spec"
  by (simp add: origin_inv_def start_spec_def)

section \<open>Runs from the start\<close>

text \<open>The process can be in a state of the specification after the events.\<close>

definition reaches :: "bool \<Rightarrow> sys_event list \<Rightarrow> spec_sys \<Rightarrow> bool" where
  "reaches shared es P \<longleftrightarrow> (\<exists>S. sys_runs shared es S \<and> sys_sim S P)"

lemma reaches_start: "reaches shared [] start_spec"
  unfolding reaches_def
  using start_sim run_start [of "sys_step shared" start_sys] by blast

text \<open>Only the order of a listing is open.\<close>

fun at_list :: "agent \<Rightarrow> bool" where
  "at_list (Serving (ListFiles # cs, lv)) = True"
| "at_list _ = False"

lemma spec_thread_det:
  "spec_thread h d ag w1 d1 a1 \<Longrightarrow> spec_thread h d ag w2 d2 a2 \<Longrightarrow> \<not> at_list ag \<Longrightarrow> w2 = w1 \<and> d2 = d1 \<and> a2 = a1"
  by (induction rule: spec_thread.induct) (auto elim: spec_thread.cases)

lemma reaches_accept:
  assumes "reaches shared es P" "plan_ok p" "plan_stream p s" "length junk = 128"
  shows "reaches shared (es @ [Accept ip junk s]) (P\<lparr>sp_agents := sp_agents P @ [(ip, Starting p, [])]\<rparr>)"
proof -
  obtain S where S: "sys_runs shared es S" "sys_sim S P" using assms(1) by (auto simp: reaches_def)
  have "slot_sim (new_thread ip junk s) (ip, Starting p, [])"
    using assms(2-4) by (simp add: slot_sim_def new_thread_def stage_sim_def conn_sim_def)
  then have "sys_sim (S\<lparr>ss_threads := ss_threads S @ [new_thread ip junk s]\<rparr>) (P\<lparr>sp_agents := sp_agents P @ [(ip, Starting p, [])]\<rparr>)"
    using S(2) by (auto simp: sys_sim_def intro: list_all2_appendI)
  then show ?thesis using run_step [OF S(1) sys_accept] by (auto simp: reaches_def)
qed

lemma reaches_run:
  assumes "reaches shared es P" "i < length (sp_agents P)" "sp_agents P ! i = (ip, ag, out)"
    and "spec_thread (host_of shared (sp_ntoa P) ip) (sp_dir P) ag w d ag'" "\<not> at_list ag"
  shows "reaches shared (es @ [Run i])
    \<lparr>sp_dir = d, sp_ntoa = (case ag of Starting _ \<Rightarrow> ip | _ \<Rightarrow> sp_ntoa P), sp_agents = (sp_agents P)[i := (ip, ag', out @ w)]\<rparr>"
proof -
  obtain S where S: "sys_runs shared es S" "sys_sim S P" using assms(1) by (auto simp: reaches_def)
  then have all: "list_all2 slot_sim (ss_threads S) (sp_agents P)" by (simp add: sys_sim_def)
  then have len: "i < length (ss_threads S)" using assms(2) by (simp add: list_all2_lengthD)
  have "thread_sim (ss_threads S ! i) ag" using list_all2_nthD [OF all len] assms(3) by (simp add: slot_sim_def)
  moreover have "ag \<noteq> Dangling" using assms(4) by (auto elim: spec_thread.cases)
  ultimately have "th_pc (ss_threads S ! i) \<noteq> AtClosed" by (simp add: stage_closed)
  from run_sim [OF S(2) len this, of shared] obtain S' P' where
    S': "run_thread shared i S = Inr S'" "spec_step shared P (Run i) P'" "sys_sim S' P'" by blast
  from S'(2) have "P' = \<lparr>sp_dir = d, sp_ntoa = (case ag of Starting _ \<Rightarrow> ip | _ \<Rightarrow> sp_ntoa P), sp_agents = (sp_agents P)[i := (ip, ag', out @ w)]\<rparr>"
    by cases (use assms(3,5) spec_thread_det [OF assms(4)] in auto)
  with S'(3) run_step [OF S(1) sys_run [OF len S'(1)]] show ?thesis by (auto simp: reaches_def)
qed

section \<open>Properties\<close>


text \<open>Two clients.\<close>

abbreviation pair :: "directory \<Rightarrow> byte list \<Rightarrow> byte list \<times> agent \<times> byte list \<Rightarrow> byte list \<times> agent \<times> byte list \<Rightarrow> spec_sys" where
  "pair d ntoa x y \<equiv> \<lparr>sp_dir = d, sp_ntoa = ntoa, sp_agents = [x, y]\<rparr>"

lemma reaches_pair:
  assumes "plan_ok p" "plan_stream p s" "plan_ok q" "plan_stream q t" "length junk = 128"
  shows "reaches shared [Accept ip1 junk s, Accept ip2 junk t] (pair (Map.empty, {}) [] (ip1, Starting p, []) (ip2, Starting q, []))"
  using reaches_accept [OF reaches_accept [OF reaches_start assms(1,2,5), of shared ip1] assms(3-5), of ip2]
  by (simp add: start_spec_def)

lemma reaches_first:
  assumes "reaches shared es (pair d ntoa (ip, ag, out) y)" "\<not> at_list ag" "spec_thread (host_of shared ntoa ip) d ag w d' ag'"
    and "ntoa' = (case ag of Starting _ \<Rightarrow> ip | _ \<Rightarrow> ntoa)"
  shows "reaches shared (es @ [Run 0]) (pair d' ntoa' (ip, ag', out @ w) y)"
  using reaches_run [OF assms(1), of 0 ip ag out w d' ag'] assms(2-4) by (cases ag) simp_all

lemma reaches_second:
  assumes "reaches shared es (pair d ntoa x (ip, ag, out))" "\<not> at_list ag" "spec_thread (host_of shared ntoa ip) d ag w d' ag'"
    and "ntoa' = (case ag of Starting _ \<Rightarrow> ip | _ \<Rightarrow> ntoa)"
  shows "reaches shared (es @ [Run 1]) (pair d' ntoa' x (ip, ag', out @ w))"
  using reaches_run [OF assms(1), of 1 ip ag out w d' ag'] assms(2-4) by (cases ag) simp_all

text \<open>What the process of two clients is like then.\<close>

lemma reaches_pairD:
  assumes "reaches shared es (pair d ntoa (ip1, ag1, out1) (ip2, ag2, out2))"
  shows "\<exists>S th1 th2. sys_runs shared es S \<and> ss_threads S = [th1, th2] \<and> thread_sim th1 ag1 \<and> thread_sim th2 ag2 \<and>
    (files_of (ss_server S), clients_of (ss_server S)) = d"
  using assms by (auto simp: reaches_def sys_sim_def dir_of_def slot_sim_def list_all2_Cons2)

text \<open>Two clients that register the same name.\<close>

abbreviation two_registers :: "byte list \<Rightarrow> byte list \<Rightarrow> byte list \<Rightarrow> byte list \<Rightarrow> sys_event list" where
  "two_registers ip1 ip2 junk n \<equiv> [Accept ip1 junk (wire (Register n)), Accept ip2 junk (wire (Register n))]"

lemma register_plan:
  "name_ok n \<Longrightarrow> plan_ok ([Register n], None)" "plan_stream ([Register n], None) (wire (Register n))"
  by (simp_all add: plan_ok_def plan_stream_def)

lemma two_registers_started:
  assumes "name_ok n" "length junk = 128"
  shows "reaches shared (two_registers ip1 ip2 junk n @ [Run 0, Run 1])
    (pair (Map.empty, {}) ip2 (ip1, Serving ([Register n], None), []) (ip2, Serving ([Register n], None), []))"
proof -
  note r0 = reaches_pair [OF register_plan(1) [OF assms(1)] register_plan(2) register_plan(1) [OF assms(1)] register_plan(2) assms(2)]
  note r1 = reaches_first [OF r0 _ sp_start refl, simplified]
  note r2 = reaches_second [OF r1 _ sp_start refl, simplified]
  from r2 show ?thesis by simp
qed

lemma registers_interleaved:
  assumes "name_ok n" "length junk = 128"
  shows "reaches shared (two_registers ip1 ip2 junk n @ [Run 0, Run 1, Run 0, Run 1, Run 0, Run 1])
    (pair (Map.empty, {n}) ip2 (ip1, Serving ([], None), []) (ip2, Serving ([], None), []))"
proof -
  note r1 = reaches_first [OF two_registers_started [OF assms] _ sp_unknown refl, simplified]
  note r2 = reaches_second [OF r1 _ sp_unknown refl, simplified]
  note r3 = reaches_first [OF r2 _ sp_insert refl, simplified]
  note r4 = reaches_second [OF r3 _ sp_insert refl, simplified]
  from r4 show ?thesis by simp
qed

lemma registers_in_turn:
  assumes "name_ok n" "length junk = 128"
  shows "reaches shared (two_registers ip1 ip2 junk n @ [Run 0, Run 1, Run 0, Run 0, Run 1])
    (pair (Map.empty, {n}) ip2 (ip1, Serving ([], None), []) (ip2, Ended, []))"
proof -
  note r1 = reaches_first [OF two_registers_started [OF assms] _ sp_unknown refl, simplified]
  note r2 = reaches_first [OF r1 _ sp_insert refl, simplified]
  note r3 = reaches_second [OF r2 _ sp_known refl, simplified]
  from r3 show ?thesis by simp
qed

text \<open>
  C35. The check for a name and its insertion are two operations: when two clients register the same
  name and both look for it before either inserts it, both are served on, under one name; when one
  is served before the other, the second is refused.
\<close>

theorem register_race:
  assumes "name_ok n" "length junk = 128"
  shows "(\<exists>S. sys_runs shared (two_registers ip1 ip2 junk n @ [Run 0, Run 1, Run 0, Run 1, Run 0, Run 1]) S \<and>
      map th_pc (ss_threads S) = [AtLoop, AtLoop] \<and> clients_of (ss_server S) = {n}) \<and>
    (\<exists>S. sys_runs shared (two_registers ip1 ip2 junk n @ [Run 0, Run 1, Run 0, Run 0, Run 1]) S \<and>
      map th_pc (ss_threads S) = [AtLoop, AtReturn] \<and> clients_of (ss_server S) = {n})"
  using reaches_pairD [OF registers_interleaved [OF assms, of shared ip1 ip2]] reaches_pairD [OF registers_in_turn [OF assms, of shared ip1 ip2]]
  by (fastforce simp: stage_sim_def)

theorem register_race_witness:
  "\<exists>S. sys_runs False (two_registers localhost [49] (replicate 128 0) bob @ [Run 0, Run 1, Run 0, Run 1, Run 0, Run 1]) S \<and>
     map th_pc (ss_threads S) = [AtLoop, AtLoop] \<and> clients_of (ss_server S) = {bob}"
  using register_race [of bob "replicate 128 0" False localhost "[49]"] bob_ok by simp


text \<open>
  C17. Where \<open>inet_ntoa\<close> gives every thread a buffer of its own, the directory holds only files that
  some client has posted, under their own names and with the address of that client: no
  interleaving mixes up two connections.
\<close>

theorem posted_files_origin:
  assumes "sys_runs False es S" "list_all client_event es" "files_of (ss_server S) k = Some st"
  shows "\<exists>ip st0. offered es ip st0 \<and> k = fs_file_name st0 \<and> st = st0\<lparr>fs_host_name := ip\<rparr>"
proof -
  obtain P where P: "sys_sim S P" "origin_inv es P"
    using directory.sim_invariant [OF origin.run_invariant_axioms assms(1) start_sim assms(2) origin_start] by blast
  then have "fst (sp_dir P) k = Some st" using assms(3) by (simp add: sys_sim_def dir_of_def)
  then show ?thesis by (rule origin_invD(1) [OF P(2)])
qed

text \<open>A client that posts the example file, and one that does nothing.\<close>

abbreviation poster :: "byte list \<Rightarrow> byte list \<Rightarrow> byte list \<Rightarrow> sys_event list" where
  "poster ip1 ip2 junk \<equiv> [Accept ip1 junk (wire (NewFile example_stat)), Accept ip2 junk []]"

lemma poster_plans:
  "plan_ok ([NewFile example_stat], None)" "plan_stream ([NewFile example_stat], None) (wire (NewFile example_stat))"
  "plan_ok ([], None)" "plan_stream ([], None) []"
  using example_stat_ok example_stat_key by (simp_all add: plan_ok_def plan_stream_def)

lemma poster_reaches:
  assumes "length junk = 128"
  shows "reaches shared (poster ip1 ip2 junk @ [Run 0, Run 1, Run 0])
    (pair (post_file (host_of shared ip2 ip1) example_stat Map.empty, {}) ip2 (ip1, Serving ([], None), []) (ip2, Serving ([], None), []))"
proof -
  note r0 = reaches_pair [OF poster_plans assms]
  note r1 = reaches_first [OF r0 _ sp_start refl, simplified]
  note r2 = reaches_second [OF r1 _ sp_start refl, simplified]
  note r3 = reaches_first [OF r2 _ sp_post refl, simplified]
  from r3 show ?thesis by simp
qed

lemma poster_runs:
  assumes "length junk = 128"
  shows "\<exists>S. sys_runs shared (poster ip1 ip2 junk @ [Run 0, Run 1, Run 0]) S \<and>
    files_of (ss_server S) [97, 46, 99] = Some (example_stat\<lparr>fs_host_name := host_of shared ip2 ip1\<rparr>)"
  using reaches_pairD [OF poster_reaches [OF assms, of shared ip1 ip2]] example_stat_key by (fastforce simp: post_file_def)

lemma poster_events: "length junk = 128 \<Longrightarrow> list_all client_event (poster ip1 ip2 junk @ [Run 0, Run 1, Run 0])"
  unfolding client_event_def using poster_plans by (simp del: wire.simps) blast

theorem posted_files_origin_witness:
  "\<exists>es S ip st0. sys_runs False es S \<and> offered es ip st0 \<and>
     files_of (ss_server S) [97, 46, 99] = Some (st0\<lparr>fs_host_name := ip\<rparr>)"
proof -
  obtain S where S: "sys_runs False (poster localhost [49] (replicate 128 0) @ [Run 0, Run 1, Run 0]) S"
    "files_of (ss_server S) [97, 46, 99] = Some (example_stat\<lparr>fs_host_name := localhost\<rparr>)"
    using poster_runs [of "replicate 128 0" False localhost "[49]"] by (auto simp: host_of_def)
  from posted_files_origin [OF S(1) poster_events S(2)] S show ?thesis by fastforce
qed

text \<open>
  With one buffer for the process, which POSIX allows, a file is listed with the address of the
  client that connected last: other clients then ask the wrong host for it.
\<close>

lemma shared_ntoa_wrong_host:
  "\<exists>S. sys_runs True (poster ip1 ip2 (replicate 128 0) @ [Run 0, Run 1, Run 0]) S \<and>
     map_option fs_host_name (files_of (ss_server S) [97, 46, 99]) = Some ip2"
  using poster_runs [of "replicate 128 0" True ip1 ip2] by (auto simp: host_of_def)

end
