(* ===== verification/Client.thy ===== *)
theory Client
  imports TrieMap FileStatProps Server
begin

text \<open>
  The client of the file sharing system: its state machine (\<^verbatim>\<open>PA4/client_state_machine.c\<close>) and the
  thread that serves files to other clients (\<^verbatim>\<open>PA4/client.c\<close>).  A state of the machine is a
  function pointer in the code and a constructor here.  What the system yields (the lines the user
  types, the directory, connections, the bytes of a peer) is an argument.
\<close>

section \<open>State\<close>

datatype client_state = InitState | PostFiles | WaitForInput | ListFilesState | ExitClient

record client =
  cl_name :: "byte list"
  cl_files :: "file_stat trie_lev2"
  cl_stream :: "byte list"
  cl_sent :: "byte list"

section \<open>Posting\<close>

definition write_str :: "byte list \<Rightarrow> client \<Rightarrow> client" where
  "write_str s cli = cli\<lparr>cl_sent := cl_sent cli @ s\<rparr>"

text \<open>\<^verbatim>\<open>snprintf\<close> into a buffer of the given size.\<close>

definition snprintf_to :: "nat \<Rightarrow> byte list \<Rightarrow> byte list" where
  "snprintf_to sz s = take (sz - 1) s"

definition init_state :: "client \<Rightarrow> client \<times> client_state option" where
  "init_state cli =
     (let cli = write_str (snprintf_to 1024 (ascii ''REGISTER '' @ c_str (cl_name cli) @ [0x0A])) cli
      in (cli\<lparr>cl_files := new_lev2\<rparr>, Some PostFiles))"

definition write_stats :: "byte list \<Rightarrow> u64 \<Rightarrow> u16 \<Rightarrow> client \<Rightarrow> client" where
  "write_stats filename st_size port cli =
     (let cli = write_str (ascii ''NEWFILE '') cli in
      write_str (write_file_stat \<lparr>fs_file_name = filename, fs_file_size = st_size, fs_owner = cl_name cli,
        fs_host_name = [], fs_port = port\<rparr>) cli)"

text \<open>The entries of the directory, with their sizes if \<^verbatim>\<open>stat\<close> succeeds; \<open>None\<close>: it cannot be opened.\<close>

fun post_entries :: "(byte list \<times> u64 option) list \<Rightarrow> u16 \<Rightarrow> client \<Rightarrow> client" where
  "post_entries [] port cli = cli"
| "post_entries ((name, sz) # es) port cli =
     post_entries es port (case sz of None \<Rightarrow> cli | Some n \<Rightarrow> write_stats name n port cli)"

definition post_files :: "(byte list \<times> u64 option) list option \<Rightarrow> u16 \<Rightarrow> client \<Rightarrow> client \<times> client_state option" where
  "post_files dir port cli =
     ((case dir of None \<Rightarrow> cli | Some es \<Rightarrow> post_entries es port cli), Some WaitForInput)"

section \<open>Listing\<close>

lemma read_stat_tail_strict: "read_stat_tail nm s = Inr (st, q) \<Longrightarrow> length q < length s"
proof -
  have strict: "read_number stop n s = Inr (m, False, q) \<Longrightarrow> length q < length s" for stop n s m q
    by (induction stop n s rule: read_number.induct) (auto split: if_splits)
  assume "read_stat_tail nm s = Inr (st, q)"
  then show ?thesis
    unfolding read_stat_tail_def
    by (auto simp: bindR_eq_Inr split: if_splits dest!: strict dest: read_number_shorter(1) read_colon_shorter(1))
      (meson le_less_trans less_le_trans order_trans read_colon_shorter(1) read_number_shorter(1) strict)
qed

lemma read_file_stat_end_strict: "read_file_stat_end s = (Some st, e, q) \<Longrightarrow> length q < length s"
  unfolding read_file_stat_end_def
  by (auto split: field_end.splits sum.splits prod.splits dest!: read_stat_tail_strict read_name_shorter)

text \<open>The loop stores each record before it reads the next one.\<close>

function list_loop :: "file_stat trie_lev2 \<Rightarrow> byte list \<Rightarrow> (file_stat trie_lev2 \<times> byte list) result" where
  "list_loop files s =
     (case read_file_stat_end s of
        (None, _, s) \<Rightarrow> Inr (files, s)
      | (Some st, end, s) \<Rightarrow>
          if end then Inr (files, s)
          else bindR (trie_put files (c_string (fs_file_name st) []) (Some st)) (\<lambda>files. list_loop files s))"
  by pat_completeness auto
termination
  by (relation "measure (\<lambda>(files, s). length s)") (auto dest!: read_file_stat_end_strict [OF sym])

declare list_loop.simps [simp del]

definition list_files :: "client \<Rightarrow> (client \<times> client_state option) result" where
  "list_files cli =
     (let cli = write_str (ascii ''LIST'' @ [0x0A]) cli in
      bindR (list_loop (cl_files cli) (cl_stream cli)) (\<lambda>(files, s).
      Inr (cli\<lparr>cl_files := files, cl_stream := s\<rparr>, Some WaitForInput)))"

section \<open>Downloading\<close>

text \<open>
  The chunks are what the successive calls of \<^verbatim>\<open>read\<close> yield, at most 4096 bytes each; an empty
  chunk is the end of file or an error.  \<^verbatim>\<open>len\<close> is unsigned: it wraps around if the peer sends
  more than it announced.
\<close>

fun download_loop :: "u32 \<Rightarrow> byte list list \<Rightarrow> byte list \<Rightarrow> byte list option" where
  "download_loop len [] output = (if len = 0 then Some output else None)"
| "download_loop len (buf # chunks) output =
     (if len = 0 then Some output
      else if buf = [] then None
      else download_loop (len - of_nat (length buf)) chunks (output @ buf))"

text \<open>\<open>header\<close>: the four bytes read into \<^verbatim>\<open>len\<close>.  \<open>None\<close>: the message that the download is unfinished.\<close>

definition download :: "byte list \<Rightarrow> byte list list \<Rightarrow> byte list option" where
  "download header chunks = download_loop (ntohl (load_u32 header)) chunks []"

text \<open>What the serving thread sends for a file of the given content and the size \<^verbatim>\<open>stat\<close> reports.\<close>

definition peer_reply :: "u64 \<Rightarrow> byte list \<Rightarrow> byte list \<times> byte list" where
  "peer_reply st_size content = (store_u32 (htonl (ucast st_size)), content)"

text \<open>
  The serving thread reads the file name into \<^verbatim>\<open>fname\<close>, byte by byte; a \<^verbatim>\<open>read\<close> that yields
  nothing leaves the byte of the buffer as it was.
\<close>

fun read_request :: "nat \<Rightarrow> nat \<Rightarrow> byte list \<Rightarrow> byte list \<Rightarrow> byte list" where
  "read_request 0 i s fname = fname[i := 0]"
| "read_request (Suc k) i s fname =
     (let fname = (case s of [] \<Rightarrow> fname | ch # _ \<Rightarrow> fname[i := ch]) in
      if fname ! i = 0x0A then fname[i := 0] else read_request k (i + 1) (tl s) fname)"

text \<open>One accepted connection: the new buffer and what is sent; \<open>files\<close> is the file system.\<close>

definition peer_serve ::
    "(byte list \<Rightarrow> (u64 \<times> byte list) option) \<Rightarrow> byte list \<Rightarrow> byte list \<Rightarrow> byte list \<times> byte list" where
  "peer_serve files s fname =
     (let fname = read_request 8191 0 s fname in
      (fname, case files (c_str fname) of None \<Rightarrow> []
              | Some (st_size, content) \<Rightarrow> (case peer_reply st_size content of (h, b) \<Rightarrow> h @ b)))"

text \<open>What \<^verbatim>\<open>connect_client\<close> returns, from the results of its system calls.\<close>

definition connect_client :: "int \<Rightarrow> bool \<Rightarrow> int \<Rightarrow> int" where
  "connect_client sock host_found connect_rv =
     (if sock > 0 then (if \<not> host_found then 0 else if connect_rv < 0 then 0 else sock) else sock)"

section \<open>Commands of the user\<close>

datatype action =
    ActLs
  | ActGet "byte list" "file_stat option"
  | ActExit
  | ActUnknown
  | ActEof

text \<open>
  \<open>None\<close>: \<^verbatim>\<open>getline\<close> returned nothing; otherwise the line, and what the buffer holds behind its
  terminator.  The newline at the end of a file name is overwritten with a 0.
\<close>

definition parse_line :: "client \<Rightarrow> (byte list \<times> byte list) option \<Rightarrow> action result" where
  "parse_line cli input =
     (case input of None \<Rightarrow> Inr ActEof
      | Some (line, junk) \<Rightarrow>
          if c_str line = ascii ''ls'' @ [0x0A] then Inr ActLs
          else if take 4 line = ascii ''get '' then
            (let len = length (c_str (drop 4 line)) in
             bindR (arr_get line (int (4 + len) - 1)) (\<lambda>last.
             bindR (if last = 0x0A then arr_set line (int (4 + len) - 1) 0 else Inr line) (\<lambda>line.
             let filename = drop 4 line @ 0 # junk in
             bindR (trie_get (cl_files cli) filename) (\<lambda>fs. Inr (ActGet (c_str filename) fs)))))
          else if c_str line = ascii ''exit'' @ [0x0A] then Inr ActExit
          else Inr ActUnknown)"

text \<open>A download changes neither the client nor its state; the file it writes is \<open>download\<close>.\<close>

definition wait_for_input :: "client \<Rightarrow> (byte list \<times> byte list) option \<Rightarrow> (client \<times> client_state option) result" where
  "wait_for_input cli input =
     bindR (parse_line cli input) (\<lambda>act.
     Inr (cli, Some (case act of ActLs \<Rightarrow> ListFilesState | ActExit \<Rightarrow> ExitClient | _ \<Rightarrow> WaitForInput)))"

definition exit_client :: "client \<Rightarrow> client \<times> client_state option" where
  "exit_client cli =
     (write_str (snprintf_to 2048 (ascii ''DEREGISTER '' @ c_str (cl_name cli) @ [0x0A])) cli, None)"

section \<open>run_client\<close>

text \<open>
  What the system yields: the lines for \<^verbatim>\<open>getline\<close> until the input ends, the directory, the port.
\<close>

record system =
  sy_lines :: "(byte list \<times> byte list) list"
  sy_dir :: "(byte list \<times> u64 option) list option"
  sy_port :: u16

definition client_step :: "system \<Rightarrow> client_state \<Rightarrow> client \<Rightarrow> (client \<times> client_state option \<times> system) result" where
  "client_step sys state cli =
     (case state of
        InitState \<Rightarrow> (case init_state cli of (cli, st) \<Rightarrow> Inr (cli, st, sys))
      | PostFiles \<Rightarrow> (case post_files (sy_dir sys) (sy_port sys) cli of (cli, st) \<Rightarrow> Inr (cli, st, sys))
      | WaitForInput \<Rightarrow>
          (case sy_lines sys of
             [] \<Rightarrow> bindR (wait_for_input cli None) (\<lambda>(cli, st). Inr (cli, st, sys))
           | l # ls \<Rightarrow> bindR (wait_for_input cli (Some l)) (\<lambda>(cli, st). Inr (cli, st, sys\<lparr>sy_lines := ls\<rparr>)))
      | ListFilesState \<Rightarrow> bindR (list_files cli) (\<lambda>(cli, st). Inr (cli, st, sys))
      | ExitClient \<Rightarrow> (case exit_client cli of (cli, st) \<Rightarrow> Inr (cli, st, sys)))"

text \<open>
  The loop, with fuel for its rounds: \<open>Inr (Inl cli)\<close>, it has ended; \<open>Inr (Inr x)\<close>, it is still
  running in the state \<open>x\<close>.
\<close>

fun run_client :: "nat \<Rightarrow> system \<Rightarrow> client_state \<Rightarrow> client \<Rightarrow> (client + client_state \<times> client) result" where
  "run_client 0 sys state cli = Inr (Inr (state, cli))"
| "run_client (Suc n) sys state cli =
     bindR (client_step sys state cli) (\<lambda>(cli, st, sys).
     case st of None \<Rightarrow> Inr (Inl cli) | Some st \<Rightarrow> run_client n sys st cli)"

end
