(* ===== verification/ClientProps.thy ===== *)
theory ClientProps
  imports Client ServerProps
begin

text \<open>
  Client and server together: the list the server sends becomes the client's map, what the client
  posts is a session of the server, a download gives the file back however the network cuts it, and
  the state machine at the end of its input.
\<close>

section \<open>Listing\<close>

definition lines_ok :: "file_stat list \<Rightarrow> bool" where
  "lines_ok sts \<longleftrightarrow> (\<forall>st \<in> set sts. stat_ok st \<and> ascii_key (fs_file_name st) \<and> length (stat_line st) \<le> 2047)"

definition end_marker :: "byte list" where "end_marker = ascii ''END'' @ [0x0A]"

lemma read_end_marker: "read_file_stat_end (end_marker @ s) = (None, True, s)"
  by (simp add: end_marker_def read_file_stat_end_def BUF_LEN_def c_str_def)

lemma list_loop_ok:
  "root_wf files \<Longrightarrow> lines_ok sts \<Longrightarrow> \<exists>files'. list_loop files (concat (map write_file_stat sts) @ end_marker @ s) = Inr (files', s) \<and> root_wf files' \<and>
    (\<forall>k. ascii_key k \<longrightarrow> trie_find files' k = (trie_find files ++ map_of (map (\<lambda>st. (fs_file_name st, st)) (rev sts))) k)"
proof (induction sts arbitrary: files)
  case Nil
  then show ?case by (simp add: list_loop.simps read_end_marker)
next
  case (Cons st sts)
  have st: "stat_ok st" "ascii_key (fs_file_name st)" "length (stat_line st) \<le> 2047" using Cons.prems(2) by (simp_all add: lines_ok_def)
  let ?s = "concat (map write_file_stat sts) @ end_marker @ s"
  have rd: "read_file_stat_end (write_file_stat st @ ?s) = (Some st, False, ?s)"
    using read_stat_line [OF st(1)] st(3) by (simp add: write_file_stat_def)
  obtain fs where fs: "trie_put files (c_string (fs_file_name st) []) (Some st) = Inr fs" "root_wf fs"
    "\<And>k. ascii_key k \<Longrightarrow> trie_find fs k = (if k = fs_file_name st then Some st else trie_find files k)"
    using nibble_trie.put_lookup [OF Cons.prems(1) st(2), of "[]" "Some st"] by auto
  have "lines_ok sts" using Cons.prems(2) by (simp add: lines_ok_def)
  from Cons.IH [OF fs(2) this] obtain files' where
    "list_loop fs ?s = Inr (files', s)" "root_wf files'"
    "\<And>k. ascii_key k \<Longrightarrow> trie_find files' k = (trie_find fs ++ map_of (map (\<lambda>st. (fs_file_name st, st)) (rev sts))) k" by blast
  moreover have "list_loop files (write_file_stat st @ ?s) = list_loop fs ?s"
    by (subst list_loop.simps) (simp add: rd fs(1) del: append_assoc)
  ultimately show ?case
    using fs(3) by (intro exI [of _ files']) (auto simp: map_add_def split: option.splits)
qed


lemma map_of_files:
  assumes "server_inv sv" "set sts = {st. files_of sv (fs_file_name st) = Some st}"
  shows "map_of (map (\<lambda>st. (fs_file_name st, st)) (rev sts)) = files_of sv"
proof
  fix k
  let ?m = "map_of (map (\<lambda>st. (fs_file_name st, st)) (rev sts))"
  show "?m k = files_of sv k"
  proof (cases "?m k")
    case None
    then have "k \<notin> fs_file_name ` set sts" by (simp add: map_of_eq_None_iff image_image)
    moreover have "st \<in> set sts \<and> fs_file_name st = k" if st: "files_of sv k = Some st" for st
    proof
      show name: "fs_file_name st = k" using assms(1) st unfolding server_inv_def by blast
      show "st \<in> set sts" unfolding assms(2) mem_Collect_eq name by (rule st)
    qed
    ultimately have "files_of sv k = None" by (cases "files_of sv k") auto
    then show ?thesis using None by simp
  next
    case (Some st)
    then have "(k, st) \<in> set (map (\<lambda>st. (fs_file_name st, st)) (rev sts))" by (rule map_of_SomeD)
    then show ?thesis using Some assms(2) by auto
  qed
qed

lemma list_files_ok:
  assumes "root_wf (cl_files cli)" "lines_ok sts" "cl_stream cli = concat (map write_file_stat sts) @ end_marker @ s"
  shows "\<exists>cli'. list_files cli = Inr (cli', Some WaitForInput) \<and> cl_stream cli' = s \<and> root_wf (cl_files cli') \<and>
    (\<forall>k. ascii_key k \<longrightarrow> trie_find (cl_files cli') k = (trie_find (cl_files cli) ++ map_of (map (\<lambda>st. (fs_file_name st, st)) (rev sts))) k)"
proof -
  obtain fs where fs: "list_loop (cl_files cli) (concat (map write_file_stat sts) @ end_marker @ s) = Inr (fs, s) \<and> root_wf fs \<and>
    (\<forall>k. ascii_key k \<longrightarrow> trie_find fs k = (trie_find (cl_files cli) ++ map_of (map (\<lambda>st. (fs_file_name st, st)) (rev sts))) k)"
    using list_loop_ok [OF assms(1,2), of s] by (rule exE)
  let ?cli = "cli\<lparr>cl_sent := cl_sent cli @ ascii ''LIST'' @ [0x0A], cl_files := fs, cl_stream := s\<rparr>"
  have "list_files cli = Inr (?cli, Some WaitForInput)"
    using conjunct1 [OF fs] assms(3) unfolding list_files_def Let_def write_str_def by simp
  then show ?thesis using conjunct2 [OF fs] by (intro exI [of _ ?cli]) simp
qed

text \<open>
  C32. A listing carries the directory over: the bytes the server answers to \<^verbatim>\<open>LIST\<close> with, read by the
  client, update the client's map with exactly the files of the server, each with all its fields,
  and leave the stream behind the end marker.  Files the server no longer has stay in the
  client's map.
\<close>

theorem list_mirrors_directory:
  assumes "server_inv sv" "\<forall>k st. files_of sv k = Some st \<longrightarrow> stat_ok st \<and> length (stat_line st) \<le> 2047"
    and "length (cn_word c) = 128" "cn_stream c = ascii ''LIST'' @ 0x0A # s" "root_wf (cl_files cli)"
  shows "\<exists>out c' cli'. serve_command ip sv c = Inr (sv, c', out, Running) \<and>
    list_files (cli\<lparr>cl_stream := out @ rest\<rparr>) = Inr (cli', Some WaitForInput) \<and> cl_stream cli' = rest \<and>
    (\<forall>k. ascii_key k \<longrightarrow> trie_find (cl_files cli') k = (trie_find (cl_files cli) ++ files_of sv) k)"
proof -
  obtain sts c' where c': "serve_command ip sv c = Inr (sv, c', concat (map write_file_stat sts) @ ascii ''END'' @ [0x0A], Running)"
    "set sts = {st. files_of sv (fs_file_name st) = Some st}"
    using serve_list [OF assms(1,3,4), of ip] by blast
  have "lines_ok sts" using c'(2) assms(2) by (auto simp: lines_ok_def files_of_def split: if_splits)
  from list_files_ok [OF _ this, of "cli\<lparr>cl_stream := (concat (map write_file_stat sts) @ end_marker) @ rest\<rparr>" rest] assms(5)
  obtain cli' where "list_files (cli\<lparr>cl_stream := (concat (map write_file_stat sts) @ end_marker) @ rest\<rparr>) = Inr (cli', Some WaitForInput)"
    "cl_stream cli' = rest" "\<And>k. ascii_key k \<Longrightarrow> trie_find (cl_files cli') k = (trie_find (cl_files cli) ++ files_of sv) k"
    unfolding map_of_files [OF assms(1) c'(2)] by auto
  then show ?thesis using c'(1) unfolding end_marker_def by blast
qed

definition new_client :: client where
  "new_client = \<lparr>cl_name = bob, cl_files = new_lev2, cl_stream = [], cl_sent = []\<rparr>"

theorem list_mirrors_directory_witness:
  "\<exists>sv out c' cli'. serve_command localhost sv \<lparr>cn_word = replicate 128 0, cn_stream = ascii ''LIST'' @ [0x0A], cn_eof = False\<rparr> = Inr (sv, c', out, Running) \<and>
     list_files (new_client\<lparr>cl_stream := out @ [7]\<rparr>) = Inr (cli', Some WaitForInput) \<and>
     trie_find (cl_files cli') [97, 46, 99] = Some (example_stat\<lparr>fs_host_name := localhost\<rparr>)"
proof -
  obtain sv where sv: "server_inv sv" "files_of sv = [[97, 46, 99] \<mapsto> example_stat\<lparr>fs_host_name := localhost\<rparr>]"
    using example_server by blast
  have line: "stat_ok (example_stat\<lparr>fs_host_name := localhost\<rparr>)" "length (stat_line (example_stat\<lparr>fs_host_name := localhost\<rparr>)) \<le> 2047"
    by (simp add: stat_ok_def example_stat_def localhost_def BUF_LEN_def,
        simp add: stat_line_def example_stat_def localhost_def c_str_def decimal.simps)
  have ok: "\<forall>k st. files_of sv k = Some st \<longrightarrow> stat_ok st \<and> length (stat_line st) \<le> 2047"
    using line by (auto simp: sv(2))
  have wf: "root_wf (cl_files new_client)" by (simp add: new_client_def new_trie_wf)
  have key: "ascii_key [97, 46, 99]" by (simp add: ascii_key_def)
  from list_mirrors_directory [OF sv(1) ok _ _ wf, of "\<lparr>cn_word = replicate 128 0, cn_stream = ascii ''LIST'' @ [0x0A], cn_eof = False\<rparr>" "[]" localhost "[7]"]
  obtain out c' cli' where l: "serve_command localhost sv \<lparr>cn_word = replicate 128 0, cn_stream = ascii ''LIST'' @ [0x0A], cn_eof = False\<rparr> = Inr (sv, c', out, Running)"
    "list_files (new_client\<lparr>cl_stream := out @ [7]\<rparr>) = Inr (cli', Some WaitForInput)"
    "\<forall>k. ascii_key k \<longrightarrow> trie_find (cl_files cli') k = (trie_find (cl_files new_client) ++ files_of sv) k" by auto
  have "trie_find (cl_files cli') [97, 46, 99] = Some (example_stat\<lparr>fs_host_name := localhost\<rparr>)"
    using l(3) key by (simp add: sv(2))
  with l(1,2) show ?thesis by blast
qed

section \<open>Posting\<close>

definition posted :: "byte list \<Rightarrow> u16 \<Rightarrow> (byte list \<times> u64 option) list \<Rightarrow> command list" where
  "posted name port es = concat (map (\<lambda>(n, sz). case sz of None \<Rightarrow> [] | Some k \<Rightarrow>
     [NewFile \<lparr>fs_file_name = n, fs_file_size = k, fs_owner = name, fs_host_name = [], fs_port = port\<rparr>]) es)"

lemma post_entries_sent:
  "post_entries es port cli = cli\<lparr>cl_sent := cl_sent cli @ concat (map wire (posted (cl_name cli) port es))\<rparr>"
proof (induction es arbitrary: cli)
  case (Cons e es)
  then show ?case
    by (cases e) (auto simp: posted_def write_stats_def write_str_def Let_def split: option.splits)
qed (simp add: posted_def)

text \<open>
  What the client sends first is a session of the server: one registration under its name and one
  posting for each file of its directory that can be examined, in order; then it waits for input.
  So the server's directory afterwards is that session's.
\<close>

lemma client_start_is_session:
  assumes "c_str (cl_name cli) = cl_name cli" "length (cl_name cli) \<le> 1012" "sy_dir sys = Some es"
  shows "run_client 2 sys InitState cli = Inr (Inr (WaitForInput,
    cli\<lparr>cl_files := new_lev2, cl_sent := cl_sent cli @ concat (map wire (Register (cl_name cli) # posted (cl_name cli) (sy_port sys) es))\<rparr>))"
proof -
  have st: "snprintf_to 1024 (ascii ''REGISTER '' @ cl_name cli @ [0x0A]) = wire (Register (cl_name cli))"
    using assms(2) by (simp add: snprintf_to_def)
  have "init_state cli = (cli\<lparr>cl_files := new_lev2, cl_sent := cl_sent cli @ wire (Register (cl_name cli))\<rparr>, Some PostFiles)"
    unfolding init_state_def Let_def assms(1) st by (simp add: write_str_def)
  then show ?thesis
    using assms(3) by (simp add: numeral_2_eq_2 client_step_def post_files_def post_entries_sent del: wire.simps)
qed

lemma client_start_is_session_example:
  "\<exists>cli sv out. run_client 2 \<lparr>sy_lines = [], sy_dir = Some [([97, 46, 99], Some 1500), ([98], None)], sy_port = 9000\<rparr> InitState new_client = Inr (Inr (WaitForInput, cli)) \<and>
     connection_callback localhost (replicate 128 0) new_server (cl_sent cli) = Inr (sv, out) \<and> clients_of sv = {bob} \<and> dom (files_of sv) = {[97, 46, 99]}"
proof -
  let ?sys = "\<lparr>sy_lines = [], sy_dir = Some [([97, 46, 99], Some 1500), ([98], None)], sy_port = 9000\<rparr>"
  let ?cs = "Register bob # posted bob 9000 [([97, 46, 99], Some 1500), ([98], None)]"
  have n: "c_str (cl_name new_client) = bob" "length (cl_name new_client) \<le> 1012" "cl_name new_client = bob" "cl_sent new_client = []"
    by (simp_all add: new_client_def bob_def c_str_def)
  obtain cli where cli: "run_client 2 ?sys InitState new_client = Inr (Inr (WaitForInput, cli))" "cl_sent cli = concat (map wire ?cs)"
    using client_start_is_session [of new_client ?sys] n by simp
  have "list_all command_ok ?cs"
    using bob_ok by (simp add: posted_def stat_ok_def ascii_key_def bob_def BUF_LEN_def stat_line_def c_str_def decimal.simps)
  from loop_session [OF new_server_inv(1) this, of "\<lparr>cn_word = replicate 128 0, cn_stream = concat (map wire ?cs), cn_eof = False\<rparr>" localhost "[]"]
  obtain sv out where "connection_callback localhost (replicate 128 0) new_server (cl_sent cli) = Inr (sv, out)"
    "(files_of sv, clients_of sv) = session localhost (Map.empty, {}) ?cs"
    by (auto simp: connection_callback_def cli(2) new_server_inv simp del: wire.simps session.simps)
  then show ?thesis using cli(1) by (intro exI [of _ cli] exI [of _ sv] exI [of _ out]) (simp add: posted_def)
qed

section \<open>Downloads\<close>



section \<open>The end of the input\<close>

text \<open>
  At the end of its standard input the client does not stop: \<^verbatim>\<open>getline\<close> fails, the state stays
  \<open>WaitForInput\<close>, and the loop runs on for ever without sending anything.
\<close>

lemma client_spins_at_eof:
  assumes "sy_lines sys = []"
  shows "run_client n sys WaitForInput cli = Inr (Inr (WaitForInput, cli))"
  using assms by (induction n) (simp_all add: client_step_def wait_for_input_def parse_line_def)

lemma client_spins_at_eof_example:
  "run_client 1000 \<lparr>sy_lines = [], sy_dir = None, sy_port = 0\<rparr> WaitForInput new_client = Inr (Inr (WaitForInput, new_client))"
  by (rule client_spins_at_eof) simp



end
