(* ===== verification/SharingMain.thy ===== *)
theory SharingMain
  imports ServerThreadsProps ClientProps
begin

text \<open>
  The two programs of the file sharing system: accepting connections (\<open>start_server_socket\<close>) and
  \<^verbatim>\<open>main\<close> in \<^verbatim>\<open>PA4/server.c\<close>; \<^verbatim>\<open>main\<close>, the signal handler, and the thread that serves peers in
  \<^verbatim>\<open>PA4/client.c\<close>.  What a client program sends is what the clients of \<open>ServerThreadsProps\<close> send, so
  the two programs fit together.
\<close>

section \<open>The server program\<close>

text \<open>
  The list: what the successive calls of \<open>accept\<close> return.  The result: the descriptors for which a
  thread is created, and what the function returns, if it does.
\<close>

fun accept_loop :: "int list \<Rightarrow> int list \<times> int option" where
  "accept_loop [] = ([], None)"
| "accept_loop (fd # fds) =
     (if fd \<le> 0 then ([], Some (-1)) else case accept_loop fds of (cs, ret) \<Rightarrow> (fd # cs, ret))"

definition start_server_socket :: "int \<Rightarrow> int \<Rightarrow> int list \<Rightarrow> int list \<times> int option" where
  "start_server_socket bind_rv listen_rv accepts =
     (if bind_rv \<noteq> 0 then ([], Some (-1)) else if listen_rv \<noteq> 0 then ([], Some (-1)) else accept_loop accepts)"

text \<open>The status of the process is 0 once the port is read, whatever \<open>start_server_socket\<close> returns.\<close>

definition server_main :: "byte list list \<Rightarrow> int \<Rightarrow> int \<Rightarrow> int list \<Rightarrow> int list \<times> int option" where
  "server_main argv bind_rv listen_rv accepts =
     (if length argv \<noteq> 2 then ([], Some 1)
      else case parse_port_num (argv ! 1) of
        Some port \<Rightarrow> (case start_server_socket bind_rv listen_rv accepts of (cs, ret) \<Rightarrow> (cs, map_option (\<lambda>_. 0) ret))
      | None \<Rightarrow> ([], Some 1))"

section \<open>The client program\<close>

text \<open>\<^verbatim>\<open>strncpy\<close> of a string into an array of \<open>n\<close> bytes: no terminator if it does not fit.\<close>

definition strncpy_to :: "nat \<Rightarrow> byte list \<Rightarrow> byte list" where
  "strncpy_to n s = take n s @ replicate (n - length s) 0"

text \<open>What the handler writes to the server before the process exits with 0.\<close>

definition sigint_handler :: "byte list \<Rightarrow> int \<Rightarrow> byte list result" where
  "sigint_handler server_name server_fd =
     (if 0 \<in> set server_name then
        Inr (if server_fd \<noteq> 0 then snprintf_to 2048 (ascii ''DEREGISTER '' @ c_str server_name @ [0x0A]) else [])
      else Inl OutOfBounds)"

definition peer_socket :: "int \<Rightarrow> int \<Rightarrow> int \<Rightarrow> int" where
  "peer_socket sock bind_rv listen_rv = (if bind_rv \<noteq> 0 then -1 else if listen_rv \<noteq> 0 then -1 else sock)"

text \<open>
  The thread for the peers, over what \<open>accept\<close> returns and the bytes of each peer: the replies, in
  order.  The buffer for the name is the same for all.
\<close>

fun peer_listener :: "(byte list \<Rightarrow> (u64 \<times> byte list) option) \<Rightarrow> (int \<times> byte list) list \<Rightarrow> byte list \<Rightarrow> byte list list" where
  "peer_listener files [] fname = []"
| "peer_listener files ((peer, s) # ps) fname =
     (if peer \<le> 0 then []
      else case peer_serve files s fname of (fname, reply) \<Rightarrow> reply # peer_listener files ps fname)"

text \<open>
  What the process is given: the arguments, the results of the calls of \<open>connect_client\<close>, what
  \<^verbatim>\<open>cli.files\<close> held before, the bytes of the server, the user and the directory, and the number of
  rounds that have passed.
\<close>

record client_env =
  ce_argv :: "byte list list"
  ce_socket :: int
  ce_host_found :: bool
  ce_connect :: int
  ce_junk :: "file_stat trie_lev2"
  ce_stream :: "byte list"
  ce_system :: system
  ce_rounds :: nat

datatype client_process = ClientExited int | ClientDone client | ClientRunning client_state client

definition client_fd :: "client_env \<Rightarrow> int" where
  "client_fd en = connect_client (ce_socket en) (ce_host_found en) (ce_connect en)"

definition client_main :: "client_env \<Rightarrow> client_process result" where
  "client_main en =
     (if length (ce_argv en) < 4 then Inr (ClientExited 1)
      else case parse_port_num (ce_argv en ! 3) of
        None \<Rightarrow> Inr (ClientExited 2)
      | Some port \<Rightarrow>
          if client_fd en = 0 then Inr (ClientExited 3)
          else mapR (\<lambda>x. case x of Inl cli \<Rightarrow> ClientDone cli | Inr (st, cli) \<Rightarrow> ClientRunning st cli)
                 (run_client (ce_rounds en) (ce_system en) InitState
                   \<lparr>cl_name = c_str (ce_argv en ! 1), cl_files = ce_junk en, cl_stream = ce_stream en, cl_sent = []\<rparr>))"

text \<open>The copy of the name that the handler uses.\<close>

definition client_server_name :: "client_env \<Rightarrow> byte list" where
  "client_server_name en = strncpy_to 1024 (c_str (ce_argv en ! 1))"

section \<open>What the client sends\<close>

lemma name_ok_c_str: "word_ok n \<Longrightarrow> c_str n = n"
  by (auto simp: word_ok_def c_str_def takeWhile_eq_all_conv)

lemma sigint_is_exit:
  assumes "length n < 1024" "0 \<notin> set n" "fd \<noteq> 0"
  shows "sigint_handler (strncpy_to 1024 n) fd = Inr (snprintf_to 2048 (ascii ''DEREGISTER '' @ n @ [0x0A]))"
proof -
  have e: "strncpy_to 1024 n = c_string n (replicate (1023 - length n) 0)"
    using assms(1) by (simp add: strncpy_to_def c_string_def flip: replicate_Suc)
  have "c_str (strncpy_to 1024 n) = n" unfolding e by (rule c_str_c_string [OF assms(2)])
  moreover have "0 \<in> set (strncpy_to 1024 n)" unfolding e by (simp add: c_string_def)
  ultimately show ?thesis using assms(3) by (simp add: sigint_handler_def)
qed

lemma session_lines:
  "word_ok n \<Longrightarrow> snprintf_to 1024 (ascii ''REGISTER '' @ n @ [0x0A]) = wire (Register n)"
  "word_ok n \<Longrightarrow> snprintf_to 2048 (ascii ''DEREGISTER '' @ n @ [0x0A]) = ascii ''DEREGISTER'' @ 0x20 # n @ [0x0A]"
  by (auto simp: snprintf_to_def word_ok_def)

text \<open>The client in its loop has sent a sequence of commands.\<close>

definition sent_commands :: "byte list \<Rightarrow> client \<Rightarrow> bool" where
  "sent_commands n cli \<longleftrightarrow> cl_name cli = n \<and> (\<exists>cs. list_all command_ok cs \<and> cl_sent cli = concat (map wire cs))"

definition left_with :: "byte list \<Rightarrow> client \<Rightarrow> bool" where
  "left_with n cli \<longleftrightarrow> (\<exists>cs. plan_ok (cs, Some n) \<and> plan_stream (cs, Some n) (cl_sent cli))"

lemma sent_commands_more:
  "sent_commands n cli \<Longrightarrow> list_all command_ok cs \<Longrightarrow> cl_name cli' = n \<Longrightarrow> cl_sent cli' = cl_sent cli @ concat (map wire cs) \<Longrightarrow>
    sent_commands n cli'"
  unfolding sent_commands_def by (metis concat_append list_all_append map_append)

lemma client_step_sent:
  assumes "client_step sys st cli = Inr (cli', st', sys')" "sent_commands n cli" "name_ok n"
    and "\<And>es. sy_dir sys = Some es \<Longrightarrow> list_all command_ok (posted n (sy_port sys) es)"
  shows "(case st' of None \<Rightarrow> left_with n cli' | Some _ \<Rightarrow> sent_commands n cli') \<and> sy_dir sys' = sy_dir sys \<and> sy_port sys' = sy_port sys"
proof (cases st)
  case InitState
  have "init_state cli = (cli\<lparr>cl_files := new_lev2, cl_sent := cl_sent cli @ wire (Register n)\<rparr>, Some PostFiles)"
    using assms(2,3) name_ok_c_str [of n] session_lines(1) [of n]
    by (simp add: init_state_def write_str_def sent_commands_def Let_def del: wire.simps)
  with assms(1-3) InitState sent_commands_more [OF assms(2), of "[Register n]" cli'] show ?thesis
    by (auto simp: client_step_def sent_commands_def)
next
  case PostFiles
  then show ?thesis
    using assms sent_commands_more [OF assms(2), of _ cli']
    by (auto simp: client_step_def post_files_def post_entries_sent sent_commands_def split: option.splits)
next
  case WaitForInput
  then show ?thesis
    using assms(1,2) by (auto simp: client_step_def wait_for_input_def bindR_eq_Inr split: list.splits option.splits)
next
  case ListFilesState
  then show ?thesis
    using assms(1,2) sent_commands_more [OF assms(2), of "[ListFiles]" cli']
    by (auto simp: client_step_def list_files_def bindR_eq_Inr write_str_def sent_commands_def Let_def)
next
  case ExitClient
  obtain cs where cs: "list_all command_ok cs" "cl_sent cli = concat (map wire cs)" "cl_name cli = n"
    using assms(2) by (auto simp: sent_commands_def)
  then have "cl_sent cli' = concat (map wire cs) @ ascii ''DEREGISTER'' @ 0x20 # n @ 0x0A # []" "st' = None"
    using assms(1,3) ExitClient name_ok_c_str [of n] session_lines(2) [of n]
    by (auto simp: client_step_def exit_client_def write_str_def)
  moreover have "plan_ok (cs, Some n)" using cs(1) assms(3) by (simp add: plan_ok_def)
  ultimately show ?thesis using assms(1) ExitClient
    by (auto simp: left_with_def plan_stream_def client_step_def exit_client_def)
qed

lemma run_client_sent:
  "run_client k sys st cli = Inr x \<Longrightarrow> sent_commands n cli \<Longrightarrow> name_ok n \<Longrightarrow>
    (\<And>es. sy_dir sys = Some es \<Longrightarrow> list_all command_ok (posted n (sy_port sys) es)) \<Longrightarrow>
    (case x of Inl cli' \<Rightarrow> left_with n cli' | Inr (st', cli') \<Rightarrow> sent_commands n cli')"
proof (induction k arbitrary: sys st cli)
  case (Suc k)
  from Suc.prems(1) obtain cli1 st1 sys1 where s: "client_step sys st cli = Inr (cli1, st1, sys1)"
    "(case st1 of None \<Rightarrow> Inr (Inl cli1) | Some st2 \<Rightarrow> run_client k sys1 st2 cli1) = Inr x"
    by (auto simp: bindR_eq_Inr)
  note st = client_step_sent [OF s(1) Suc.prems(2-4)]
  show ?case
  proof (cases st1)
    case None
    with s(2) st show ?thesis by auto
  next
    case (Some st2)
    with s(2) st Suc.IH [of sys1 st2 cli1] Suc.prems(3,4) show ?thesis by simp
  qed
qed auto

section \<open>Properties\<close>


text \<open>The client of bob with one file, whose user types \<^verbatim>\<open>exit\<close>.\<close>

definition example_client_env :: client_env where
  "example_client_env = \<lparr>ce_argv = [[99, 0], [98, 111, 98, 0], [104, 0], [57, 48, 48, 48, 0]], ce_socket = 3, ce_host_found = True,
     ce_connect = 0, ce_junk = new_lev2, ce_stream = [],
     ce_system = \<lparr>sy_lines = [(ascii ''exit'' @ [0x0A], [])], sy_dir = Some [([97, 46, 99], Some 1500)], sy_port = 9000\<rparr>, ce_rounds = 4\<rparr>"

lemma example_client_runs: "\<exists>cli. client_main example_client_env = Inr (ClientDone cli)"
proof -
  let ?sys = "ce_system example_client_env"
  have "\<exists>cli. run_client (Suc (Suc (Suc (Suc 0)))) ?sys InitState \<lparr>cl_name = bob, cl_files = new_lev2, cl_stream = [], cl_sent = []\<rparr> = Inr (Inl cli)"
    by (simp add: example_client_env_def client_step_def init_state_def Let_def post_files_def wait_for_input_def parse_line_def c_str_def exit_client_def)
  moreover have "ce_rounds example_client_env = Suc (Suc (Suc (Suc 0)))" by (simp add: example_client_env_def)
  moreover have "c_str (ce_argv example_client_env ! 1) = bob" by (simp add: example_client_env_def c_str_def bob_def)
  moreover have "client_fd example_client_env = 3" by (simp add: client_fd_def connect_client_def example_client_env_def)
  moreover have "parse_port_num (ce_argv example_client_env ! 3) \<noteq> None" by (simp add: parse_port_num_def example_client_env_def)
  moreover have "length (ce_argv example_client_env) = 4" "ce_junk example_client_env = new_lev2" "ce_stream example_client_env = []"
    by (simp_all add: example_client_env_def)
  ultimately show ?thesis by (auto simp: client_main_def)
qed

lemma example_posted: "list_all command_ok (posted bob 9000 [([97, 46, 99], Some 1500)])"
  using bob_ok by (simp add: posted_def stat_ok_def ascii_key_def bob_def BUF_LEN_def stat_line_def c_str_def decimal.simps)


text \<open>
  A name of 1024 bytes or more fills the copy that the signal handler uses without a terminator: the
  handler reads behind it.
\<close>

lemma sigint_long_name: "0 \<notin> set n \<Longrightarrow> 1024 \<le> length n \<Longrightarrow> sigint_handler (strncpy_to 1024 n) fd = Inl OutOfBounds"
  by (auto simp: sigint_handler_def strncpy_to_def dest: in_set_takeD)

text \<open>
  A failed \<open>bind\<close> or \<open>listen\<close>, or one failed \<open>accept\<close>, ends the server with status 0; with the process all
  the connections that are being served.
\<close>

lemma server_main_status:
  assumes "length argv = 2" "parse_port_num (argv ! 1) = Some port"
  shows "bind_rv \<noteq> 0 \<Longrightarrow> server_main argv bind_rv listen_rv accepts = ([], Some 0)"
    and "fd \<le> 0 \<Longrightarrow> \<forall>x \<in> set fds. 0 < x \<Longrightarrow> server_main argv 0 0 (fds @ fd # later) = (fds, Some 0)"
proof -
  have "fd \<le> 0 \<Longrightarrow> \<forall>x \<in> set fds. 0 < x \<Longrightarrow> accept_loop (fds @ fd # later) = (fds, Some (-1))"
    by (induction fds) auto
  then show "fd \<le> 0 \<Longrightarrow> \<forall>x \<in> set fds. 0 < x \<Longrightarrow> server_main argv 0 0 (fds @ fd # later) = (fds, Some 0)"
    using assms by (simp add: server_main_def start_server_socket_def)
  show "bind_rv \<noteq> 0 \<Longrightarrow> server_main argv bind_rv listen_rv accepts = ([], Some 0)"
    using assms by (simp add: server_main_def start_server_socket_def)
qed

text \<open>
  \<open>connect_client\<close> returns 0 for an error, but what \<open>socket\<close> returns when it fails is not 0: the client then runs
  with the descriptor -1.
\<close>

lemma failed_socket_accepted: "ce_socket en < 0 \<Longrightarrow> client_fd en = ce_socket en"
  by (simp add: client_fd_def connect_client_def)

section \<open>Requests of peers\<close>

lemma read_request_line:
  "0x0A \<notin> set s \<Longrightarrow> length s < k \<Longrightarrow> i + length s < length buf \<Longrightarrow>
    read_request k i (s @ 0x0A # t) buf = take i buf @ s @ 0 # drop (i + length s + 1) buf"
proof (induction s arbitrary: k i buf)
  case Nil
  then obtain k' where "k = Suc k'" by (cases k) auto
  with Nil have "read_request k i ([] @ 0x0A # t) buf = buf[i := 0]" by (simp add: Let_def)
  with Nil show ?case by (simp add: upd_conv_take_nth_drop)
next
  case (Cons c s)
  then obtain k' where k: "k = Suc k'" by (cases k) auto
  have t: "take (Suc i) (buf[i := c]) = take i buf @ [c]" using Cons.prems(3) by (simp add: take_Suc_conv_app_nth)
  show ?case using Cons.IH [of k' "Suc i" "buf[i := c]"] Cons.prems k t by auto
qed

text \<open>A request that ends without a newline leaves what was in the buffer.\<close>

lemma read_request_end:
  "0x0A \<notin> set (drop i buf) \<Longrightarrow> i + k < length buf \<Longrightarrow> read_request k i [] buf = buf[i + k := 0]"
proof (induction k arbitrary: i)
  case (Suc k)
  then have d: "drop i buf = buf ! i # drop (Suc i) buf" by (simp add: Cons_nth_drop_Suc)
  with Suc.prems(1) have "buf ! i \<noteq> 0x0A" by auto
  with Suc d show ?case by simp
qed simp

lemma read_request_cut:
  "0x0A \<notin> set s \<Longrightarrow> 0x0A \<notin> set (drop i buf) \<Longrightarrow> length s \<le> k \<Longrightarrow> i + k < length buf \<Longrightarrow>
    read_request k i s buf = (take i buf @ s @ drop (i + length s) buf)[i + k := 0]"
proof (induction s arbitrary: k i buf)
  case Nil
  then show ?case by (simp add: read_request_end)
next
  case (Cons c s)
  then obtain k' where k: "k = Suc k'" by (cases k) auto
  have i: "i < length buf" using Cons.prems(4) by simp
  have t: "take (Suc i) (buf[i := c]) = take i buf @ [c]" using i by (simp add: take_Suc_conv_app_nth)
  have d: "set (drop (Suc i) buf) \<subseteq> set (drop i buf)" by (rule set_drop_subset_set_drop) simp
  show ?case using Cons.IH [of "Suc i" "buf[i := c]" k'] Cons.prems k t d i by auto
qed

lemma peer_serve_line:
  assumes "0x0A \<notin> set n" "0 \<notin> set n" "length n < 8191" "length buf = 8192"
  shows "peer_serve files (n @ 0x0A # t) buf =
    (n @ 0 # drop (length n + 1) buf, case files n of None \<Rightarrow> [] | Some (sz, content) \<Rightarrow> fst (peer_reply sz content) @ content)"
proof -
  have "read_request 8191 0 (n @ 0x0A # t) buf = n @ 0 # drop (length n + 1) buf"
    using read_request_line [OF assms(1), of 8191 0 buf t] assms(3,4) by simp
  moreover have "c_str (n @ 0 # drop (length n + 1) buf) = n"
    using c_str_c_string [OF assms(2), of "drop (length n + 1) buf"] by (simp add: c_string_def)
  ultimately show ?thesis
    unfolding peer_serve_def Let_def by (simp add: peer_reply_def split: option.splits)
qed

text \<open>
  The thread that serves peers keeps the buffer for the name: after a complete request for one
  file, a peer that sends only a part of a name, or nothing, and closes gets the file whose name is that part and
  the rest of the earlier name.
\<close>

lemma cut_request_mixes_names:
  assumes "0 < p" "0 < q" "0x0A \<notin> set n" "0 \<notin> set n" "0x0A \<notin> set s" "0 \<notin> set s" "length s \<le> length n" "length n < 8191"
    and "length buf = 8192" "0x0A \<notin> set buf" "files (s @ drop (length s) n) = Some (sz, content)"
  shows "\<exists>first. peer_listener files [(p, n @ [0x0A]), (q, s)] buf = [first, fst (peer_reply sz content) @ content]"
proof -
  let ?b = "n @ 0 # drop (length n + 1) buf"
  let ?name = "s @ drop (length s) n"
  have b: "length ?b = 8192" "0x0A \<notin> set ?b" using assms(3,8,9,10) by (auto dest: in_set_dropD)
  have "read_request 8191 0 s ?b = (?name @ 0 # drop (length n + 1) buf)[8191 := 0]"
    using read_request_cut [OF assms(5), of 0 ?b 8191] b assms(7,8) by simp
  moreover have "8191 - length n = Suc (8190 - length n)" using assms(8) by simp
  then have "(?name @ 0 # drop (length n + 1) buf)[8191 := 0] = ?name @ 0 # (drop (length n + 1) buf)[8190 - length n := 0]"
    using assms(7,8) by (simp add: list_update_append)
  ultimately have r: "read_request 8191 0 s ?b = c_string ?name ((drop (length n + 1) buf)[8190 - length n := 0])"
    by (simp add: c_string_def)
  have "0 \<notin> set ?name" using assms(4,6) by (auto dest: in_set_dropD)
  then have "snd (peer_serve files s ?b) = fst (peer_reply sz content) @ content"
    unfolding peer_serve_def Let_def r by (simp add: c_str_c_string assms(11) peer_reply_def)
  moreover obtain f2 r2 where "peer_serve files s ?b = (f2, r2)" by fastforce
  ultimately show ?thesis
    using peer_serve_line [OF assms(3,4,8,9), of files "[]"] assms(1,2) by simp
qed

lemma cut_request_mixes_names_example:
  "\<exists>first. peer_listener [[97, 98] \<mapsto> (2, [7, 7])] [(5, [97, 98, 0x0A]), (6, [])] (replicate 8192 0) = [first, fst (peer_reply 2 [7, 7]) @ [7, 7]]"
  using cut_request_mixes_names [of 5 6 "[97, 98]" "[]" "replicate 8192 0" "[[97, 98] \<mapsto> (2, [7, 7])]" 2 "[7, 7]"] by simp

end
