(* ===== verification/ServerLocks.thy ===== *)
theory ServerLocks
  imports ServerThreadsProps
begin

text \<open>
  The mutex \<^verbatim>\<open>g_trie_mutex\<close> of the directory server (\<^verbatim>\<open>PA4/server.c\<close>) as part of the state, and sockets
  that take no more when their client does not read.  A listing is written record by record to the
  socket of its client while its thread holds the mutex (\<open>trie_iterate_safe\<close> with \<open>printitr\<close>), and the
  line \<^verbatim>\<open>END\<close> after the mutex was released.  The other operations do not wait while they hold it.
  The system still makes the steps of \<open>ServerThreads\<close>; but one client can hold up all others.
\<close>

section \<open>The state\<close>

text \<open>
  Where a thread stands inside \<^verbatim>\<open>LIST\<close>: at the records that are left, with the stream after the command
  and what was written so far; or before the final line.
\<close>

datatype phase = Between | Listing conn "file_stat list" "byte list" | Ending conn "byte list"

text \<open>\<open>lk_holder\<close>: the thread that holds the mutex inside a listing; \<open>lk_read\<close>: the bytes each client has read.\<close>

record lock_sys =
  lk_sys :: server_sys
  lk_phases :: "phase list"
  lk_holder :: "nat option"
  lk_read :: "nat list"

fun phase_out :: "phase \<Rightarrow> byte list" where
  "phase_out Between = []"
| "phase_out (Listing c todo out) = out"
| "phase_out (Ending c out) = out"

definition unread :: "nat \<Rightarrow> lock_sys \<Rightarrow> nat" where
  "unread i L = length (th_out (ss_threads (lk_sys L) ! i)) + length (phase_out (lk_phases L ! i)) - lk_read L ! i"

text \<open>Whether the next command is a listing, and whether it is one that takes the mutex.\<close>

definition next_lists :: "conn \<Rightarrow> bool" where
  "next_lists c \<longleftrightarrow> c_str (cn_word (read_word c)) = ascii ''LIST''"

definition uses_trie :: "conn \<Rightarrow> bool" where
  "uses_trie c \<longleftrightarrow>
     (let c = read_word c; word = c_str (cn_word c) in
      word = ascii ''LIST'' \<or> word = ascii ''DEREGISTER'' \<or>
      word = ascii ''NEWFILE'' \<and>
        (case fst (read_file_stat (cn_stream c)) of None \<Rightarrow> False
         | Some tmp \<Rightarrow> fs_file_name tmp \<noteq> ascii ''.'' \<and> fs_file_name tmp \<noteq> ascii ''..''))"

definition at_trie :: "thread \<Rightarrow> bool" where
  "at_trie th \<longleftrightarrow> th_pc th = AtLoop \<and> \<not> cn_eof (th_conn th) \<and> uses_trie (th_conn th)"

definition final_line :: "byte list" where
  "final_line = ascii ''END'' @ [0x0A]"

definition finish_listing :: "conn \<Rightarrow> byte list \<Rightarrow> thread \<Rightarrow> thread" where
  "finish_listing c out th = th\<lparr>th_pc := AtLoop, th_conn := c, th_out := th_out th @ out @ final_line\<rparr>"

section \<open>Steps\<close>

text \<open>
  A step of thread \<open>i\<close>; \<open>None\<close>: it has to wait, for the mutex, or because \<open>cap\<close> bytes are unread and the
  socket takes no more.
\<close>

definition lock_run :: "nat \<Rightarrow> bool \<Rightarrow> nat \<Rightarrow> lock_sys \<Rightarrow> lock_sys result option" where
  "lock_run cap shared i L =
     (let S = lk_sys L; th = ss_threads S ! i in
      case lk_phases L ! i of
        Between \<Rightarrow>
          if at_trie th \<and> lk_holder L \<noteq> None then None
          else if at_trie th \<and> next_lists (th_conn th) then
            Some (Inr (L\<lparr>lk_phases := (lk_phases L)[i := Listing (read_word (th_conn th)) (lev2_values (g_file_map (ss_server S))) []],
                         lk_holder := Some i\<rparr>))
          else Some (bindR (run_thread shared i S) (\<lambda>S. Inr (L\<lparr>lk_sys := S\<rparr>)))
      | Listing c [] out \<Rightarrow> Some (Inr (L\<lparr>lk_phases := (lk_phases L)[i := Ending c out], lk_holder := None\<rparr>))
      | Listing c (element # todo) out \<Rightarrow>
          if unread i L < cap then
            Some (bindR (printitr out element) (\<lambda>out. Inr (L\<lparr>lk_phases := (lk_phases L)[i := Listing c todo out]\<rparr>)))
          else None
      | Ending c out \<Rightarrow>
          if unread i L < cap then
            Some (Inr (L\<lparr>lk_phases := (lk_phases L)[i := Between],
                         lk_sys := S\<lparr>ss_threads := (ss_threads S)[i := finish_listing c out th]\<rparr>\<rparr>))
          else None)"

datatype lock_event = LAccept "byte list" "byte list" "byte list" | LRun nat | LRead nat nat

inductive lock_step :: "nat \<Rightarrow> bool \<Rightarrow> lock_sys \<Rightarrow> lock_event \<Rightarrow> lock_sys \<Rightarrow> bool"
  for cap :: nat and shared :: bool
where
  lk_accept: "lock_step cap shared L (LAccept ip junk s)
    (L\<lparr>lk_sys := (lk_sys L)\<lparr>ss_threads := ss_threads (lk_sys L) @ [new_thread ip junk s]\<rparr>,
       lk_phases := lk_phases L @ [Between], lk_read := lk_read L @ [0]\<rparr>)"
| lk_run: "i < length (ss_threads (lk_sys L)) \<Longrightarrow> lock_run cap shared i L = Some (Inr L') \<Longrightarrow>
    lock_step cap shared L (LRun i) L'"
| lk_read: "i < length (ss_threads (lk_sys L)) \<Longrightarrow> n \<le> unread i L \<Longrightarrow>
    lock_step cap shared L (LRead i n) (L\<lparr>lk_read := (lk_read L)[i := lk_read L ! i + n]\<rparr>)"

inductive_simps lock_step_simps: "lock_step cap shared L (LAccept ip junk s) L'" "lock_step cap shared L (LRun i) L'" "lock_step cap shared L (LRead i n) L'"

definition start_lock :: lock_sys where
  "start_lock = \<lparr>lk_sys = start_sys, lk_phases = [], lk_holder = None, lk_read = []\<rparr>"

section \<open>The steps of the threads\<close>

text \<open>A listing takes effect when the mutex is released.\<close>

fun commit :: "thread \<Rightarrow> phase \<Rightarrow> thread" where
  "commit th (Ending c out) = finish_listing c out th"
| "commit th _ = th"

definition abs_lock :: "lock_sys \<Rightarrow> server_sys" where
  "abs_lock L = (lk_sys L)\<lparr>ss_threads := map2 commit (ss_threads (lk_sys L)) (lk_phases L)\<rparr>"

fun phase_ok :: "server_sys \<Rightarrow> nat option \<Rightarrow> nat \<Rightarrow> phase \<Rightarrow> bool" where
  "phase_ok S h i Between \<longleftrightarrow> h \<noteq> Some i"
| "phase_ok S h i (Ending c out) \<longleftrightarrow> h \<noteq> Some i"
| "phase_ok S h i (Listing c todo out) \<longleftrightarrow> h = Some i \<and> at_trie (ss_threads S ! i) \<and> next_lists (th_conn (ss_threads S ! i)) \<and>
     c = read_word (th_conn (ss_threads S ! i)) \<and>
     (\<exists>written. lev2_values (g_file_map (ss_server S)) = written @ todo \<and> out = concat (map write_file_stat written))"

definition lock_inv :: "lock_sys \<Rightarrow> bool" where
  "lock_inv L \<longleftrightarrow> length (lk_phases L) = length (ss_threads (lk_sys L)) \<and> length (lk_read L) = length (ss_threads (lk_sys L)) \<and>
     (\<forall>i < length (lk_phases L). phase_ok (lk_sys L) (lk_holder L) i (lk_phases L ! i)) \<and>
     (\<forall>i. lk_holder L = Some i \<longrightarrow> i < length (lk_phases L))"

lemma lock_inv_start: "lock_inv start_lock"
  by (simp add: lock_inv_def start_lock_def start_sys_def)

text \<open>A step that does not take the mutex leaves the files alone.\<close>

lemma thread_step_files:
  assumes "thread_step host sv th = Inr (sv', th')" "\<not> at_trie th"
  shows "g_file_map sv' = g_file_map sv"
proof (cases "th_pc th = AtLoop \<and> \<not> cn_eof (th_conn th)")
  case True
  then have "\<not> uses_trie (th_conn th)" using assms(2) by (simp add: at_trie_def)
  then show ?thesis using assms(1) True
    by (auto simp: thread_step_def thread_command_def uses_trie_def new_file_def Let_def bindR_eq_Inr split: if_splits prod.splits option.splits)
next
  case False
  then show ?thesis using assms(1) by (cases "th_pc th") (auto simp: thread_step_def bindR_eq_Inr)
qed

lemma thread_command_list:
  assumes "next_lists c"
  shows "thread_command host sv c = Inr (sv, read_word c, concat (map write_file_stat (lev2_values (g_file_map sv))) @ final_line, AtLoop)"
  using assms commands_differ
  by (simp add: next_lists_def thread_command_def Let_def trie_iterate_def iterate_printitr final_line_def)

lemma run_thread_list:
  fixes S :: server_sys and i :: nat
  defines "th \<equiv> ss_threads S ! i"
  assumes "at_trie th" "next_lists (th_conn th)"
  shows "run_thread shared i S = Inr (S\<lparr>ss_threads := (ss_threads S)[i := finish_listing (read_word (th_conn th))
      (concat (map write_file_stat (lev2_values (g_file_map (ss_server S))))) th]\<rparr>)"
  using assms(2,3)
  by (simp add: run_thread_def thread_step_def at_trie_def thread_command_list finish_listing_def Let_def th_def [symmetric])

section \<open>The simulation\<close>

definition lock_sim :: "lock_sys \<Rightarrow> server_sys \<Rightarrow> bool" where
  "lock_sim L S \<longleftrightarrow> S = abs_lock L \<and> lock_inv L"

text \<open>The same events, or none.\<close>

inductive sys_or_stay :: "bool \<Rightarrow> server_sys \<Rightarrow> lock_event \<Rightarrow> server_sys \<Rightarrow> bool"
  for shared :: bool
where
  stay_run: "sys_or_stay shared S (LRun i) S"
| stay_read: "sys_or_stay shared S (LRead i n) S"
| go_run: "sys_step shared S (Run i) S' \<Longrightarrow> sys_or_stay shared S (LRun i) S'"
| go_accept: "sys_step shared S (Accept ip junk s) S' \<Longrightarrow> sys_or_stay shared S (LAccept ip junk s) S'"

lemma map2_update_left: "length xs = length ys \<Longrightarrow> i < length xs \<Longrightarrow> map2 f (xs[i := x]) ys = (map2 f xs ys)[i := f x (ys ! i)]"
  by (intro nth_equalityI) (auto simp: nth_list_update)

lemma map2_update_right: "length xs = length ys \<Longrightarrow> i < length xs \<Longrightarrow> map2 f xs (ys[i := y]) = (map2 f xs ys)[i := f (xs ! i) y]"
  by (intro nth_equalityI) (auto simp: nth_list_update)

lemma map2_update_same:
  assumes "length xs = length ys" "f x y = f (xs ! i) (ys ! i)"
  shows "map2 f (xs[i := x]) (ys[i := y]) = map2 f xs ys"
proof (rule nth_equalityI)
  fix j assume "j < length (map2 f (xs[i := x]) (ys[i := y]))"
  then show "map2 f (xs[i := x]) (ys[i := y]) ! j = map2 f xs ys ! j" using assms by (cases "j = i") simp_all
qed simp

lemma map2_update_same_right:
  "length xs = length ys \<Longrightarrow> f (xs ! i) y = f (xs ! i) (ys ! i) \<Longrightarrow> map2 f xs (ys[i := y]) = map2 f xs ys"
  using map2_update_same [of xs ys f "xs ! i" y i] by simp

lemma abs_lock_simps [simp]:
  "ss_server (abs_lock L) = ss_server (lk_sys L)" "ss_ntoa (abs_lock L) = ss_ntoa (lk_sys L)"
  "ss_threads (abs_lock L) = map2 commit (ss_threads (lk_sys L)) (lk_phases L)"
  by (simp_all add: abs_lock_def)

lemma run_thread_abs:
  assumes "run_thread shared i (lk_sys L) = Inr S'" "lk_phases L ! i = Between" "lock_inv L" "i < length (ss_threads (lk_sys L))"
  shows "run_thread shared i (abs_lock L) = Inr (abs_lock (L\<lparr>lk_sys := S'\<rparr>))"
proof -
  have l: "length (ss_threads (lk_sys L)) = length (lk_phases L)" using assms(3) by (simp add: lock_inv_def)
  have th: "ss_threads (abs_lock L) ! i = ss_threads (lk_sys L) ! i" using assms(2,4) l by simp
  obtain sv th' where t: "thread_step (host_of shared (ss_ntoa (lk_sys L)) (th_ip (ss_threads (lk_sys L) ! i))) (ss_server (lk_sys L)) (ss_threads (lk_sys L) ! i) = Inr (sv, th')"
    "S' = (lk_sys L)\<lparr>ss_server := sv, ss_ntoa := (if th_pc (ss_threads (lk_sys L) ! i) = AtStart then th_ip (ss_threads (lk_sys L) ! i) else ss_ntoa (lk_sys L)),
       ss_threads := (ss_threads (lk_sys L))[i := th']\<rparr>"
    using assms(1) by (auto simp: run_thread_def Let_def bindR_eq_Inr)
  have "map2 commit ((ss_threads (lk_sys L))[i := th']) (lk_phases L) = (map2 commit (ss_threads (lk_sys L)) (lk_phases L))[i := th']"
    using map2_update_left [OF l assms(4), of commit th'] assms(2) by simp
  then show ?thesis unfolding run_thread_def Let_def th
    by (simp add: t abs_lock_def)
qed

text \<open>What a thread does to its own slot.\<close>

lemma lock_inv_at:
  assumes "lock_inv L" "i < length (ss_threads (lk_sys L))"
  shows "phase_ok (lk_sys L) (lk_holder L) i (lk_phases L ! i)" "i < length (lk_phases L)"
  using assms by (simp_all add: lock_inv_def)

lemma phase_ok_cong:
  assumes "phase_ok S h j p" "h' = Some j \<longleftrightarrow> h = Some j" "ss_threads S' ! j = ss_threads S ! j"
    "h = Some j \<Longrightarrow> g_file_map (ss_server S') = g_file_map (ss_server S)"
  shows "phase_ok S' h' j p"
  using assms by (cases p) auto

lemma run_thread_slots:
  assumes "run_thread shared i S = Inr S'"
  shows "length (ss_threads S') = length (ss_threads S)" "j \<noteq> i \<Longrightarrow> ss_threads S' ! j = ss_threads S ! j"
    "\<not> at_trie (ss_threads S ! i) \<Longrightarrow> g_file_map (ss_server S') = g_file_map (ss_server S)"
  using assms by (auto simp: run_thread_def Let_def bindR_eq_Inr dest: thread_step_files)

lemma lock_inv_run:
  assumes "lock_inv L" "i < length (ss_threads (lk_sys L))" "lk_phases L ! i = Between" "\<not> (at_trie (ss_threads (lk_sys L) ! i) \<and> lk_holder L \<noteq> None)"
    "run_thread shared i (lk_sys L) = Inr S'"
  shows "lock_inv (L\<lparr>lk_sys := S'\<rparr>)"
proof -
  note s = run_thread_slots [OF assms(5)]
  have "phase_ok S' (lk_holder L) j (lk_phases L ! j)" if "j < length (lk_phases L)" for j
  proof (cases "j = i")
    case True
    then show ?thesis using lock_inv_at(1) [OF assms(1,2)] assms(3) by simp
  next
    case False
    have ok: "phase_ok (lk_sys L) (lk_holder L) j (lk_phases L ! j)" using assms(1) that by (simp add: lock_inv_def)
    show ?thesis by (rule phase_ok_cong [OF ok refl s(2) [OF False]]) (use assms(4) s(3) in blast)
  qed
  then show ?thesis using assms(1) s(1) by (auto simp: lock_inv_def)
qed

text \<open>A change of the phase of thread \<open>i\<close>, and of who holds the mutex.\<close>

lemma lock_inv_phase:
  assumes "lock_inv L" "i < length (ss_threads (lk_sys L))" "lk_phases L' = (lk_phases L)[i := p]" "lk_read L' = lk_read L"
    "phase_ok (lk_sys L') (lk_holder L') i p" "\<And>j. j \<noteq> i \<Longrightarrow> lk_holder L' = Some j \<longleftrightarrow> lk_holder L = Some j"
    "ss_server (lk_sys L') = ss_server (lk_sys L)" "length (ss_threads (lk_sys L')) = length (ss_threads (lk_sys L))"
    "\<And>j. j \<noteq> i \<Longrightarrow> ss_threads (lk_sys L') ! j = ss_threads (lk_sys L) ! j"
  shows "lock_inv L'"
proof -
  have l: "length (lk_phases L) = length (ss_threads (lk_sys L))" using assms(1) by (simp add: lock_inv_def)
  have "phase_ok (lk_sys L') (lk_holder L') j (lk_phases L' ! j)" if "j < length (lk_phases L)" for j
  proof (cases "j = i")
    case True
    then show ?thesis using assms(2,3,5) l by simp
  next
    case False
    have "phase_ok (lk_sys L) (lk_holder L) j (lk_phases L ! j)" using assms(1) that by (simp add: lock_inv_def)
    then show ?thesis using False assms(3,6,7,9) phase_ok_cong [of "lk_sys L" "lk_holder L" j "lk_phases L ! j" "lk_holder L'" "lk_sys L'"] by simp
  qed
  moreover have "j < length (lk_phases L)" if "lk_holder L' = Some j" for j
    using that assms(1,2,6) l by (cases "j = i") (auto simp: lock_inv_def)
  ultimately show ?thesis using assms(1,3,4,8) by (simp add: lock_inv_def)
qed

lemma lock_run_sim:
  assumes "lock_run cap shared i L = Some (Inr L')" "lock_inv L" "i < length (ss_threads (lk_sys L))"
  shows "lock_inv L' \<and> (abs_lock L' = abs_lock L \<or> run_thread shared i (abs_lock L) = Inr (abs_lock L'))"
proof -
  let ?S = "lk_sys L" let ?th = "ss_threads ?S ! i"
  note at = lock_inv_at [OF assms(2,3)]
  have l: "length (ss_threads ?S) = length (lk_phases L)" using assms(2) by (simp add: lock_inv_def)
  show ?thesis
  proof (cases "lk_phases L ! i")
    case Between
    show ?thesis
    proof (cases "at_trie ?th \<and> lk_holder L = None \<and> next_lists (th_conn ?th)")
      case True
      let ?p = "Listing (read_word (th_conn ?th)) (lev2_values (g_file_map (ss_server ?S))) []"
      have L': "L' = L\<lparr>lk_phases := (lk_phases L)[i := ?p], lk_holder := Some i\<rparr>"
        using assms(1) True Between by (simp add: lock_run_def Let_def)
      have "lock_inv L'" by (rule lock_inv_phase [OF assms(2,3), where p = ?p]) (use True in \<open>auto simp: L'\<close>)
      moreover have "abs_lock L' = abs_lock L" using map2_update_same_right [OF l, of commit i ?p] Between by (simp add: L' abs_lock_def)
      ultimately show ?thesis by simp
    next
      case False
      then obtain S' where S': "run_thread shared i ?S = Inr S'" "L' = L\<lparr>lk_sys := S'\<rparr>"
        using assms(1) Between by (auto simp: lock_run_def Let_def bindR_eq_Inr split: if_splits)
      have "\<not> (at_trie ?th \<and> lk_holder L \<noteq> None)" using assms(1) Between by (cases "lk_holder L") (auto simp: lock_run_def Let_def)
      from lock_inv_run [OF assms(2,3) Between this S'(1)] run_thread_abs [OF S'(1) Between assms(2,3)] S'(2) show ?thesis by simp
    qed
  next
    case (Ending c out)
    then have L': "L' = L\<lparr>lk_phases := (lk_phases L)[i := Between], lk_sys := ?S\<lparr>ss_threads := (ss_threads ?S)[i := finish_listing c out ?th]\<rparr>\<rparr>"
      using assms(1) by (simp add: lock_run_def Let_def split: if_splits)
    have "lock_inv L'" by (rule lock_inv_phase [OF assms(2,3), where p = Between]) (use at Ending in \<open>auto simp: L'\<close>)
    moreover have "map2 commit ((ss_threads ?S)[i := finish_listing c out ?th]) ((lk_phases L)[i := Between]) = map2 commit (ss_threads ?S) (lk_phases L)"
      by (rule map2_update_same [OF l]) (simp add: Ending)
    then have "abs_lock L' = abs_lock L" by (simp add: L' abs_lock_def)
    ultimately show ?thesis by simp
  next
    case (Listing c todo out)
    show ?thesis
    proof (cases todo)
      case Nil
      then have L': "L' = L\<lparr>lk_phases := (lk_phases L)[i := Ending c out], lk_holder := None\<rparr>"
        using assms(1) Listing by (simp add: lock_run_def Let_def)
      have "lock_inv L'" by (rule lock_inv_phase [OF assms(2,3), where p = "Ending c out"]) (use at Listing in \<open>auto simp: L'\<close>)
      moreover have "run_thread shared i (abs_lock L) = Inr (abs_lock L')"
      proof -
        have th: "ss_threads (abs_lock L) ! i = ?th" using Listing assms(3) l by simp
        have c: "at_trie ?th" "next_lists (th_conn ?th)" "c = read_word (th_conn ?th)"
          "out = concat (map write_file_stat (lev2_values (g_file_map (ss_server ?S))))" using at(1) Listing Nil by auto
        have "run_thread shared i (abs_lock L) = Inr ((abs_lock L)\<lparr>ss_threads := (ss_threads (abs_lock L))[i := finish_listing c out ?th]\<rparr>)"
          using run_thread_list [of "abs_lock L" i shared] c unfolding th by simp
        also have "\<dots> = Inr (abs_lock L')"
          using map2_update_right [OF l assms(3), of commit "Ending c out"] by (simp add: L' abs_lock_def)
        finally show ?thesis .
      qed
      ultimately show ?thesis by simp
    next
      case (Cons e es)
      let ?p = "Listing c es (out @ write_file_stat e)"
      have L': "L' = L\<lparr>lk_phases := (lk_phases L)[i := ?p]\<rparr>"
        using assms(1) Listing Cons by (simp add: lock_run_def Let_def printitr_def split: if_splits)
      obtain written where "lev2_values (g_file_map (ss_server ?S)) = written @ e # es" "out = concat (map write_file_stat written)"
        using at(1) Listing Cons by auto
      then have "phase_ok ?S (lk_holder L) i ?p" using at(1) Listing by (auto intro!: exI [of _ "written @ [e]"])
      then have "lock_inv L'" by (intro lock_inv_phase [OF assms(2,3), where p = ?p]) (simp_all add: L')
      moreover have "map2 commit (ss_threads ?S) ((lk_phases L)[i := ?p]) = map2 commit (ss_threads ?S) (lk_phases L)"
        by (rule map2_update_same_right [OF l]) (simp add: Listing)
      then have "abs_lock L' = abs_lock L" by (simp add: L' abs_lock_def)
      ultimately show ?thesis by simp
    qed
  qed
qed

lemma lock_step_sim:
  assumes "lock_step cap shared L e L'" "lock_sim L S"
  shows "\<exists>S'. sys_or_stay shared S e S' \<and> lock_sim L' S'"
  using assms(1)
proof (cases rule: lock_step.cases)
  case (lk_accept ip junk s)
  have "lock_inv L" "S = abs_lock L" using assms(2) by (simp_all add: lock_sim_def)
  then have l: "length (ss_threads (lk_sys L)) = length (lk_phases L)" by (simp add: lock_inv_def)
  have "phase_ok (lk_sys L') (lk_holder L') j (lk_phases L' ! j)" if "j < length (lk_phases L')" for j
  proof (cases "j < length (lk_phases L)")
    case True
    then have "phase_ok (lk_sys L) (lk_holder L) j (lk_phases L ! j)" using \<open>lock_inv L\<close> by (simp add: lock_inv_def)
    from phase_ok_cong [OF this, of "lk_holder L" "lk_sys L'"] show ?thesis using True l by (simp add: lk_accept nth_append)
  next
    case False
    then have "j = length (lk_phases L)" using that by (simp add: lk_accept)
    moreover have "lk_holder L \<noteq> Some (length (lk_phases L))" using \<open>lock_inv L\<close> by (auto simp: lock_inv_def)
    ultimately show ?thesis by (simp add: lk_accept nth_append)
  qed
  moreover have "abs_lock L' = (abs_lock L)\<lparr>ss_threads := ss_threads (abs_lock L) @ [new_thread ip junk s]\<rparr>"
    using l by (simp add: lk_accept abs_lock_def)
  then have "sys_or_stay shared S e (abs_lock L')"
    unfolding lk_accept \<open>S = abs_lock L\<close> by (simp only:) (rule go_accept [OF sys_accept])
  moreover have "lock_inv L'" if "\<And>j. j < length (lk_phases L') \<Longrightarrow> phase_ok (lk_sys L') (lk_holder L') j (lk_phases L' ! j)"
    using \<open>lock_inv L\<close> that l by (auto simp: lock_inv_def lk_accept less_Suc_eq)
  ultimately show ?thesis by (auto simp: lock_sim_def)
next
  case (lk_run i)
  have i: "i < length (ss_threads (abs_lock L))" using lk_run(2) assms(2) by (simp add: lock_sim_def lock_inv_def)
  have "lock_inv L'" "abs_lock L' = abs_lock L \<or> run_thread shared i (abs_lock L) = Inr (abs_lock L')"
    using lock_run_sim [OF lk_run(3) _ lk_run(2)] assms(2) by (simp_all add: lock_sim_def)
  moreover from this(2) have "sys_or_stay shared (abs_lock L) (LRun i) (abs_lock L')"
    using stay_run [of shared "abs_lock L" i] go_run [OF sys_run [OF i]] by auto
  ultimately show ?thesis using assms(2) lk_run(1) by (auto simp: lock_sim_def)
next
  case (lk_read i n)
  then show ?thesis using assms(2) by (intro exI [of _ S]) (auto simp: lock_sim_def lock_inv_def abs_lock_def intro: stay_read)
qed

interpretation mutex_server: forward_simulation "lock_step cap shared" "sys_or_stay shared" lock_sim "\<lambda>_. True" for cap shared
  by unfold_locales (rule lock_step_sim)

section \<open>Properties\<close>

fun accepted :: "lock_event \<Rightarrow> sys_event list" where
  "accepted (LAccept ip junk s) = [Accept ip junk s]"
| "accepted _ = []"

fun is_accept :: "sys_event \<Rightarrow> bool" where
  "is_accept (Accept ip junk s) \<longleftrightarrow> True"
| "is_accept (Run i) \<longleftrightarrow> False"

lemma sys_or_stay_runs:
  "runs (sys_or_stay shared) start_sys es S \<Longrightarrow> \<exists>es'. sys_runs shared es' S \<and> filter is_accept es' = concat (map accepted es)"
proof (induction rule: runs.induct)
  case run_start
  then show ?case by (intro exI [of _ "[]"]) (simp add: runs.run_start)
next
  case (run_step es S e S')
  then obtain es' where es': "sys_runs shared es' S" "filter is_accept es' = concat (map accepted es)" by blast
  have "S' = S \<and> accepted e = [] \<or> (\<exists>e'. sys_step shared S e' S' \<and> filter is_accept [e'] = accepted e)"
    using run_step.hyps(2) by (cases rule: sys_or_stay.cases) fastforce+
  then consider "S' = S" "accepted e = []" | e' where "sys_step shared S e' S'" "filter is_accept [e'] = accepted e" by blast
  then show ?case
  proof cases
    case 1
    then show ?thesis using es' by auto
  next
    case 2
    have "sys_runs shared (es' @ [e']) S'" by (rule runs.run_step [OF es'(1) 2(1)])
    then show ?thesis using es'(2) 2(2) by (intro exI [of _ "es' @ [e']"]) simp
  qed
qed

lemma lock_sim_start: "lock_sim start_lock start_sys"
  using lock_inv_start by (simp add: lock_sim_def) (simp add: start_lock_def abs_lock_def start_sys_def)

lemma lock_runs_sim:
  assumes "runs (lock_step cap shared) start_lock es L"
  shows "runs (sys_or_stay shared) start_sys es (abs_lock L)" "lock_inv L"
  using mutex_server.sim_runs [OF assms lock_sim_start] by (auto simp: lock_sim_def list_all_iff)

text \<open>
  C25. With its mutex, and listings written record by record to clients that may be slow, the server makes
  the steps of \<open>ServerThreads\<close>: every run comes to a run of whole operations with the same connections,
  in which a listing that has released the mutex is complete.
\<close>

theorem server_locks_refine:
  assumes "runs (lock_step cap shared) start_lock es L"
  shows "\<exists>es'. sys_runs shared es' (abs_lock L) \<and> filter is_accept es' = concat (map accepted es)"
  by (rule sys_or_stay_runs [OF lock_runs_sim(1) [OF assms]])

subsection \<open>A client that does not read\<close>

definition stalled :: "nat \<Rightarrow> nat \<Rightarrow> file_stat trie_lev2 \<Rightarrow> lock_sys \<Rightarrow> bool" where
  "stalled cap i files L \<longleftrightarrow> lock_inv L \<and> i < length (lk_phases L) \<and> g_file_map (ss_server (lk_sys L)) = files \<and>
     (\<exists>c element todo out. lk_phases L ! i = Listing c (element # todo) out) \<and> cap \<le> unread i L"

lemma stalled_waits:
  assumes "stalled cap i files L"
  shows "lk_holder L = Some i" "lock_run cap shared i L = None"
    "lk_phases L ! j = Between \<Longrightarrow> at_trie (ss_threads (lk_sys L) ! j) \<Longrightarrow> lock_run cap shared j L = None"
proof -
  have "phase_ok (lk_sys L) (lk_holder L) i (lk_phases L ! i)" using assms by (simp add: stalled_def lock_inv_def)
  then show h: "lk_holder L = Some i" using assms by (auto simp: stalled_def)
  show "lock_run cap shared i L = None" using assms by (auto simp: stalled_def lock_run_def Let_def)
  show "lk_phases L ! j = Between \<Longrightarrow> at_trie (ss_threads (lk_sys L) ! j) \<Longrightarrow> lock_run cap shared j L = None"
    using h by (simp add: lock_run_def Let_def)
qed

lemma stalled_run:
  assumes "stalled cap i files L" "lock_run cap shared j L = Some (Inr L')" "j < length (ss_threads (lk_sys L))"
  shows "stalled cap i files L'"
proof -
  have inv: "lock_inv L" and i: "i < length (lk_phases L)" "lk_read L' = lk_read L"
    using assms(1,2) by (auto simp: stalled_def lock_run_def Let_def bindR_eq_Inr split: phase.splits list.splits if_splits)
  have ji: "j \<noteq> i" using assms(2) stalled_waits(2) [OF assms(1)] by auto
  have no: "lk_phases L ! j \<noteq> Listing c todo out" for c todo out
    using lock_inv_at(1) [OF inv assms(3)] stalled_waits(1) [OF assms(1)] ji by auto
  have "lk_phases L' ! i = lk_phases L ! i \<and> length (lk_phases L') = length (lk_phases L) \<and>
      ss_threads (lk_sys L') ! i = ss_threads (lk_sys L) ! i \<and> g_file_map (ss_server (lk_sys L')) = g_file_map (ss_server (lk_sys L))"
  proof (cases "lk_phases L ! j")
    case Between
    then have nt: "\<not> at_trie (ss_threads (lk_sys L) ! j)" using stalled_waits(3) [OF assms(1)] assms(2) by auto
    then obtain S' where "run_thread shared j (lk_sys L) = Inr S'" "L' = L\<lparr>lk_sys := S'\<rparr>"
      using assms(2) Between by (auto simp: lock_run_def Let_def bindR_eq_Inr)
    then show ?thesis using run_thread_slots(2,3) ji nt by auto
  next
    case (Ending c out)
    then show ?thesis using assms(2) ji by (auto simp: lock_run_def Let_def split: if_splits)
  qed (use no in auto)
  then show ?thesis using lock_run_sim [OF assms(2) inv assms(3)] assms(1) i(2) by (simp add: stalled_def unread_def)
qed

lemma stalled_step:
  assumes "lock_step cap shared L e L'" "stalled cap i files L" "\<And>n. e \<noteq> LRead i n"
  shows "stalled cap i files L'"
  using assms(1)
proof (cases rule: lock_step.cases)
  case (lk_accept ip junk s)
  have inv: "lock_inv L'" using lock_step_sim [OF assms(1), of "abs_lock L"] assms(2) by (auto simp: lock_sim_def stalled_def)
  have "length (ss_threads (lk_sys L)) = length (lk_phases L)" "length (lk_read L) = length (lk_phases L)"
    using assms(2) by (simp_all add: stalled_def lock_inv_def)
  then show ?thesis using assms(2) inv by (simp add: stalled_def lk_accept unread_def nth_append)
next
  case (lk_run j)
  then show ?thesis using stalled_run [OF assms(2)] by blast
next
  case (lk_read j n)
  have inv: "lock_inv L'" using lock_step_sim [OF assms(1), of "abs_lock L"] assms(2) by (auto simp: lock_sim_def stalled_def)
  have "j \<noteq> i" using assms(3) lk_read(1) by blast
  then show ?thesis using assms(2) inv by (simp add: stalled_def lk_read unread_def)
qed

interpretation stall: run_invariant "lock_step cap shared" "\<lambda>es L. (\<exists>n. LRead i n \<in> set es) \<or> stalled cap i files L" for cap shared i files
  by unfold_locales (use stalled_step in fastforce)

text \<open>
  C26. One client that asks for the listing and does not read it holds up the directory: from the moment its
  socket takes no more, until it reads, the files stay as they are, and no other thread gets
  past a \<^verbatim>\<open>NEWFILE\<close>, a \<^verbatim>\<open>LIST\<close> or a \<^verbatim>\<open>DEREGISTER\<close>.
\<close>

theorem unread_listing_stalls:
  assumes "runs (lock_step cap shared) start_lock es L" "i < length (lk_phases L)"
    "lk_phases L ! i = Listing c (element # todo) out" "cap \<le> unread i L"
    "runs (lock_step cap shared) L es' L'" "\<forall>n. LRead i n \<notin> set es'"
  shows "g_file_map (ss_server (lk_sys L')) = g_file_map (ss_server (lk_sys L)) \<and> lock_run cap shared i L' = None \<and>
    (\<forall>j. lk_phases L' ! j = Between \<and> at_trie (ss_threads (lk_sys L') ! j) \<longrightarrow> lock_run cap shared j L' = None)"
proof -
  have "stalled cap i (g_file_map (ss_server (lk_sys L))) L" using lock_runs_sim(2) [OF assms(1)] assms(2-4) by (simp add: stalled_def)
  then have st: "stalled cap i (g_file_map (ss_server (lk_sys L))) L'" using stall.inv_runs [OF assms(5), of i] assms(6) by blast
  then have "g_file_map (ss_server (lk_sys L')) = g_file_map (ss_server (lk_sys L))" by (simp add: stalled_def)
  then show ?thesis using stalled_waits(2,3) [OF st] by blast
qed

subsection \<open>Such a run\<close>

lemma lock_runs_step:
  "runs (lock_step cap shared) L0 es L \<Longrightarrow> lock_step cap shared L e L' \<Longrightarrow> runs (lock_step cap shared) L0 (es @ [e]) L'"
  by (rule runs.run_step)

lemma lock_run_whole:
  assumes "runs (lock_step cap shared) start_lock es L" "i < length (ss_threads (lk_sys L))" "lk_phases L ! i = Between" "lk_holder L = None"
    "\<not> (at_trie (ss_threads (lk_sys L) ! i) \<and> next_lists (th_conn (ss_threads (lk_sys L) ! i)))" "run_thread shared i (lk_sys L) = Inr S'"
  shows "runs (lock_step cap shared) start_lock (es @ [LRun i]) (L\<lparr>lk_sys := S'\<rparr>)"
  by (rule lock_runs_step [OF assms(1) lock_step.lk_run [OF assms(2)]]) (use assms(3-6) in \<open>auto simp: lock_run_def Let_def\<close>)

text \<open>One client posts two files, the other one asks for the listing.\<close>

definition second_stat :: file_stat where
  "second_stat = example_stat\<lparr>fs_file_name := [98]\<rparr>"

definition posts :: "command list" where
  "posts = [NewFile example_stat, NewFile second_stat]"

abbreviation two_clients :: "server \<Rightarrow> byte list \<Rightarrow> thread \<Rightarrow> thread \<Rightarrow> lock_sys" where
  "two_clients sv ntoa t1 t2 \<equiv> \<lparr>lk_sys = \<lparr>ss_server = sv, ss_ntoa = ntoa, ss_threads = [t1, t2]\<rparr>, lk_phases = [Between, Between],
     lk_holder = None, lk_read = [0, 0]\<rparr>"

lemma posts_ok: "list_all command_ok posts"
proof -
  have "stat_line second_stat = [98, 47, 49, 53, 48, 48, 58, 98, 111, 98, 58, 104, 58, 57, 48, 48, 48, 10]"
    by (simp add: second_stat_def stat_line_def example_stat_def c_str_def decimal.simps)
  moreover have "stat_ok second_stat" "ascii_key (fs_file_name second_stat)"
    by (simp_all add: second_stat_def stat_ok_def example_stat_def BUF_LEN_def ascii_key_def)
  ultimately show ?thesis using example_stat_ok example_stat_key(1) by (simp add: posts_def)
qed

lemma newfile_next:
  assumes "conn_sim c (NewFile st # cs, lv)"
  shows "\<not> next_lists c"
proof -
  obtain s where s: "cn_stream c = ascii ''NEWFILE'' @ 0x20 # write_file_stat st @ s" "length (cn_word c) = 128"
    using assms by (cases lv) (auto simp: conn_sim_def plan_stream_def)
  show ?thesis using read_command(1) [OF command_words(2,5) s(2,1)] by (simp add: next_lists_def)
qed

text \<open>Posting a file is a whole step.\<close>

lemma post_step:
  assumes "runs (lock_step cap shared) start_lock es (two_clients sv ntoa t1 t2)" "server_inv sv" "th_pc t1 = AtLoop"
    "conn_sim (th_conn t1) (NewFile st # cs, lv)"
  shows "\<exists>sv' t1' host. runs (lock_step cap shared) start_lock (es @ [LRun 0]) (two_clients sv' ntoa t1' t2) \<and> server_inv sv' \<and>
    th_pc t1' = AtLoop \<and> conn_sim (th_conn t1') (cs, lv) \<and> files_of sv' = post_file host st (files_of sv)"
proof -
  let ?host = "host_of shared ntoa (th_ip t1)"
  obtain sv' c' where c': "thread_command ?host sv (th_conn t1) = Inr (sv', c', [], AtLoop)" "server_inv sv'"
    "dir_of sv' = (post_file ?host st (files_of sv), clients_of sv)" "conn_sim c' (cs, lv)" using step_newfile [OF assms(2,4)] by blast
  let ?t = "t1\<lparr>th_pc := AtLoop, th_conn := c', th_out := th_out t1 @ []\<rparr>"
  have "\<not> cn_eof (th_conn t1)" using assms(4) by (simp add: conn_sim_def)
  then have "run_thread shared 0 (lk_sys (two_clients sv ntoa t1 t2)) = Inr (lk_sys (two_clients sv' ntoa ?t t2))"
    using assms(3) c'(1) by (simp add: run_thread_def thread_step_def Let_def)
  from lock_run_whole [OF assms(1) _ _ _ _ this] newfile_next [OF assms(4)] have
    "runs (lock_step cap shared) start_lock (es @ [LRun 0]) (two_clients sv' ntoa ?t t2)" by simp
  then show ?thesis using c'(2-4) by (intro exI [of _ sv'] exI [of _ ?t] exI [of _ ?host]) (simp add: dir_of_def)
qed

lemma two_files_posted:
  "\<exists>es sv ntoa t1 t2. runs (lock_step cap shared) start_lock es (two_clients sv ntoa t1 t2) \<and> server_inv sv \<and>
     {[97, 46, 99], [98]} \<subseteq> dom (files_of sv) \<and> th_pc t2 = AtLoop \<and> conn_sim (th_conn t2) ([ListFiles], None) \<and> th_out t2 = []"
proof -
  let ?junk = "replicate 128 0" let ?s1 = "concat (map wire [NewFile example_stat, NewFile second_stat])" and ?s2 = "wire ListFiles"
  let ?n1 = "new_thread localhost ?junk ?s1" and ?n2 = "new_thread [49] ?junk ?s2"
  let ?t1 = "?n1\<lparr>th_pc := AtLoop\<rparr>" and ?t2 = "?n2\<lparr>th_pc := AtLoop\<rparr>"
  have r1: "runs (lock_step cap shared) start_lock [LAccept localhost ?junk ?s1, LAccept [49] ?junk ?s2] (two_clients new_server [] ?n1 ?n2)"
    using lock_runs_step [OF lock_runs_step [OF runs.run_start lock_step.lk_accept] lock_step.lk_accept,
      of cap shared start_lock localhost ?junk ?s1 "[49]" ?junk ?s2] by (simp add: start_lock_def start_sys_def)
  have "runs (lock_step cap shared) start_lock ([LAccept localhost ?junk ?s1, LAccept [49] ?junk ?s2] @ [LRun 0]) (two_clients new_server localhost ?t1 ?n2)"
    using lock_run_whole [OF r1, of 0] by (simp add: run_thread_def thread_step_def at_trie_def new_thread_def)
  from lock_run_whole [OF this, of 1] have r3: "runs (lock_step cap shared) start_lock
      (([LAccept localhost ?junk ?s1, LAccept [49] ?junk ?s2] @ [LRun 0]) @ [LRun 1]) (two_clients new_server [49] ?t1 ?t2)"
    by (simp add: run_thread_def thread_step_def at_trie_def new_thread_def)
  have c: "conn_sim (th_conn ?t1) ([NewFile example_stat, NewFile second_stat], None)" "conn_sim (th_conn ?t2) ([ListFiles], None)"
    using posts_ok by (simp_all add: posts_def conn_sim_def new_thread_def plan_ok_def plan_stream_def)
  from post_step [OF r3 new_server_inv(1) _ c(1)] obtain sv1 t1 host1 where
    p1: "runs (lock_step cap shared) start_lock ((([LAccept localhost ?junk ?s1, LAccept [49] ?junk ?s2] @ [LRun 0]) @ [LRun 1]) @ [LRun 0]) (two_clients sv1 [49] t1 ?t2)"
    "server_inv sv1" "th_pc t1 = AtLoop" "conn_sim (th_conn t1) ([NewFile second_stat], None)" "files_of sv1 = post_file host1 example_stat (files_of new_server)"
    by auto
  from post_step [OF p1(1-4)] obtain es sv2 t2 host2 where
    p2: "runs (lock_step cap shared) start_lock es (two_clients sv2 [49] t2 ?t2)" "server_inv sv2" "files_of sv2 = post_file host2 second_stat (files_of sv1)" by blast
  have "{[97, 46, 99], [98]} \<subseteq> dom (files_of sv2)" unfolding p2(3) p1(5) using example_stat_key(3)
    by (auto simp: post_file_def second_stat_def)
  then show ?thesis using p2(1,2) c(2)
    by (intro exI [of _ es] exI [of _ sv2] exI [of _ "[49]"] exI [of _ t2] exI [of _ ?t2]) (simp add: new_thread_def)
qed

text \<open>A buffer of one byte: the client has not read the first record.\<close>

lemma listing_begun:
  "\<exists>es L c element todo out. runs (lock_step 1 shared) start_lock es L \<and> length (lk_phases L) = 2 \<and>
     lk_phases L ! 1 = Listing c (element # todo) out \<and> 1 \<le> unread 1 L"
proof -
  obtain es sv ntoa t1 t2 where r: "runs (lock_step 1 shared) start_lock es (two_clients sv ntoa t1 t2)" "server_inv sv"
    "{[97, 46, 99], [98]} \<subseteq> dom (files_of sv)" "th_pc t2 = AtLoop" "conn_sim (th_conn t2) ([ListFiles], None)" "th_out t2 = []"
    using two_files_posted by blast
  obtain s where s: "cn_stream (th_conn t2) = ascii ''LIST'' @ 0x0A # s" "length (cn_word (th_conn t2)) = 128" "\<not> cn_eof (th_conn t2)"
    using r(5) by (auto simp: conn_sim_def plan_stream_def)
  have n: "next_lists (th_conn t2)" using read_command(1) [OF command_words(3,6) s(2,1)] by (simp add: next_lists_def)
  then have at: "at_trie t2" using r(4) s(3) by (simp add: at_trie_def uses_trie_def next_lists_def)
  obtain st1 st2 where st: "files_of sv [97, 46, 99] = Some st1" "files_of sv [98] = Some st2" using r(3) by auto
  then have "fs_file_name st1 = [97, 46, 99]" "fs_file_name st2 = [98]" using r(2) by (auto simp: server_inv_def)
  then have "st1 \<in> set (lev2_values (g_file_map sv))" "st2 \<in> set (lev2_values (g_file_map sv))" "st1 \<noteq> st2"
    using st file_values [OF r(2)] by auto
  then obtain e1 e2 rest where v: "lev2_values (g_file_map sv) = e1 # e2 # rest"
    by (cases "lev2_values (g_file_map sv)" rule: list.exhaust, simp) (metis empty_iff list.exhaust list.set(1) set_ConsD)
  let ?L = "two_clients sv ntoa t1 t2" let ?c = "read_word (th_conn t2)"
  let ?L1 = "?L\<lparr>lk_phases := [Between, Listing ?c (e1 # e2 # rest) []], lk_holder := Some 1\<rparr>"
  let ?L2 = "?L1\<lparr>lk_phases := [Between, Listing ?c (e2 # rest) (write_file_stat e1)]\<rparr>"
  have "lock_run 1 shared 1 ?L = Some (Inr ?L1)" using at n v by (simp add: lock_run_def Let_def)
  then have "lock_step 1 shared ?L (LRun 1) ?L1" by (intro lock_step.lk_run) simp_all
  note r1 = lock_runs_step [OF r(1) this]
  have "lock_run 1 shared 1 ?L1 = Some (Inr ?L2)" using r(6) by (simp add: lock_run_def Let_def unread_def printitr_def)
  then have "lock_step 1 shared ?L1 (LRun 1) ?L2" by (intro lock_step.lk_run) simp_all
  note r2 = lock_runs_step [OF r1 this]
  have "write_file_stat e1 \<noteq> []" by (simp add: write_file_stat_def stat_line_def)
  then have "1 \<le> unread 1 ?L2" using r(6) by (cases "write_file_stat e1") (simp_all add: unread_def)
  then show ?thesis using r2
    by (intro exI [of _ "(es @ [LRun 1]) @ [LRun 1]"] exI [of _ ?L2] exI [of _ ?c] exI [of _ e2] exI [of _ rest] exI [of _ "write_file_stat e1"]) simp
qed

theorem unread_listing_stalls_witness:
  "\<exists>es L. runs (lock_step 1 False) start_lock es L \<and> lock_run 1 False 1 L = None"
proof -
  obtain es L c element todo out where L: "runs (lock_step 1 False) start_lock es L" "length (lk_phases L) = 2"
    "lk_phases L ! 1 = Listing c (element # todo) out" "1 \<le> unread 1 L" using listing_begun by blast
  then have "1 < length (lk_phases L)" by simp
  from unread_listing_stalls [OF L(1) this L(3,4) runs.run_start] have "lock_run 1 False 1 L = None" by simp
  then show ?thesis using L(1) by blast
qed

theorem server_locks_refine_witness:
  "\<exists>es L es'. runs (lock_step 1 True) start_lock es L \<and> lk_holder L = Some 1 \<and> sys_runs True es' (abs_lock L)"
proof -
  obtain es L c element todo out where L: "runs (lock_step 1 True) start_lock es L" "length (lk_phases L) = 2"
    "lk_phases L ! 1 = Listing c (element # todo) out" using listing_begun by blast
  have inv: "lock_inv L" by (rule lock_runs_sim(2) [OF L(1)])
  then have "1 < length (ss_threads (lk_sys L))" using L(2) by (simp add: lock_inv_def)
  from lock_inv_at(1) [OF inv this] have "lk_holder L = Some 1" unfolding L(3) by simp
  then show ?thesis using server_locks_refine [OF L(1)] L(1) by blast
qed

end
